(* ===== verification/Prelude.thy ===== *)
theory Prelude
  imports Main "HOL-Library.Word"
begin

text \<open>
  Shared vocabulary of the development: the error values that stand for the ways the C++ code can
  stop (exceptions, failed assertions, undefined behaviour), the error monad with its loops, signed
  64-bit arithmetic with overflow as an error, checked access to vectors and pointers, and the
  generic lemmas the component theories share.
\<close>

section \<open>Errors as values\<close>

text \<open>
  The build passes \<^verbatim>\<open>-O2\<close> without \<^verbatim>\<open>NDEBUG\<close>, so a failed \<^verbatim>\<open>assert\<close> stops the program; undefined
  behaviour (null dereference, access past the end of a vector or buffer, signed overflow, a
  \<^verbatim>\<open>static_cast\<close> to the wrong dynamic type) is an error value of its own.
\<close>

datatype exec_error =
    RuntimeError string
  | Thrown string
  | LengthError
  | AssertFailed
  | NullDeref
  | OutOfRange
  | SignedOverflow
  | DivisionByZero
  | BadCast

type_synonym 'a res = "exec_error + 'a"

named_theorems res_simps \<open>equations that evaluate the error monad\<close>
named_theorems inv_intros \<open>preservation lemmas of the component invariants\<close>
named_theorems frame_simps \<open>fields an operation does not change\<close>

definition rbind :: "'a res \<Rightarrow> ('a \<Rightarrow> 'b res) \<Rightarrow> 'b res" where
  "rbind m f = (case m of Inl e \<Rightarrow> Inl e | Inr x \<Rightarrow> f x)"

lemma rbind_Inr [simp, res_simps]: "rbind (Inr x) f = f x"
  by (simp add: rbind_def)

lemma rbind_Inl [simp, res_simps]: "rbind (Inl e) f = Inl e"
  by (simp add: rbind_def)

lemma rbind_eq_Inr [simp]: "rbind m f = Inr y \<longleftrightarrow> (\<exists>x. m = Inr x \<and> f x = Inr y)"
  by (cases m) auto

lemma rbind_eq_Inl: "rbind m f = Inl e \<longleftrightarrow> m = Inl e \<or> (\<exists>x. m = Inr x \<and> f x = Inl e)"
  by (cases m) auto

lemma rbind_assoc: "rbind (rbind m f) g = rbind m (\<lambda>x. rbind (f x) g)"
  by (cases m) auto

lemma rbind_cong [fundef_cong]:
  "m = m' \<Longrightarrow> (\<And>x. m' = Inr x \<Longrightarrow> f x = f' x) \<Longrightarrow> rbind m f = rbind m' f'"
  by (cases m') auto

definition deref :: "'a option \<Rightarrow> 'a res" where
  "deref p = (case p of None \<Rightarrow> Inl NullDeref | Some x \<Rightarrow> Inr x)"

lemma deref_Some [simp, res_simps]: "deref (Some x) = Inr x"
  by (simp add: deref_def)

lemma deref_None [simp, res_simps]: "deref None = Inl NullDeref"
  by (simp add: deref_def)

lemma deref_eq_Inr [simp]: "deref p = Inr x \<longleftrightarrow> p = Some x"
  by (cases p) auto

definition rassert :: "bool \<Rightarrow> unit res" where
  "rassert b = (if b then Inr () else Inl AssertFailed)"

lemma rassert_True [simp, res_simps]: "rassert True = Inr ()"
  by (simp add: rassert_def)

lemma rassert_eq_Inr [simp]: "rassert b = Inr u \<longleftrightarrow> b"
  by (simp add: rassert_def)

definition vec_at :: "'a list \<Rightarrow> nat \<Rightarrow> 'a res" where
  "vec_at xs i = (if i < length xs then Inr (xs ! i) else Inl OutOfRange)"

lemma vec_at_less [simp, res_simps]: "i < length xs \<Longrightarrow> vec_at xs i = Inr (xs ! i)"
  by (simp add: vec_at_def)

lemma vec_at_eq_Inr: "vec_at xs i = Inr x \<longleftrightarrow> i < length xs \<and> x = xs ! i"
  by (auto simp: vec_at_def)

section \<open>Loops in the error monad\<close>

text \<open>
  \<open>rfold\<close> is a \<^verbatim>\<open>for\<close> loop whose body may stop with an error; \<open>rall\<close> is a loop that returns false
  at the first element that fails its test, as the \<^verbatim>\<open>IsFinished\<close> methods do.
\<close>

fun rfold :: "('a \<Rightarrow> 's \<Rightarrow> 's res) \<Rightarrow> 'a list \<Rightarrow> 's \<Rightarrow> 's res" where
  "rfold f [] s = Inr s"
| "rfold f (x # xs) s = rbind (f x s) (rfold f xs)"

fun rall :: "('a \<Rightarrow> bool res) \<Rightarrow> 'a list \<Rightarrow> bool res" where
  "rall p [] = Inr True"
| "rall p (x # xs) = rbind (p x) (\<lambda>b. if b then rall p xs else Inr False)"

lemma rfold_append: "rfold f (xs @ ys) s = rbind (rfold f xs s) (rfold f ys)"
proof (induction xs arbitrary: s)
  case (Cons x xs)
  then show ?case by (cases "f x s") auto
qed simp

lemma rfold_invariant:
  assumes "rfold f xs s = Inr t" and "P s"
    and "\<And>x u v. x \<in> set xs \<Longrightarrow> P u \<Longrightarrow> f x u = Inr v \<Longrightarrow> P v"
  shows "P t"
  using assms
proof (induction xs arbitrary: s)
  case Nil
  then show ?case by simp
next
  case (Cons x xs)
  from Cons.prems(1) obtain u where "f x s = Inr u" and "rfold f xs u = Inr t" by auto
  moreover from this Cons.prems have "P u" by auto
  ultimately show ?case using Cons.IH Cons.prems(3) by auto
qed

lemma rfold_frame:
  assumes "rfold f xs s = Inr t" and "\<And>x u v. f x u = Inr v \<Longrightarrow> g v = g u"
  shows "g t = g s"
  by (rule rfold_invariant [OF assms(1), where P = "\<lambda>u. g u = g s"]) (auto simp: assms(2))

lemma rfold_total:
  assumes "P s" and "\<And>x u. x \<in> set xs \<Longrightarrow> P u \<Longrightarrow> \<exists>v. f x u = Inr v \<and> P v"
  shows "\<exists>t. rfold f xs s = Inr t \<and> P t"
  using assms
proof (induction xs arbitrary: s)
  case Nil
  then show ?case by simp
next
  case (Cons x xs)
  from Cons.prems(1) Cons.prems(2) [of x s] obtain v where v: "f x s = Inr v" "P v" by auto
  from Cons.IH [OF v(2)] Cons.prems(2) obtain t where "rfold f xs v = Inr t" "P t"
    by (metis list.set_intros(2))
  with v show ?case by simp
qed

lemma rfold_upt_Suc: "rfold f [0..<Suc n] s = rbind (rfold f [0..<n] s) (f n)"
proof -
  have "rfold f [n] = f n"
  proof
    fix u
    show "rfold f [n] u = f n u" by (cases "f n u") auto
  qed
  then show ?thesis by (simp add: rfold_append)
qed

lemma rall_True: "rall p xs = Inr True \<longleftrightarrow> (\<forall>x \<in> set xs. p x = Inr True)"
  by (induction xs) (auto split: if_splits)

lemma rall_pure: "(\<And>x. x \<in> set xs \<Longrightarrow> p x = Inr (q x)) \<Longrightarrow> rall p xs = Inr (\<forall>x \<in> set xs. q x)"
  by (induction xs) auto

section \<open>Signed 64-bit integers\<close>

text \<open>
  An \<^verbatim>\<open>int64_t\<close> is an \<open>int\<close> in the range of \<open>i64\<close>; an addition that leaves the range is signed
  overflow, an error.
\<close>

definition INT64_MAX :: int where
  "INT64_MAX = 9223372036854775807"

definition INT64_MIN :: int where
  "INT64_MIN = - 9223372036854775808"

definition i64 :: "int \<Rightarrow> bool" where
  "i64 x \<longleftrightarrow> INT64_MIN \<le> x \<and> x \<le> INT64_MAX"

definition i64_check :: "int \<Rightarrow> int res" where
  "i64_check x = (if i64 x then Inr x else Inl SignedOverflow)"

definition i64_add :: "int \<Rightarrow> int \<Rightarrow> int res" where
  "i64_add a b = i64_check (a + b)"

definition i64_mul :: "int \<Rightarrow> int \<Rightarrow> int res" where
  "i64_mul a b = i64_check (a * b)"

lemma i64_check_eq_Inr [simp]: "i64_check x = Inr y \<longleftrightarrow> y = x \<and> i64 x"
  by (auto simp: i64_check_def)

lemma i64_add_eq_Inr [simp]: "i64_add a b = Inr c \<longleftrightarrow> c = a + b \<and> i64 (a + b)"
  by (simp add: i64_add_def)

lemma i64_mul_eq_Inr [simp]: "i64_mul a b = Inr c \<longleftrightarrow> c = a * b \<and> i64 (a * b)"
  by (simp add: i64_mul_def)

lemma i64_max [simp, intro]: "i64 a \<Longrightarrow> i64 b \<Longrightarrow> i64 (max a b)"
  by (simp add: max_def)

lemmas i64_defs = i64_def INT64_MAX_def INT64_MIN_def

section \<open>Lists\<close>

lemma list_update_take_nth:
  "i < n \<Longrightarrow> n \<le> length xs \<Longrightarrow> take n (xs[i := x]) = (take n xs)[i := x]"
  by (simp add: take_update_swap)

lemma take_Suc_update: "n < length xs \<Longrightarrow> take (Suc n) (xs[n := x]) = take n xs @ [x]"
  by (simp add: take_Suc_conv_app_nth)

lemma nth_update: "xs[i := x] ! j = (if i = j \<and> i < length xs then x else xs ! j)"
  by (cases "i < length xs") (auto simp: nth_list_update list_update_beyond)

end
