(* ===== verification/Config.thy ===== *)
theory Config
  imports Prelude
begin

text \<open>
  The constants of \<^verbatim>\<open>include/utility/configuration.h\<close> that the code reads, and the names shared by
  every component (\<^verbatim>\<open>include/utility/types.h\<close>).
\<close>

type_synonym table_name = string

definition INT64_T_LENGTH :: nat where "INT64_T_LENGTH = 8"
definition INT_LENGTH :: nat where "INT_LENGTH = 4"
definition BOOL_LENGTH :: nat where "BOOL_LENGTH = 1"
definition ENABLE_LOG :: bool where "ENABLE_LOG = False"
definition TIME_PROVIDER_INTERVAL :: int where "TIME_PROVIDER_INTERVAL = 1000"
definition TXN_EXPIRE_INTERVAL :: nat where "TXN_EXPIRE_INTERVAL = 10000000"

lemmas length_constants [simp] = INT64_T_LENGTH_def INT_LENGTH_def BOOL_LENGTH_def

end
