(* ===== verification/Bytes.thy ===== *)
theory Bytes
  imports Config
begin

text \<open>
  Memory as the serialisers see it: a buffer is a list of bytes and a \<^verbatim>\<open>size_t\<close> offset into it.
  A write or read past the end of the buffer is undefined behaviour, here the error \<open>OutOfRange\<close>.
  Integers are stored little-endian in two's complement, as \<^verbatim>\<open>memcpy\<close> of an \<^verbatim>\<open>int\<close> or \<^verbatim>\<open>int64_t\<close> leaves
  them on the x86 targets of the build.  The locale \<open>codec\<close> is the contract of
  \<^verbatim>\<open>Serialize_Length\<close> / \<^verbatim>\<open>SerializeToBuffer\<close> / \<^verbatim>\<open>DeserializeFromBuffer\<close>; every serialisable class
  interprets it.
\<close>

type_synonym byte = "8 word"

section \<open>Integers and characters as bytes\<close>

fun le_bytes :: "nat \<Rightarrow> int \<Rightarrow> byte list" where
  "le_bytes 0 x = []"
| "le_bytes (Suc n) x = word_of_int x # le_bytes n (x div 256)"

fun of_le :: "byte list \<Rightarrow> int" where
  "of_le [] = 0"
| "of_le (b # bs) = uint b + 256 * of_le bs"

definition int_of_le :: "byte list \<Rightarrow> int" where
  "int_of_le bs = signed_take_bit (8 * length bs - 1) (of_le bs)"

lemma length_le_bytes [simp]: "length (le_bytes n x) = n"
  by (induction n arbitrary: x) auto

lemma of_le_bytes: "of_le (le_bytes n x) = x mod 256 ^ n"
proof (induction n arbitrary: x)
  case (Suc n)
  have "x mod 256 ^ Suc n = x mod 256 + 256 * (x div 256 mod 256 ^ n)"
    by (simp add: mod_mult2_eq' zmod_zmult2_eq)
  moreover have "uint (word_of_int x :: byte) = x mod 256"
    by (simp add: uint_word_of_int)
  ultimately show ?case by (simp add: Suc)
qed simp

lemma int_of_le_bytes:
  assumes "0 < n" and "- (2 ^ (8 * n - 1)) \<le> x" and "x < 2 ^ (8 * n - 1)"
  shows "int_of_le (le_bytes n x) = x"
proof -
  have pow: "(256::int) ^ n = 2 ^ (8 * n)" by (simp add: power_mult)
  have "signed_take_bit (8 * n - 1) (x mod 2 ^ (8 * n)) = signed_take_bit (8 * n - 1) x"
    using assms(1) by (auto simp: signed_take_bit_take_bit simp flip: take_bit_eq_mod)
  also have "\<dots> = x" using assms by (simp add: signed_take_bit_int_eq_self)
  finally show ?thesis by (simp add: int_of_le_def of_le_bytes pow)
qed

definition byte_of_char :: "char \<Rightarrow> byte" where
  "byte_of_char c = word_of_nat (of_char c)"

definition char_of_byte :: "byte \<Rightarrow> char" where
  "char_of_byte b = char_of (unat b)"

lemma char_of_byte_of_char [simp]: "char_of_byte (byte_of_char c) = c"
  by (simp add: char_of_byte_def byte_of_char_def unat_of_nat char_of_mod_256)

lemma map_char_of_byte [simp]: "map char_of_byte (map byte_of_char s) = s"
  by (induction s) auto

definition bool_byte :: "bool \<Rightarrow> byte" where
  "bool_byte b = (if b then 1 else 0)"

section \<open>Size conversions\<close>

text \<open>
  \<^verbatim>\<open>int k_size = k.size()\<close> truncates a \<^verbatim>\<open>size_t\<close> to 32 bits; passing an \<^verbatim>\<open>int\<close> where a \<^verbatim>\<open>size_t\<close> is
  expected, and \<^verbatim>\<open>offset += k_size\<close>, convert modulo \<open>2 ^ 64\<close>.
\<close>

definition int_of_size :: "nat \<Rightarrow> int" where
  "int_of_size n = signed_take_bit 31 (int n)"

definition size_of_int :: "int \<Rightarrow> nat" where
  "size_of_int i = nat (i mod 2 ^ 64)"

definition size_add :: "nat \<Rightarrow> int \<Rightarrow> nat" where
  "size_add off d = nat ((int off + d) mod 2 ^ 64)"

lemma int_of_size_small [simp]: "n < 2 ^ 31 \<Longrightarrow> int_of_size n = int n"
  by (simp add: int_of_size_def signed_take_bit_int_eq_self)

lemma size_of_int_small [simp]: "n < 2 ^ 64 \<Longrightarrow> size_of_int (int n) = n"
  by (simp add: size_of_int_def)

lemma size_add_small: "off + n < 2 ^ 64 \<Longrightarrow> size_add off (int n) = off + n"
  by (simp add: size_add_def flip: of_nat_add)

section \<open>Buffers\<close>

definition put_at :: "byte list \<Rightarrow> nat \<Rightarrow> byte list \<Rightarrow> byte list res" where
  "put_at buf off bs =
     (if off + length bs \<le> length buf
      then Inr (take off buf @ bs @ drop (off + length bs) buf) else Inl OutOfRange)"

definition get_at :: "byte list \<Rightarrow> nat \<Rightarrow> nat \<Rightarrow> byte list res" where
  "get_at buf off n =
     (if off + n \<le> length buf then Inr (take n (drop off buf)) else Inl OutOfRange)"

lemma length_put_at: "put_at buf off bs = Inr buf' \<Longrightarrow> length buf' = length buf"
  by (auto simp: put_at_def split: if_splits)

lemma put_at_fits:
  "off + length bs \<le> length buf \<Longrightarrow>
   put_at buf off bs = Inr (take off buf @ bs @ drop (off + length bs) buf)"
  by (simp add: put_at_def)

lemma put_at_twice:
  assumes "off + length xs + length ys \<le> length buf"
  shows "rbind (put_at buf off xs) (\<lambda>b. put_at b (off + length xs) ys) = put_at buf off (xs @ ys)"
  using assms by (simp add: put_at_def ac_simps)

lemma get_at_middle [simp]: "get_at (pre @ bs @ post) (length pre) (length bs) = Inr bs"
  by (simp add: get_at_def)

lemma get_at_middle': "off = length pre \<Longrightarrow> n = length bs \<Longrightarrow> get_at (pre @ bs @ post) off n = Inr bs"
  by simp

section \<open>The serialisation contract\<close>

fun ser_all :: "('a \<Rightarrow> byte list \<Rightarrow> nat \<Rightarrow> (byte list \<times> nat) res) \<Rightarrow> 'a list \<Rightarrow>
    byte list \<Rightarrow> nat \<Rightarrow> (byte list \<times> nat) res" where
  "ser_all ser [] buf off = Inr (buf, off)"
| "ser_all ser (x # xs) buf off = rbind (ser x buf off) (\<lambda>(b, o'). ser_all ser xs b o')"

fun de_all :: "(byte list \<Rightarrow> nat \<Rightarrow> ('a \<times> nat) res) \<Rightarrow> nat \<Rightarrow> byte list \<Rightarrow> nat \<Rightarrow>
    ('a list \<times> nat) res" where
  "de_all de 0 buf off = Inr ([], off)"
| "de_all de (Suc n) buf off =
     rbind (de buf off) (\<lambda>(x, o'). rbind (de_all de n buf o') (\<lambda>(xs, o''). Inr (x # xs, o'')))"

text \<open>
  \<open>encoder\<close> is the writing half: the bytes of a value depend on the value alone, their number is what
  \<^verbatim>\<open>Serialize_Length\<close> announces, and the rest of the buffer is untouched.  \<open>codec\<close> adds the reader.
\<close>

locale encoder =
  fixes ser :: "'a \<Rightarrow> byte list \<Rightarrow> nat \<Rightarrow> (byte list \<times> nat) res"
    and enc :: "'a \<Rightarrow> byte list"
    and len :: "'a \<Rightarrow> nat"
    and ok :: "'a \<Rightarrow> bool"
  assumes len_enc: "ok x \<Longrightarrow> length (enc x) = len x"
    and ser_enc: "ok x \<Longrightarrow> off + len x \<le> length buf \<Longrightarrow> length buf < 2 ^ 64 \<Longrightarrow>
      ser x buf off = Inr (take off buf @ enc x @ drop (off + len x) buf, off + len x)"
begin

lemma ser_length:
  assumes "ok x" "off + len x \<le> length buf" "length buf < 2 ^ 64"
  shows "\<exists>buf'. ser x buf off = Inr (buf', off + len x) \<and> length buf' = length buf
    \<and> take off buf' = take off buf \<and> drop (off + len x) buf' = drop (off + len x) buf"
  using assms len_enc [OF assms(1)] by (simp add: ser_enc)

lemma ser_all_enc:
  assumes "\<forall>x \<in> set xs. ok x" "off + sum_list (map len xs) \<le> length buf" "length buf < 2 ^ 64"
  shows "ser_all ser xs buf off =
    Inr (take off buf @ concat (map enc xs) @ drop (off + sum_list (map len xs)) buf,
         off + sum_list (map len xs))"
  using assms
proof (induction xs arbitrary: buf off)
  case (Cons x xs)
  let ?b = "take off buf @ enc x @ drop (off + len x) buf"
  from Cons.prems have x: "ser x buf off = Inr (?b, off + len x)" by (simp add: ser_enc)
  from Cons.prems have l: "length (enc x) = len x" by (simp add: len_enc)
  from Cons.prems l have "length ?b = length buf" by simp
  with Cons.prems l x show ?case by (simp add: Cons.IH add_ac)
qed simp

end

locale codec = encoder ser enc len ok
  for ser :: "'a \<Rightarrow> byte list \<Rightarrow> nat \<Rightarrow> (byte list \<times> nat) res" and enc len ok +
  fixes de :: "byte list \<Rightarrow> nat \<Rightarrow> ('a \<times> nat) res"
  assumes de_enc: "ok x \<Longrightarrow> length pre + len x + length post < 2 ^ 64 \<Longrightarrow>
      de (pre @ enc x @ post) (length pre) = Inr (x, length pre + len x)"
begin

lemma roundtrip:
  assumes "ok x" "off + len x \<le> length buf" "length buf < 2 ^ 64"
  shows "rbind (ser x buf off) (\<lambda>(b, _). de b off) = Inr (x, off + len x)"
  using assms de_enc [of x "take off buf" "drop (off + len x) buf"] by (simp add: ser_enc)

lemma de_all_enc:
  assumes "\<forall>x \<in> set xs. ok x"
    and "length pre + sum_list (map len xs) + length post < 2 ^ 64"
  shows "de_all de (length xs) (pre @ concat (map enc xs) @ post) (length pre) =
    Inr (xs, length pre + sum_list (map len xs))"
  using assms
proof (induction xs arbitrary: pre)
  case (Cons x xs)
  have l: "length (enc y) = len y" if "y \<in> set (x # xs)" for y
    using Cons.prems(1) that by (auto simp: len_enc)
  then have c: "length (concat (map enc xs)) = sum_list (map len xs)"
    by (simp add: length_concat o_def cong: map_cong)
  have "de (pre @ enc x @ concat (map enc xs) @ post) (length pre) =
      Inr (x, length pre + len x)"
    using de_enc [of x pre "concat (map enc xs) @ post"] Cons.prems c by simp
  moreover have "de_all de (length xs) ((pre @ enc x) @ concat (map enc xs) @ post) (length (pre @ enc x)) =
      Inr (xs, length (pre @ enc x) + sum_list (map len xs))"
    using Cons.prems l by (intro Cons.IH) auto
  ultimately show ?case using l by (simp add: add_ac)
qed simp

lemma batch_roundtrip:
  assumes "\<forall>x \<in> set xs. ok x" "off + sum_list (map len xs) \<le> length buf" "length buf < 2 ^ 64"
  shows "rbind (ser_all ser xs buf off) (\<lambda>(b, _). de_all de (length xs) b off) =
    Inr (xs, off + sum_list (map len xs))"
  using assms de_all_enc [of xs "take off buf" "drop (off + sum_list (map len xs)) buf"]
  by (simp add: ser_all_enc)

end

section \<open>Strings\<close>

text \<open>
  The idiom by which \<^verbatim>\<open>StringKey\<close>, \<^verbatim>\<open>StringRecord\<close> and \<^verbatim>\<open>SetKey\<close> store a string: its size as an
  \<^verbatim>\<open>int\<close>, then its characters (\<^verbatim>\<open>std::string::copy\<close> writes at most the string's own length), the
  offset advanced by the \<^verbatim>\<open>int\<close>.  \<^verbatim>\<open>assign\<close> with a negative \<^verbatim>\<open>int\<close> asks for more than \<^verbatim>\<open>max_size\<close>
  characters and throws \<^verbatim>\<open>std::length_error\<close>.
\<close>

definition string_put :: "string \<Rightarrow> byte list \<Rightarrow> nat \<Rightarrow> (byte list \<times> nat) res" where
  "string_put s buf off =
     (let k_size = int_of_size (length s);
          off1 = size_add off (int INT_LENGTH)
      in rbind (put_at buf off (le_bytes INT_LENGTH k_size)) (\<lambda>buf1.
         rbind (put_at buf1 off1 (map byte_of_char (take (size_of_int k_size) s))) (\<lambda>buf2.
         Inr (buf2, size_add off1 k_size))))"

definition string_get :: "byte list \<Rightarrow> nat \<Rightarrow> (string \<times> nat) res" where
  "string_get buf off =
     rbind (get_at buf off INT_LENGTH) (\<lambda>bs.
       let data_size = int_of_le bs;
           off1 = size_add off (int INT_LENGTH)
       in if data_size < 0 then Inl LengthError
          else rbind (get_at buf off1 (nat data_size)) (\<lambda>cs.
            Inr (map char_of_byte cs, size_add off1 data_size)))"

definition string_enc :: "string \<Rightarrow> byte list" where
  "string_enc s = le_bytes INT_LENGTH (int (length s)) @ map byte_of_char s"

definition string_fits :: "string \<Rightarrow> bool" where
  "string_fits s \<longleftrightarrow> length s < 2 ^ 31"

lemma length_string_enc [simp]: "length (string_enc s) = length s + 4"
  by (simp add: string_enc_def)

lemma string_put_enc:
  assumes "string_fits s" and "off + (length s + 4) \<le> length buf" and "length buf < 2 ^ 64"
  shows "string_put s buf off =
    Inr (take off buf @ string_enc s @ drop (off + (length s + 4)) buf, off + (length s + 4))"
proof -
  let ?h = "le_bytes 4 (int (length s))" and ?t = "map byte_of_char s"
  have off1: "size_add off 4 = off + 4"
    using assms size_add_small [of off 4] by simp
  have off2: "size_add (off + 4) (int (length s)) = off + (length s + 4)"
    using assms size_add_small [of "off + 4" "length s"] by simp
  have "rbind (put_at buf off ?h) (\<lambda>b. put_at b (off + 4) ?t) = put_at buf off (?h @ ?t)"
    using put_at_twice [of off ?h ?t buf] assms(2) by simp
  also have "\<dots> = Inr (take off buf @ string_enc s @ drop (off + (length s + 4)) buf)"
    using assms(2) by (simp add: put_at_def string_enc_def ac_simps)
  finally show ?thesis
    using assms(1) off1 off2 by (auto simp: string_put_def string_fits_def Let_def rbind_def split: sum.splits)
qed

lemma string_get_enc:
  assumes "string_fits s" and "length pre + (length s + 4) + length post < 2 ^ 64"
  shows "string_get (pre @ string_enc s @ post) (length pre) = Inr (s, length pre + (length s + 4))"
proof -
  let ?h = "le_bytes 4 (int (length s))" and ?t = "map byte_of_char s"
  have off1: "size_add (length pre) 4 = length pre + 4"
    using assms size_add_small [of "length pre" 4] by simp
  have off2: "size_add (length pre + 4) (int (length s)) = length pre + (length s + 4)"
    using assms size_add_small [of "length pre + 4" "length s"] by simp
  have h: "get_at (pre @ ?h @ ?t @ post) (length pre) 4 = Inr ?h"
    by (rule get_at_middle') auto
  have t: "get_at ((pre @ ?h) @ ?t @ post) (length pre + 4) (length s) = Inr ?t"
    by (rule get_at_middle') auto
  have n: "int_of_le ?h = int (length s)"
    using assms(1) by (intro int_of_le_bytes) (auto simp: string_fits_def)
  show ?thesis
    using h t n off1 off2 by (simp add: string_get_def string_enc_def Let_def comp_def)
qed

end
