(* ===== verification/Records.thy ===== *)
theory Records
  imports Bytes
begin

text \<open>
  Records (\<^verbatim>\<open>include/versiondb/record.h\<close>): the two record classes and the methods of \<^verbatim>\<open>Record\<close>, and the
  store of record objects.  Requests, results, version entries and write-set entries hold \<^verbatim>\<open>Record *\<close>
  pointers to the same objects, so a pointer is an address option (\<open>None\<close> is \<^verbatim>\<open>nullptr\<close>) and the
  objects live in a map from addresses.
\<close>

datatype rec_val = StringRecord string | IntRecord int

type_synonym addr = nat
type_synonym rec_ptr = "addr option"
type_synonym rec_heap = "addr \<rightharpoonup> rec_val"

text \<open>The methods of \<^verbatim>\<open>IntRecord\<close> that are not the second equations below.\<close>

definition int_record_copy :: "int \<Rightarrow> rec_val" where
  [simp]: "int_record_copy data = IntRecord data"

definition int_record_copy_from :: "int \<Rightarrow> int \<Rightarrow> (rec_val \<times> bool) res" where
  [simp]: "int_record_copy_from data that = Inr (IntRecord that, True)"

definition int_record_serialize_length :: "int \<Rightarrow> nat" where
  [simp]: "int_record_serialize_length data = INT64_T_LENGTH"

fun record_copy :: "rec_val \<Rightarrow> rec_val" where
  "record_copy (StringRecord data) = StringRecord data"
| "record_copy (IntRecord data) = int_record_copy data"

fun record_copy_from :: "rec_val \<Rightarrow> rec_val \<Rightarrow> (rec_val \<times> bool) res" where
  "record_copy_from (StringRecord data) (StringRecord that) = Inr (StringRecord that, True)"
| "record_copy_from (IntRecord data) (IntRecord that) = int_record_copy_from data that"
| "record_copy_from _ _ = Inl BadCast"

fun record_serialize_length :: "rec_val \<Rightarrow> nat" where
  "record_serialize_length (StringRecord data) = length data + INT_LENGTH"
| "record_serialize_length (IntRecord data) = int_record_serialize_length data"

fun record_serialize :: "rec_val \<Rightarrow> byte list \<Rightarrow> nat \<Rightarrow> (byte list \<times> nat) res" where
  "record_serialize (StringRecord data) buf off = string_put data buf off"
| "record_serialize (IntRecord data) buf off =
     rbind (put_at buf off (le_bytes INT64_T_LENGTH data))
       (\<lambda>b. Inr (b, size_add off (int INT64_T_LENGTH)))"

fun record_deserialize :: "rec_val \<Rightarrow> byte list \<Rightarrow> nat \<Rightarrow> (rec_val \<times> nat) res" where
  "record_deserialize (StringRecord data) buf off =
     rbind (string_get buf off) (\<lambda>(s, off'). Inr (StringRecord s, off'))"
| "record_deserialize (IntRecord data) buf off =
     rbind (get_at buf off INT64_T_LENGTH)
       (\<lambda>bs. Inr (IntRecord (int_of_le bs), size_add off (int INT64_T_LENGTH)))"

text \<open>A method call through a pointer: the object at the address, or a null or dangling access.\<close>

definition rec_at :: "rec_heap \<Rightarrow> rec_ptr \<Rightarrow> rec_val res" where
  "rec_at h p = rbind (deref p) (\<lambda>a. deref (h a))"

definition copy_from_ptr :: "rec_heap \<Rightarrow> addr \<Rightarrow> rec_ptr \<Rightarrow> rec_heap res" where
  "copy_from_ptr h dst src =
     rbind (rec_at h (Some dst)) (\<lambda>d.
     rbind (rec_at h src) (\<lambda>s.
     rbind (record_copy_from d s) (\<lambda>(d', _).
     Inr (h(dst \<mapsto> d')))))"

section \<open>Copying\<close>

fun same_rec_class :: "rec_val \<Rightarrow> rec_val \<Rightarrow> bool" where
  "same_rec_class (StringRecord _) (StringRecord _) = True"
| "same_rec_class (IntRecord _) (IntRecord _) = True"
| "same_rec_class _ _ = False"

lemma record_copy_id [simp]: "record_copy r = r"
  by (cases r) auto

lemma record_copy_from_same: "same_rec_class a b \<Longrightarrow> record_copy_from a b = Inr (b, True)"
  by (cases a; cases b) auto

lemma record_copy_from_Inr:
  "record_copy_from a b = Inr (c, ok) \<Longrightarrow> c = b \<and> ok \<and> same_rec_class a b"
  by (cases a; cases b) auto

lemma copy_from_ptr_Inr:
  assumes "copy_from_ptr h dst src = Inr h'"
  shows "\<exists>a. src = Some a \<and> h' = h(dst := h a) \<and> h a \<noteq> None"
  using assms by (auto simp: copy_from_ptr_def rec_at_def dest!: record_copy_from_Inr)

section \<open>Serialisation\<close>

fun record_enc :: "rec_val \<Rightarrow> byte list" where
  "record_enc (StringRecord data) = string_enc data"
| "record_enc (IntRecord data) = le_bytes INT64_T_LENGTH data"

fun record_fits :: "rec_val \<Rightarrow> bool" where
  "record_fits (StringRecord data) \<longleftrightarrow> string_fits data"
| "record_fits (IntRecord data) \<longleftrightarrow> i64 data"

definition record_like :: "rec_val \<Rightarrow> rec_val \<Rightarrow> bool" where
  "record_like r x \<longleftrightarrow> same_rec_class r x \<and> record_fits x"

interpretation record_encoder: encoder record_serialize record_enc record_serialize_length record_fits
proof unfold_locales
  fix x :: rec_val and off :: nat and buf :: "byte list"
  assume "record_fits x" "off + record_serialize_length x \<le> length buf" "length buf < 2 ^ 64"
  then show "record_serialize x buf off =
      Inr (take off buf @ record_enc x @ drop (off + record_serialize_length x) buf,
           off + record_serialize_length x)"
    using size_add_small [of off 8]
    by (cases x) (auto simp: string_put_enc put_at_def)
qed (auto elim!: record_fits.elims)

interpretation record_codec:
  codec record_serialize record_enc record_serialize_length "record_like r" "record_deserialize r"
  for r
proof unfold_locales
  fix x :: rec_val and pre post :: "byte list"
  assume "record_like r x" "length pre + record_serialize_length x + length post < 2 ^ 64"
  moreover have "i64 d \<Longrightarrow> int_of_le (le_bytes 8 d) = d" for d
    by (rule int_of_le_bytes) (auto simp: i64_defs)
  ultimately show "record_deserialize r (pre @ record_enc x @ post) (length pre) =
      Inr (x, length pre + record_serialize_length x)"
    using size_add_small [of "length pre" 8] string_get_enc
      get_at_middle' [of "length pre" pre 8 "record_enc x" post]
    by (cases x; cases r) (auto simp: record_like_def)
qed (auto simp: record_like_def record_encoder.len_enc record_encoder.ser_enc)

end
