(* ===== verification/Keys.thy ===== *)
theory Keys
  imports Bytes
begin

text \<open>
  Keys (\<^verbatim>\<open>include/versiondb/key.h\<close>): the two key classes and the virtual methods of \<^verbatim>\<open>Key\<close>.  The methods
  cast their argument with \<^verbatim>\<open>static_cast\<close>, which never yields null: on a key of the other class the
  cast is undefined behaviour, so the \<^verbatim>\<open>return false\<close> after it is dead code.
\<close>

datatype key = StringKey string | IntKey int

text \<open>The methods of \<^verbatim>\<open>IntKey\<close>; those of \<^verbatim>\<open>StringKey\<close> are the first equations of the functions below.\<close>

definition int_key_copy :: "int \<Rightarrow> key" where
  [simp]: "int_key_copy k = IntKey k"

definition int_key_copy_from :: "int \<Rightarrow> int \<Rightarrow> (key \<times> bool) res" where
  [simp]: "int_key_copy_from k that = Inr (IntKey that, True)"

definition int_key_eq :: "int \<Rightarrow> int \<Rightarrow> bool res" where
  [simp]: "int_key_eq k rhs = Inr (rhs = k)"

definition int_key_hash :: "(int \<Rightarrow> nat) \<Rightarrow> int \<Rightarrow> nat" where
  [simp]: "int_key_hash hash_int k = hash_int k"

definition int_key_serialize_length :: "int \<Rightarrow> nat" where
  [simp]: "int_key_serialize_length k = INT64_T_LENGTH"

definition int_key_serialize :: "int \<Rightarrow> byte list \<Rightarrow> nat \<Rightarrow> (byte list \<times> nat) res" where
  [simp]: "int_key_serialize k buf off =
     rbind (put_at buf off (le_bytes INT64_T_LENGTH k)) (\<lambda>b. Inr (b, size_add off (int INT64_T_LENGTH)))"

definition int_key_deserialize :: "byte list \<Rightarrow> nat \<Rightarrow> (key \<times> nat) res" where
  [simp]: "int_key_deserialize buf off =
     rbind (get_at buf off INT64_T_LENGTH) (\<lambda>bs. Inr (IntKey (int_of_le bs), size_add off (int INT64_T_LENGTH)))"

text \<open>The virtual methods.\<close>

fun key_copy :: "key \<Rightarrow> key" where
  "key_copy (StringKey k) = StringKey k"
| "key_copy (IntKey k) = int_key_copy k"

fun key_copy_from :: "key \<Rightarrow> key \<Rightarrow> (key \<times> bool) res" where
  "key_copy_from (StringKey k) (StringKey that) = Inr (StringKey that, True)"
| "key_copy_from (IntKey k) (IntKey that) = int_key_copy_from k that"
| "key_copy_from _ _ = Inl BadCast"

fun key_eq :: "key \<Rightarrow> key \<Rightarrow> bool res" where
  "key_eq (StringKey k) (StringKey rhs) = Inr (rhs = k)"
| "key_eq (IntKey k) (IntKey rhs) = int_key_eq k rhs"
| "key_eq _ _ = Inl BadCast"

fun key_hash :: "(string \<Rightarrow> nat) \<Rightarrow> (int \<Rightarrow> nat) \<Rightarrow> key \<Rightarrow> nat" where
  "key_hash hash_string hash_int (StringKey k) = hash_string k"
| "key_hash hash_string hash_int (IntKey k) = int_key_hash hash_int k"

fun key_serialize_length :: "key \<Rightarrow> nat" where
  "key_serialize_length (StringKey k) = length k + INT_LENGTH"
| "key_serialize_length (IntKey k) = int_key_serialize_length k"

fun key_serialize :: "key \<Rightarrow> byte list \<Rightarrow> nat \<Rightarrow> (byte list \<times> nat) res" where
  "key_serialize (StringKey k) buf off = string_put k buf off"
| "key_serialize (IntKey k) buf off = int_key_serialize k buf off"

fun key_deserialize :: "key \<Rightarrow> byte list \<Rightarrow> nat \<Rightarrow> (key \<times> nat) res" where
  "key_deserialize (StringKey k) buf off =
     rbind (string_get buf off) (\<lambda>(s, off'). Inr (StringKey s, off'))"
| "key_deserialize (IntKey k) buf off = int_key_deserialize buf off"

section \<open>Comparison, copying, hashing\<close>

fun same_class :: "key \<Rightarrow> key \<Rightarrow> bool" where
  "same_class (StringKey _) (StringKey _) = True"
| "same_class (IntKey _) (IntKey _) = True"
| "same_class _ _ = False"

lemma key_eq_same_class: "same_class a b \<Longrightarrow> key_eq a b = Inr (a = b)"
  by (cases a; cases b) auto

lemma key_eq_Inr: "key_eq a b = Inr c \<Longrightarrow> c = (a = b) \<and> same_class a b"
  by (cases a; cases b) auto

lemma key_eq_refl [simp]: "key_eq k k = Inr True"
  by (cases k) auto

lemma key_copy_id [simp]: "key_copy k = k"
  by (cases k) auto

lemma same_class_refl [simp]: "same_class k k"
  by (cases k) auto

lemma key_eq_total: "(\<exists>c. key_eq a b = Inr c) \<longleftrightarrow> same_class a b"
  by (cases a; cases b) auto

section \<open>Serialisation\<close>

fun key_enc :: "key \<Rightarrow> byte list" where
  "key_enc (StringKey k) = string_enc k"
| "key_enc (IntKey k) = le_bytes INT64_T_LENGTH k"

fun key_fits :: "key \<Rightarrow> bool" where
  "key_fits (StringKey k) \<longleftrightarrow> string_fits k"
| "key_fits (IntKey k) \<longleftrightarrow> i64 k"

lemma i64_roundtrip: "i64 x \<Longrightarrow> int_of_le (le_bytes 8 x) = x"
  by (rule int_of_le_bytes) (auto simp: i64_defs)

interpretation key_encoder: encoder key_serialize key_enc key_serialize_length key_fits
proof unfold_locales
  fix x :: key and off :: nat and buf :: "byte list"
  assume "key_fits x" "off + key_serialize_length x \<le> length buf" "length buf < 2 ^ 64"
  then show "key_serialize x buf off =
      Inr (take off buf @ key_enc x @ drop (off + key_serialize_length x) buf,
           off + key_serialize_length x)"
    using size_add_small [of off 8]
    by (cases x) (auto simp: string_put_enc put_at_def)
qed (auto elim!: key_fits.elims)

text \<open>
  Reading back needs an object of the right class to read into; \<open>key_like k\<close> is the values such an
  object can hold.
\<close>

definition key_like :: "key \<Rightarrow> key \<Rightarrow> bool" where
  "key_like k x \<longleftrightarrow> same_class k x \<and> key_fits x"

lemma key_codec: "codec key_serialize key_enc key_serialize_length (key_like k) (key_deserialize k)"
proof unfold_locales
  fix x :: key and pre post :: "byte list"
  assume "key_like k x" "length pre + key_serialize_length x + length post < 2 ^ 64"
  then show "key_deserialize k (pre @ key_enc x @ post) (length pre) =
      Inr (x, length pre + key_serialize_length x)"
    using size_add_small [of "length pre" 8] string_get_enc get_at_middle' [of "length pre" pre 8 "key_enc x" post]
    by (cases x; cases k) (auto simp: key_like_def i64_roundtrip)
qed (auto simp: key_like_def key_encoder.len_enc key_encoder.ser_enc)

interpretation key_codec: codec key_serialize key_enc key_serialize_length "key_like k" "key_deserialize k"
  for k
  by (rule key_codec)

end
