(* ===== verification/Versions.thy ===== *)
theory Versions
  imports Records Keys
begin

text \<open>
  The entries of the version store and of a transaction's read and write sets:
  \<^verbatim>\<open>include/versiondb/version-entry.h\<close>, \<^verbatim>\<open>read-set-entry.h\<close>, \<^verbatim>\<open>write-set-entry.h\<close>, \<^verbatim>\<open>tx-entry.h\<close> and
  \<^verbatim>\<open>request/handler-result.h\<close>.  \<^verbatim>\<open>EntryExtension\<close> is an interface with no implementation in the repository:
  an extension is its owning pointer (an address, \<open>None\<close> for null), and moving it out leaves null.
  \<^verbatim>\<open>pool_\<close> owns its record, so it is the record's value.
\<close>

type_synonym ext_ptr = "addr option"

section \<open>Version entries\<close>

definition kDefaultBeginTs :: int where "kDefaultBeginTs = - 1"
definition kDefaultEndTs :: int where "kDefaultEndTs = - 1"
definition kDefaultMaxTs :: int where "kDefaultMaxTs = 0"
definition kUnSetCommitTs :: int where "kUnSetCommitTs = - 2"
definition kMaxTimeStamp :: int where "kMaxTimeStamp = INT64_MAX"
definition kDefaultVersion :: int where "kDefaultVersion = - 1"
definition kFirstVersion :: int where "kFirstVersion = 0"
definition kEmptyTxId :: int where "kEmptyTxId = - 1"
definition kMaxVersionKeyStartIndex :: int where "kMaxVersionKeyStartIndex = - 1"

lemmas version_constants =
  kDefaultBeginTs_def kDefaultEndTs_def kDefaultMaxTs_def kUnSetCommitTs_def kMaxTimeStamp_def
  kDefaultVersion_def kFirstVersion_def kEmptyTxId_def kMaxVersionKeyStartIndex_def

record version_entry =
  ve_version :: int
  ve_tx_id :: int
  ve_begin_ts :: int
  ve_end_ts :: int
  ve_max_commit_ts :: int
  ve_is_deleted :: bool
  ve_read_record :: rec_ptr
  ve_write_record :: rec_ptr
  ve_pool :: "rec_val option"
  ve_extension :: ext_ptr

definition new_version_entry :: version_entry where
  "new_version_entry =
     \<lparr>ve_version = kDefaultVersion, ve_tx_id = kEmptyTxId, ve_begin_ts = kDefaultBeginTs,
      ve_end_ts = kDefaultEndTs, ve_max_commit_ts = - 1, ve_is_deleted = True,
      ve_read_record = None, ve_write_record = None, ve_pool = None, ve_extension = None\<rparr>"

definition version_less :: "version_entry \<Rightarrow> version_entry \<Rightarrow> bool" where
  "version_less a b = (if ve_version a < ve_version b then True else False)"

definition version_reset :: "rec_ptr \<Rightarrow> ext_ptr \<Rightarrow> version_entry \<Rightarrow> version_entry" where
  "version_reset rec ext v = v
     \<lparr>ve_version := kDefaultVersion, ve_tx_id := kEmptyTxId, ve_begin_ts := kDefaultBeginTs,
      ve_end_ts := kDefaultEndTs, ve_max_commit_ts := - 1, ve_is_deleted := True,
      ve_read_record := rec, ve_write_record := None, ve_extension := ext\<rparr>"

definition version_reset_to ::
    "int \<Rightarrow> int \<Rightarrow> int \<Rightarrow> int \<Rightarrow> int \<Rightarrow> bool \<Rightarrow> rec_ptr \<Rightarrow> rec_ptr \<Rightarrow> ext_ptr \<Rightarrow>
     version_entry \<Rightarrow> version_entry" where
  "version_reset_to version tx_id begin_ts end_ts max_commit_ts is_deleted read_rec write_rec ext v = v
     \<lparr>ve_version := version, ve_tx_id := tx_id, ve_begin_ts := begin_ts, ve_end_ts := end_ts,
      ve_max_commit_ts := max_commit_ts, ve_is_deleted := is_deleted,
      ve_read_record := read_rec, ve_write_record := write_rec, ve_extension := ext\<rparr>"

text \<open>
  The copy constructor copies the record behind \<^verbatim>\<open>write_record_\<close> into \<^verbatim>\<open>pool_\<close> and the extension into
  a new object, whose address is the argument; assignment takes everything but \<^verbatim>\<open>pool_\<close>.
\<close>

definition version_copy :: "rec_heap \<Rightarrow> addr \<Rightarrow> version_entry \<Rightarrow> version_entry res" where
  "version_copy h fresh other =
     rbind (case ve_write_record other of None \<Rightarrow> Inr None
            | Some a \<Rightarrow> rbind (rec_at h (Some a)) (\<lambda>r. Inr (Some (record_copy r)))) (\<lambda>pool.
     Inr (other\<lparr>ve_pool := pool, ve_extension := map_option (\<lambda>_. fresh) (ve_extension other)\<rparr>))"

definition version_assign :: "version_entry \<Rightarrow> version_entry \<Rightarrow> version_entry" where
  "version_assign this other = other\<lparr>ve_pool := ve_pool this\<rparr>"

section \<open>Read-set entries\<close>

record read_set_entry =
  rs_version :: int
  rs_tx_id :: int
  rs_begin_ts :: int
  rs_end_ts :: int
  rs_is_deleted :: bool
  rs_is_updated :: bool
  rs_record :: rec_ptr
  rs_need_post_processing :: bool
  rs_need_release :: bool
  rs_extension :: ext_ptr

definition new_read_set_entry :: read_set_entry where
  "new_read_set_entry =
     \<lparr>rs_version = kDefaultVersion, rs_tx_id = kEmptyTxId, rs_begin_ts = kDefaultBeginTs,
      rs_end_ts = kDefaultEndTs, rs_is_deleted = True, rs_is_updated = False, rs_record = None,
      rs_need_post_processing = False, rs_need_release = True, rs_extension = None\<rparr>"

text \<open>\<^verbatim>\<open>Reset\<close> with its default arguments: no post processing, release needed, not updated.\<close>

definition read_entry_reset ::
    "int \<Rightarrow> int \<Rightarrow> int \<Rightarrow> int \<Rightarrow> bool \<Rightarrow> rec_ptr \<Rightarrow> ext_ptr \<Rightarrow> read_set_entry \<Rightarrow> read_set_entry" where
  "read_entry_reset version tx_id begin_ts end_ts is_deleted rec ext e = e
     \<lparr>rs_version := version, rs_tx_id := tx_id, rs_begin_ts := begin_ts, rs_end_ts := end_ts,
      rs_is_deleted := is_deleted, rs_is_updated := False, rs_record := rec, rs_extension := ext,
      rs_need_post_processing := False, rs_need_release := True\<rparr>"

definition read_entry_copy :: "addr \<Rightarrow> read_set_entry \<Rightarrow> read_set_entry" where
  "read_entry_copy fresh e = e\<lparr>rs_extension := map_option (\<lambda>_. fresh) (rs_extension e)\<rparr>"

section \<open>Write-set entries\<close>

text \<open>\<^verbatim>\<open>ReadSetEntry *read_entry_\<close> points into the read-set pool: it is the index of its slot.\<close>

record write_set_entry =
  ws_version :: int
  ws_is_deleted :: bool
  ws_record :: rec_ptr
  ws_read_entry :: "nat option"
  ws_need_post_processing :: bool
  ws_extension :: ext_ptr

definition new_write_set_entry :: write_set_entry where
  "new_write_set_entry =
     \<lparr>ws_version = kDefaultVersion, ws_is_deleted = True, ws_record = None, ws_read_entry = None,
      ws_need_post_processing = False, ws_extension = None\<rparr>"

definition write_entry_reset ::
    "int \<Rightarrow> bool \<Rightarrow> rec_ptr \<Rightarrow> nat option \<Rightarrow> bool \<Rightarrow> write_set_entry \<Rightarrow> write_set_entry" where
  "write_entry_reset version is_deleted rec read_entry need_post_processing e = e
     \<lparr>ws_version := version, ws_is_deleted := is_deleted, ws_record := rec,
      ws_read_entry := read_entry, ws_need_post_processing := need_post_processing\<rparr>"

definition write_entry_copy :: "addr \<Rightarrow> write_set_entry \<Rightarrow> write_set_entry" where
  "write_entry_copy fresh e = e\<lparr>ws_extension := map_option (\<lambda>_. fresh) (ws_extension e)\<rparr>"

definition write_entry_serialize_length :: "rec_heap \<Rightarrow> write_set_entry \<Rightarrow> nat res" where
  "write_entry_serialize_length h e =
     rbind (rec_at h (ws_record e)) (\<lambda>r.
     Inr (INT_LENGTH + BOOL_LENGTH + record_serialize_length r))"

definition write_entry_serialize ::
    "rec_heap \<Rightarrow> write_set_entry \<Rightarrow> byte list \<Rightarrow> nat \<Rightarrow> (byte list \<times> nat) res" where
  "write_entry_serialize h e buf off =
     rbind (put_at buf off (le_bytes INT64_T_LENGTH (ws_version e))) (\<lambda>b1.
     let off1 = size_add off (int INT64_T_LENGTH) in
     rbind (put_at b1 off1 [bool_byte (ws_is_deleted e)]) (\<lambda>b2.
     let off2 = size_add off1 (int BOOL_LENGTH) in
     rbind (rec_at h (ws_record e)) (\<lambda>r.
     record_serialize r b2 off2)))"

section \<open>Transaction entries\<close>

datatype txn_status = Ongoing | Committed | WaitForAborting | Aborting | Aborted

record txn_entry =
  te_tx_id :: int
  te_status :: txn_status
  te_commit_ts :: int
  te_commit_lower_bound :: int
  te_extension :: ext_ptr

definition kDefaultCommitTs :: int where "kDefaultCommitTs = - 1"

definition new_txn_entry :: txn_entry where
  "new_txn_entry =
     \<lparr>te_tx_id = kEmptyTxId, te_status = Ongoing, te_commit_ts = kDefaultCommitTs,
      te_commit_lower_bound = kDefaultCommitTs, te_extension = None\<rparr>"

definition txn_entry_reset :: "int \<Rightarrow> int \<Rightarrow> txn_entry \<Rightarrow> txn_entry" where
  "txn_entry_reset tx_id lower_bound e = e
     \<lparr>te_tx_id := tx_id, te_status := Ongoing, te_commit_ts := kDefaultCommitTs,
      te_commit_lower_bound := lower_bound\<rparr>"

definition txn_entry_reset_bound :: "int \<Rightarrow> txn_entry \<Rightarrow> txn_entry" where
  "txn_entry_reset_bound lower_bound e = e\<lparr>te_commit_lower_bound := lower_bound\<rparr>"

definition txn_entry_serialize_length :: "txn_entry \<Rightarrow> nat" where
  "txn_entry_serialize_length e = 2 * INT64_T_LENGTH"

definition txn_entry_serialize :: "txn_entry \<Rightarrow> byte list \<Rightarrow> nat \<Rightarrow> (byte list \<times> nat) res" where
  "txn_entry_serialize e buf off =
     rbind (put_at buf off (le_bytes INT64_T_LENGTH (te_tx_id e))) (\<lambda>b1.
     let off1 = size_add off (int INT64_T_LENGTH) in
     rbind (put_at b1 off1 (le_bytes INT64_T_LENGTH (te_commit_ts e))) (\<lambda>b2.
     Inr (b2, size_add off1 (int INT64_T_LENGTH))))"

section \<open>Handler results\<close>

text \<open>
  The object through which a storage request answers.  Its constructor initialises nothing, so a
  result means something only after \<^verbatim>\<open>Reset\<close>.
\<close>

record 'a handler_result =
  hr_result :: 'a
  hr_finished :: bool
  hr_error :: bool
  hr_ref_cnt :: int

definition hr_set_finished :: "'a handler_result \<Rightarrow> 'a handler_result" where
  "hr_set_finished r = r\<lparr>hr_finished := True\<rparr>"

definition hr_set_error :: "'a handler_result \<Rightarrow> 'a handler_result" where
  "hr_set_error r = hr_set_finished (r\<lparr>hr_error := True\<rparr>)"

definition hr_reset :: "'a handler_result \<Rightarrow> 'a handler_result" where
  "hr_reset r = r\<lparr>hr_finished := False, hr_error := False\<rparr>"

lemmas hr_defs = hr_set_finished_def hr_set_error_def hr_reset_def

section \<open>Lemmas\<close>

lemma version_less_irrefl: "\<not> version_less v v"
  by (simp add: version_less_def)

lemma version_less_trans: "version_less a b \<Longrightarrow> version_less b c \<Longrightarrow> version_less a c"
  by (simp add: version_less_def split: if_splits)

lemma version_reset_default:
  "version_reset rec ext v =
   new_version_entry\<lparr>ve_read_record := rec, ve_pool := ve_pool v, ve_extension := ext\<rparr>"
  by (simp add: version_reset_def new_version_entry_def)

definition txn_entry_enc :: "txn_entry \<Rightarrow> byte list" where
  "txn_entry_enc e = le_bytes 8 (te_tx_id e) @ le_bytes 8 (te_commit_ts e)"

interpretation txn_entry_encoder:
  encoder txn_entry_serialize txn_entry_enc txn_entry_serialize_length "\<lambda>_. True"
proof unfold_locales
  fix x :: txn_entry and off :: nat and buf :: "byte list"
  let ?h = "le_bytes 8 (te_tx_id x)" and ?t = "le_bytes 8 (te_commit_ts x)"
  assume a: "off + txn_entry_serialize_length x \<le> length buf" "length buf < 2 ^ 64"
  then have o1: "size_add off 8 = off + 8" and o2: "size_add (off + 8) 8 = off + 16"
    using size_add_small [of off 8] size_add_small [of "off + 8" 8]
    by (auto simp: txn_entry_serialize_length_def)
  have "rbind (put_at buf off ?h) (\<lambda>b. put_at b (off + 8) ?t) = put_at buf off (?h @ ?t)"
    using put_at_twice [of off ?h ?t buf] a by (simp add: txn_entry_serialize_length_def)
  also have "\<dots> = Inr (take off buf @ txn_entry_enc x @ drop (off + 16) buf)"
    using a by (simp add: put_at_def txn_entry_enc_def txn_entry_serialize_length_def)
  finally show "txn_entry_serialize x buf off =
      Inr (take off buf @ txn_entry_enc x @ drop (off + txn_entry_serialize_length x) buf,
           off + txn_entry_serialize_length x)"
    using o1 o2
    by (auto simp: txn_entry_serialize_def txn_entry_serialize_length_def Let_def rbind_def split: sum.splits)
qed (simp add: txn_entry_enc_def txn_entry_serialize_length_def)

text \<open>
  Writing a write-set entry takes four bytes more than its \<^verbatim>\<open>Serialize_Length\<close>, which counts the
  64-bit version as an \<^verbatim>\<open>int\<close>.
\<close>

definition write_entry_enc :: "rec_heap \<Rightarrow> write_set_entry \<Rightarrow> byte list" where
  "write_entry_enc h e =
     le_bytes 8 (ws_version e) @ [bool_byte (ws_is_deleted e)] @
     (case rec_at h (ws_record e) of Inl _ \<Rightarrow> [] | Inr r \<Rightarrow> record_enc r)"

lemma write_entry_serialize_enc:
  assumes r: "rec_at h (ws_record e) = Inr r" "record_fits r"
    and f: "off + (record_serialize_length r + 9) \<le> length buf" "length buf < 2 ^ 64"
  shows "write_entry_serialize h e buf off =
    Inr (take off buf @ write_entry_enc h e @ drop (off + (record_serialize_length r + 9)) buf,
         off + (record_serialize_length r + 9))"
proof -
  let ?h = "le_bytes 8 (ws_version e)" and ?t = "[bool_byte (ws_is_deleted e)]"
  let ?b2 = "take off buf @ (?h @ ?t) @ drop (off + 9) buf"
  have o1: "size_add off 8 = off + 8" and o2: "size_add (off + 8) 1 = off + 9"
    using f size_add_small [of off 8] size_add_small [of "off + 8" 1] by auto
  have p: "rbind (put_at buf off ?h) (\<lambda>b. put_at b (off + 8) ?t) = Inr ?b2"
    using put_at_twice [of off ?h ?t buf] f by (simp add: put_at_def)
  have l: "length ?b2 = length buf" using f by simp
  have "record_serialize r ?b2 (off + 9) =
      Inr (take (off + 9) ?b2 @ record_enc r @ drop (off + 9 + record_serialize_length r) ?b2,
           off + 9 + record_serialize_length r)"
    using l f by (intro record_encoder.ser_enc [OF r(2)]) auto
  with r p o1 o2 f show ?thesis
    by (auto simp: write_entry_serialize_def write_entry_enc_def Let_def add_ac rbind_def split: sum.splits)
qed

end
