(* ===== verification/Local_State.thy ===== *)
theory Local_State
  imports Versions
begin

text \<open>
  A transaction's read set and write set (\<^verbatim>\<open>include/transaction/local-state.h\<close>,
  \<^verbatim>\<open>src/transaction/local-state.cpp\<close>).  Each is a pool: a vector of slots allocated once, of which the
  first \<^verbatim>\<open>pop_index_\<close> are in use.  Slots keep their identity (the vector holds \<^verbatim>\<open>unique_ptr\<close>s), so a
  \<^verbatim>\<open>ReadSetEntry *\<close> is the index of its slot.  A \<^verbatim>\<open>SetKey\<close> points at the table name and key of the
  request that made the entry; requests never change them while the transaction runs, so the pointer
  is the value it points at, \<open>None\<close> for \<^verbatim>\<open>nullptr\<close>.  Slots are reused without being cleared.
\<close>

section \<open>Set keys\<close>

record set_key =
  sk_table :: "table_name option"
  sk_key :: "key option"

definition new_set_key :: set_key where
  "new_set_key = \<lparr>sk_table = None, sk_key = None\<rparr>"

definition set_key_reset :: "table_name \<Rightarrow> key \<Rightarrow> set_key \<Rightarrow> set_key" where
  "set_key_reset table_name_val key_val sk = sk\<lparr>sk_table := Some table_name_val, sk_key := Some key_val\<rparr>"

definition set_key_of :: "table_name \<Rightarrow> key \<Rightarrow> set_key" where
  "set_key_of t k = \<lparr>sk_table = Some t, sk_key = Some k\<rparr>"

definition set_key_assign :: "set_key \<Rightarrow> set_key \<Rightarrow> set_key" where
  "set_key_assign that sk = sk\<lparr>sk_table := sk_table that, sk_key := sk_key that\<rparr>"

definition set_key_copy :: "set_key \<Rightarrow> set_key" where
  "set_key_copy sk = \<lparr>sk_table = sk_table sk, sk_key = sk_key sk\<rparr>"

lemma set_key_copy_id [simp]: "set_key_copy sk = sk" "set_key_assign sk sk' = sk"
  by (simp_all add: set_key_copy_def set_key_assign_def)

definition set_key_eq :: "set_key \<Rightarrow> set_key \<Rightarrow> bool res" where
  "set_key_eq this rhs =
     rbind (deref (sk_key this)) (\<lambda>k.
     rbind (deref (sk_key rhs)) (\<lambda>k'.
     rbind (key_eq k k') (\<lambda>b.
     if b then rbind (deref (sk_table this)) (\<lambda>t. rbind (deref (sk_table rhs)) (\<lambda>t'. Inr (t = t')))
     else Inr False)))"

definition set_key_neq :: "set_key \<Rightarrow> set_key \<Rightarrow> bool res" where
  "set_key_neq this rhs = rbind (set_key_eq this rhs) (\<lambda>b. Inr (\<not> b))"

definition set_key_hash :: "(string \<Rightarrow> nat) \<Rightarrow> (int \<Rightarrow> nat) \<Rightarrow> set_key \<Rightarrow> nat res" where
  "set_key_hash hash_string hash_int sk =
     rbind (deref (sk_key sk)) (\<lambda>k.
     rbind (deref (sk_table sk)) (\<lambda>t.
     Inr ((key_hash hash_string hash_int k * 23 + hash_string t) mod 2 ^ 64)))"

definition set_key_serialize_length :: "set_key \<Rightarrow> nat res" where
  "set_key_serialize_length sk =
     rbind (deref (sk_table sk)) (\<lambda>t.
     rbind (deref (sk_key sk)) (\<lambda>k.
     Inr (length t + INT_LENGTH + key_serialize_length k)))"

definition set_key_serialize :: "set_key \<Rightarrow> byte list \<Rightarrow> nat \<Rightarrow> (byte list \<times> nat) res" where
  "set_key_serialize sk buf off =
     rbind (deref (sk_table sk)) (\<lambda>t.
     rbind (string_put t buf off) (\<lambda>(buf1, off1).
     rbind (deref (sk_key sk)) (\<lambda>k.
     key_serialize k buf1 off1)))"

section \<open>Pools\<close>

record 'e pool =
  pl_entries :: "(set_key \<times> 'e) list"
  pl_capacity :: nat
  pl_pop :: nat

definition new_pool :: "'e \<Rightarrow> nat \<Rightarrow> 'e pool" where
  "new_pool fresh capacity =
     \<lparr>pl_entries = replicate capacity (new_set_key, fresh), pl_capacity = capacity, pl_pop = 0\<rparr>"

definition pool_size :: "'e pool \<Rightarrow> nat" where
  [simp]: "pool_size p = pl_pop p"

text \<open>\<^verbatim>\<open>Resize\<close> grows by one slot; \<^verbatim>\<open>size_t\<close> counters stay far below \<open>2 ^ 64\<close> except for \<^verbatim>\<open>Release\<close>
  on an empty pool, which wraps.\<close>

definition pool_resize :: "'e \<Rightarrow> 'e pool \<Rightarrow> 'e pool" where
  "pool_resize fresh p =
     (let new_capacity = 1 + pl_capacity p
      in p\<lparr>pl_entries := pl_entries p @ replicate (new_capacity - pl_capacity p) (new_set_key, fresh),
           pl_capacity := new_capacity\<rparr>)"

definition pool_reserve :: "'e \<Rightarrow> 'e pool \<Rightarrow> 'e pool" where
  "pool_reserve fresh p = (if pl_pop p = pl_capacity p then pool_resize fresh p else p)"

definition pool_release :: "'e pool \<Rightarrow> 'e pool" where
  "pool_release p = p\<lparr>pl_pop := (if pl_pop p = 0 then 2 ^ 64 - 1 else pl_pop p - 1)\<rparr>"

definition pool_reset :: "'e pool \<Rightarrow> 'e pool" where
  "pool_reset p = p\<lparr>pl_pop := 0\<rparr>"

text \<open>The test of one slot in \<^verbatim>\<open>FindInReadSet\<close> and \<^verbatim>\<open>FindInWriteSet\<close>, assertions first.\<close>

definition slot_matches :: "table_name \<Rightarrow> key \<Rightarrow> set_key \<Rightarrow> bool res" where
  "slot_matches t k sk =
     rbind (rassert (sk_table sk \<noteq> None)) (\<lambda>_.
     rbind (rassert (sk_key sk \<noteq> None)) (\<lambda>_.
     rbind (deref (sk_table sk)) (\<lambda>t'.
     if t = t' then rbind (deref (sk_key sk)) (\<lambda>k'. key_eq k k') else Inr False)))"

text \<open>The search runs from the newest entry down; \<open>pool_find es t k n\<close> searches slots \<open>n - 1\<close> to \<open>0\<close>.\<close>

fun pool_find :: "(set_key \<times> 'e) list \<Rightarrow> table_name \<Rightarrow> key \<Rightarrow> nat \<Rightarrow> nat option res" where
  "pool_find es t k 0 = Inr None"
| "pool_find es t k (Suc i) =
     rbind (vec_at es i) (\<lambda>(sk, e).
     rbind (slot_matches t k sk) (\<lambda>b.
     if b then Inr (Some i) else pool_find es t k i))"

type_synonym read_pool = "read_set_entry pool"
type_synonym write_pool = "write_set_entry pool"

text \<open>The methods of \<^verbatim>\<open>KeyWriteSetEntryPool\<close> that repeat those of \<^verbatim>\<open>KeyReadSetEntryPool\<close>.\<close>

definition new_write_pool :: "nat \<Rightarrow> write_pool" where
  [simp]: "new_write_pool capacity = new_pool new_write_set_entry capacity"

definition write_pool_release :: "write_pool \<Rightarrow> write_pool" where
  [simp]: "write_pool_release p = pool_release p"

definition write_pool_reset :: "write_pool \<Rightarrow> write_pool" where
  [simp]: "write_pool_reset p = pool_reset p"

definition write_pool_size :: "write_pool \<Rightarrow> nat" where
  [simp]: "write_pool_size p = pl_pop p"

text \<open>\<^verbatim>\<open>Copy\<close> of a slot; its extension gets a fresh address.\<close>

definition read_slot_copy :: "addr \<Rightarrow> set_key \<times> read_set_entry \<Rightarrow> set_key \<times> read_set_entry" where
  "read_slot_copy fresh = (\<lambda>(sk, e). (set_key_copy sk, read_entry_copy fresh e))"

definition write_slot_copy :: "addr \<Rightarrow> set_key \<times> write_set_entry \<Rightarrow> set_key \<times> write_set_entry" where
  "write_slot_copy fresh = (\<lambda>(sk, w). (set_key_copy sk, write_entry_copy fresh w))"

text \<open>\<^verbatim>\<open>NewReadSetEntry\<close> hands out the next slot as it is; the caller fills it later.\<close>

definition new_read_slot :: "read_pool \<Rightarrow> (nat \<times> read_pool) res" where
  "new_read_slot p0 =
     (let p = pool_reserve new_read_set_entry p0
      in rbind (vec_at (pl_entries p) (pl_pop p)) (\<lambda>_.
         Inr (pl_pop p, p\<lparr>pl_pop := pl_pop p + 1\<rparr>)))"

definition new_write_slot ::
    "table_name \<Rightarrow> key \<Rightarrow> int \<Rightarrow> bool \<Rightarrow> rec_ptr \<Rightarrow> nat option \<Rightarrow> bool \<Rightarrow> write_pool \<Rightarrow>
     (nat \<times> write_pool) res" where
  "new_write_slot t k version is_deleted rec read_entry need_post_processing p0 =
     (let p = pool_reserve new_write_set_entry p0
      in rbind (vec_at (pl_entries p) (pl_pop p)) (\<lambda>(sk, e).
         Inr (pl_pop p,
           p\<lparr>pl_entries := (pl_entries p)[pl_pop p :=
                (set_key_reset t k sk,
                 write_entry_reset version is_deleted rec read_entry need_post_processing e)],
             pl_pop := pl_pop p + 1\<rparr>)))"

definition find_in_read_set :: "read_pool \<Rightarrow> table_name \<Rightarrow> key \<Rightarrow> nat option res" where
  "find_in_read_set p t k = pool_find (pl_entries p) t k (pl_pop p)"

definition find_in_write_set :: "write_pool \<Rightarrow> table_name \<Rightarrow> key \<Rightarrow> nat option res" where
  "find_in_write_set p t k = pool_find (pl_entries p) t k (pl_pop p)"

text \<open>The copy constructors copy every slot up to the capacity; extensions get fresh addresses.\<close>

definition copy_read_pool :: "(nat \<Rightarrow> addr) \<Rightarrow> read_pool \<Rightarrow> read_pool res" where
  "copy_read_pool fresh that =
     rbind (rfold (\<lambda>i es. rbind (vec_at (pl_entries that) i) (\<lambda>e.
              Inr (es @ [read_slot_copy (fresh i) e]))) [0..<pl_capacity that] []) (\<lambda>es.
     Inr \<lparr>pl_entries = es, pl_capacity = pl_capacity that, pl_pop = pl_pop that\<rparr>)"

definition copy_write_pool :: "(nat \<Rightarrow> addr) \<Rightarrow> write_pool \<Rightarrow> write_pool res" where
  "copy_write_pool fresh that =
     rbind (rfold (\<lambda>i es. rbind (vec_at (pl_entries that) i) (\<lambda>e.
              Inr (es @ [write_slot_copy (fresh i) e]))) [0..<pl_capacity that] []) (\<lambda>es.
     Inr \<lparr>pl_entries = es, pl_capacity = pl_capacity that, pl_pop = pl_pop that\<rparr>)"

section \<open>The local state\<close>

record local_state =
  ls_read :: read_pool
  ls_write :: write_pool

definition new_local_state :: "nat \<Rightarrow> local_state" where
  "new_local_state capacity =
     \<lparr>ls_read = new_pool new_read_set_entry capacity, ls_write = new_write_pool capacity\<rparr>"

definition ls_insert_read_set :: "local_state \<Rightarrow> (nat \<times> local_state) res" where
  "ls_insert_read_set ls = rbind (new_read_slot (ls_read ls)) (\<lambda>(i, p). Inr (i, ls\<lparr>ls_read := p\<rparr>))"

definition ls_insert_write_set ::
    "table_name \<Rightarrow> key \<Rightarrow> int \<Rightarrow> bool \<Rightarrow> rec_ptr \<Rightarrow> nat option \<Rightarrow> bool \<Rightarrow> local_state \<Rightarrow>
     local_state res" where
  "ls_insert_write_set t k version is_deleted rec read_entry need_post_processing ls =
     rbind (new_write_slot t k version is_deleted rec read_entry need_post_processing (ls_write ls))
       (\<lambda>(_, p). Inr (ls\<lparr>ls_write := p\<rparr>))"

definition ls_find_in_write_set :: "local_state \<Rightarrow> table_name \<Rightarrow> key \<Rightarrow> nat option res" where
  "ls_find_in_write_set ls t k = find_in_write_set (ls_write ls) t k"

definition ls_find_in_read_set :: "local_state \<Rightarrow> table_name \<Rightarrow> key \<Rightarrow> nat option res" where
  "ls_find_in_read_set ls t k = find_in_read_set (ls_read ls) t k"

definition ls_read_size :: "local_state \<Rightarrow> nat" where
  "ls_read_size ls = pool_size (ls_read ls)"

definition ls_write_size :: "local_state \<Rightarrow> nat" where
  "ls_write_size ls = write_pool_size (ls_write ls)"

definition ls_reset :: "local_state \<Rightarrow> local_state" where
  "ls_reset ls = ls\<lparr>ls_read := pool_reset (ls_read ls), ls_write := write_pool_reset (ls_write ls)\<rparr>"

definition ls_release_read_set :: "local_state \<Rightarrow> local_state" where
  "ls_release_read_set ls = ls\<lparr>ls_read := pool_release (ls_read ls)\<rparr>"

definition ls_release_write_set :: "local_state \<Rightarrow> local_state" where
  "ls_release_write_set ls = ls\<lparr>ls_write := write_pool_release (ls_write ls)\<rparr>"

section \<open>The abstract pool: a stack of keyed entries\<close>

definition pool_inv :: "'e pool \<Rightarrow> bool" where
  "pool_inv p \<longleftrightarrow> length (pl_entries p) = pl_capacity p \<and> pl_pop p \<le> pl_capacity p"

definition live :: "'e pool \<Rightarrow> (set_key \<times> 'e) list" where
  "live p = take (pl_pop p) (pl_entries p)"

definition keyed :: "table_name \<Rightarrow> key \<Rightarrow> set_key \<times> 'e \<Rightarrow> bool" where
  "keyed t k s \<longleftrightarrow> sk_table (fst s) = Some t \<and> sk_key (fst s) = Some k"

text \<open>A slot can be compared with a key of table \<open>t\<close>: it is filled, and keys of one table have one class.\<close>

definition comparable :: "table_name \<Rightarrow> key \<Rightarrow> set_key \<times> 'e \<Rightarrow> bool" where
  "comparable t k s \<longleftrightarrow> (\<exists>t' k'. keyed t' k' s \<and> (t' = t \<longrightarrow> same_class k k'))"

text \<open>The specification of the searches: the position of the newest entry with the key.\<close>

definition newest :: "(set_key \<times> 'e) list \<Rightarrow> table_name \<Rightarrow> key \<Rightarrow> nat option" where
  "newest es t k = List.find (\<lambda>i. keyed t k (es ! i)) (rev [0..<length es])"

lemma newest_append: "newest (es @ [s]) t k = (if keyed t k s then Some (length es) else newest es t k)"
proof -
  have "List.find (\<lambda>i. keyed t k ((es @ [s]) ! i)) (rev [0..<length es]) =
        List.find (\<lambda>i. keyed t k (es ! i)) (rev [0..<length es])"
    by (intro find_cong) (auto simp: nth_append)
  then show ?thesis by (simp add: newest_def)
qed

lemma newest_Nil [simp]: "newest [] t k = None"
  by (simp add: newest_def)

lemma newest_Some_iff:
  "newest es t k = Some i \<longleftrightarrow>
     i < length es \<and> keyed t k (es ! i) \<and> (\<forall>j. i < j \<and> j < length es \<longrightarrow> \<not> keyed t k (es ! j))"
proof (induction es rule: rev_induct)
  case (snoc s es)
  show ?case
  proof (cases "keyed t k s")
    case True
    then have "newest (es @ [s]) t k = Some (length es)" by (simp add: newest_append)
    moreover have "(i < length (es @ [s]) \<and> keyed t k ((es @ [s]) ! i) \<and>
        (\<forall>j. i < j \<and> j < length (es @ [s]) \<longrightarrow> \<not> keyed t k ((es @ [s]) ! j))) = (length es = i)"
      using True by (auto simp: less_Suc_eq intro: exI [of _ "length es"])
    ultimately show ?thesis by simp
  next
    case False
    then have "newest (es @ [s]) t k = newest es t k" by (simp add: newest_append)
    moreover have "(i < length (es @ [s]) \<and> keyed t k ((es @ [s]) ! i) \<and>
        (\<forall>j. i < j \<and> j < length (es @ [s]) \<longrightarrow> \<not> keyed t k ((es @ [s]) ! j))) =
        (i < length es \<and> keyed t k (es ! i) \<and> (\<forall>j. i < j \<and> j < length es \<longrightarrow> \<not> keyed t k (es ! j)))"
      using False by (auto simp: less_Suc_eq nth_append)
    ultimately show ?thesis using snoc by simp
  qed
qed simp

lemma newest_None_iff: "newest es t k = None \<longleftrightarrow> (\<forall>s \<in> set es. \<not> keyed t k s)"
  by (induction es rule: rev_induct) (auto simp: newest_append)

lemma slot_matches_comparable:
  assumes "comparable t k (sk, e)"
  shows "slot_matches t k sk = Inr (keyed t k (sk, e))"
proof -
  from assms obtain t' k' where k: "sk_table sk = Some t'" "sk_key sk = Some k'"
    and c: "t' = t \<longrightarrow> same_class k k'"
    by (auto simp: comparable_def keyed_def)
  show ?thesis
  proof (cases "t = t'")
    case True
    with c have "key_eq k k' = Inr (k = k')" by (simp add: key_eq_same_class)
    with True k show ?thesis by (auto simp: slot_matches_def keyed_def)
  next
    case False
    with k show ?thesis by (auto simp: slot_matches_def keyed_def)
  qed
qed

lemma slot_matches_Inr: "slot_matches t k sk = Inr b \<Longrightarrow> b = keyed t k (sk, e)"
  by (auto simp: slot_matches_def keyed_def split: if_splits dest: key_eq_Inr)

lemma pool_find_newest:
  assumes "n \<le> length es" and "\<forall>s \<in> set (take n es). comparable t k s"
  shows "pool_find es t k n = Inr (newest (take n es) t k)"
  using assms
proof (induction n)
  case (Suc i)
  obtain sk e where s: "es ! i = (sk, e)" by (cases "es ! i") auto
  have t: "take (Suc i) es = take i es @ [(sk, e)]"
    using Suc.prems(1) s by (simp add: take_Suc_conv_app_nth)
  from Suc.prems(2) t have "comparable t k (sk, e)" by simp
  with Suc s t show ?case by (simp add: slot_matches_comparable newest_append)
qed simp

text \<open>Whenever a search returns, it returns the newest entry, whatever the slots hold.\<close>

lemma pool_find_sound:
  "pool_find es t k n = Inr r \<Longrightarrow> r = newest (take n es) t k"
proof (induction n)
  case (Suc i)
  then obtain sk e b where i: "i < length es" "es ! i = (sk, e)" and b: "slot_matches t k sk = Inr b"
    by (auto simp: vec_at_eq_Inr split: prod.splits)
  have t: "take (Suc i) es = take i es @ [(sk, e)]"
    using i by (simp add: take_Suc_conv_app_nth)
  show ?case
    using Suc i b slot_matches_Inr [OF b, of e] by (auto simp: t newest_append split: if_splits)
qed simp

locale slot_stack =
  fixes inv :: "'p \<Rightarrow> bool"
    and slots :: "'p \<Rightarrow> 's list"
    and reset :: "'p \<Rightarrow> 'p"
    and release :: "'p \<Rightarrow> 'p"
    and add :: "'a \<Rightarrow> 'p \<Rightarrow> (nat \<times> 'p) res"
    and fills :: "'a \<Rightarrow> 's \<Rightarrow> bool"
  assumes inv_reset: "inv p \<Longrightarrow> inv (reset p)"
    and slots_reset: "slots (reset p) = []"
    and inv_release: "inv p \<Longrightarrow> slots p \<noteq> [] \<Longrightarrow> inv (release p)"
    and slots_release: "inv p \<Longrightarrow> slots p \<noteq> [] \<Longrightarrow> slots (release p) = butlast (slots p)"
    and add_ok: "inv p \<Longrightarrow> \<exists>p' s. add a p = Inr (length (slots p), p') \<and> inv p'
      \<and> slots p' = slots p @ [s] \<and> fills a s"
begin

lemma add_Inr:
  assumes "inv p" "add a p = Inr (i, p')"
  obtains s where "i = length (slots p)" "inv p'" "slots p' = slots p @ [s]" "fills a s"
  using add_ok [OF assms(1), of a] assms(2) by auto

lemma add_keeps_slots:
  assumes "inv p" "add a p = Inr (i, p')" "j < length (slots p)"
  shows "slots p' ! j = slots p ! j"
  by (rule add_Inr [OF assms(1,2)]) (simp add: assms(3) nth_append)

lemma add_release:
  assumes "inv p" "add a p = Inr (i, p')"
  shows "inv (release p') \<and> slots (release p') = slots p"
  by (rule add_Inr [OF assms]) (simp add: inv_release slots_release)

end

locale keyed_stack = slot_stack inv slots reset release add fills
  for inv :: "'p \<Rightarrow> bool" and slots :: "'p \<Rightarrow> (set_key \<times> 'e) list" and reset release add fills +
  fixes find_slot :: "'p \<Rightarrow> table_name \<Rightarrow> key \<Rightarrow> nat option res"
  assumes find_sound: "find_slot p t k = Inr r \<Longrightarrow> r = newest (slots p) t k"
    and find_total: "inv p \<Longrightarrow> \<forall>s \<in> set (slots p). comparable t k s \<Longrightarrow>
      find_slot p t k = Inr (newest (slots p) t k)"
begin

lemma find_reset: "find_slot (reset p) t k = Inr r \<Longrightarrow> r = None"
  by (auto dest!: find_sound simp: slots_reset)

lemma find_added:
  assumes "inv p" "add a p = Inr (i, p')" "\<And>s. fills a s \<Longrightarrow> keyed t k s"
    and "find_slot p' t k = Inr r"
  shows "r = Some i"
  by (rule add_Inr [OF assms(1,2)]) (simp add: find_sound [OF assms(4)] newest_append assms(3))

lemma find_other_added:
  assumes "inv p" "add a p = Inr (i, p')" "\<And>s. fills a s \<Longrightarrow> \<not> keyed t k s"
    and "find_slot p' t k = Inr r"
  shows "r = newest (slots p) t k"
  by (rule add_Inr [OF assms(1,2)]) (simp add: find_sound [OF assms(4)] newest_append assms(3))

lemma find_in_range: "find_slot p t k = Inr (Some i) \<Longrightarrow> i < length (slots p) \<and> keyed t k (slots p ! i)"
  by (drule find_sound) (metis newest_Some_iff)

end

lemma pool_inv_reserve:
  assumes "pool_inv p"
  shows "pool_inv (pool_reserve fresh p)" "pl_pop (pool_reserve fresh p) = pl_pop p"
    "pl_pop p < length (pl_entries (pool_reserve fresh p))"
    "live (pool_reserve fresh p) = live p"
  using assms by (auto simp: pool_reserve_def pool_resize_def pool_inv_def live_def Let_def)

lemma live_reset [simp]: "live (pool_reset p) = []"
  by (simp add: live_def pool_reset_def)

lemma pool_inv_reset: "pool_inv p \<Longrightarrow> pool_inv (pool_reset p)"
  by (simp add: pool_inv_def pool_reset_def)

lemma length_live [simp]: "pool_inv p \<Longrightarrow> length (live p) = pl_pop p"
  by (simp add: live_def pool_inv_def)

lemma live_nth: "i < pl_pop p \<Longrightarrow> live p ! i = pl_entries p ! i"
  by (simp add: live_def)

lemma pool_inv_new [simp]: "pool_inv (new_pool fresh n)"
  by (simp add: new_pool_def pool_inv_def)

lemma live_release: "pool_inv p \<Longrightarrow> live p \<noteq> [] \<Longrightarrow> live (pool_release p) = butlast (live p)"
  by (auto simp: pool_release_def live_def pool_inv_def butlast_take)

lemma pool_inv_release: "pool_inv p \<Longrightarrow> live p \<noteq> [] \<Longrightarrow> pool_inv (pool_release p)"
  by (auto simp: pool_release_def live_def pool_inv_def)

lemma new_read_slot_ok:
  assumes "pool_inv p"
  shows "\<exists>p' s. new_read_slot p = Inr (pl_pop p, p') \<and> pool_inv p' \<and> live p' = live p @ [s]"
proof -
  let ?q = "pool_reserve new_read_set_entry p"
  note q = pool_inv_reserve [OF assms, of new_read_set_entry]
  have "new_read_slot p = Inr (pl_pop p, ?q\<lparr>pl_pop := pl_pop p + 1\<rparr>)"
    using q(2,3) by (simp add: new_read_slot_def Let_def)
  moreover have "pool_inv (?q\<lparr>pl_pop := pl_pop p + 1\<rparr>)"
    using q(1,3) by (simp add: pool_inv_def)
  moreover have "live (?q\<lparr>pl_pop := pl_pop p + 1\<rparr>) = live p @ [pl_entries ?q ! pl_pop p]"
    using q(2,3,4) by (simp add: live_def take_Suc_conv_app_nth)
  ultimately show ?thesis by blast
qed

text \<open>What \<^verbatim>\<open>NewWriteSetEntry\<close> writes into the slot; the slot's extension stays from its last use.\<close>

fun write_slot_filled ::
    "table_name \<times> key \<times> int \<times> bool \<times> rec_ptr \<times> nat option \<times> bool \<Rightarrow> set_key \<times> write_set_entry \<Rightarrow> bool" where
  "write_slot_filled (t, k, version, is_deleted, rec, read_entry, npp) (sk, e) \<longleftrightarrow>
     keyed t k (sk, e) \<and> ws_version e = version \<and> ws_is_deleted e = is_deleted \<and> ws_record e = rec \<and>
     ws_read_entry e = read_entry \<and> ws_need_post_processing e = npp"

fun add_write :: "table_name \<times> key \<times> int \<times> bool \<times> rec_ptr \<times> nat option \<times> bool \<Rightarrow> write_pool \<Rightarrow>
    (nat \<times> write_pool) res" where
  "add_write (t, k, version, is_deleted, rec, read_entry, npp) p =
     new_write_slot t k version is_deleted rec read_entry npp p"

lemma new_write_slot_ok:
  assumes "pool_inv p"
  shows "\<exists>p' s. new_write_slot t k version is_deleted rec read_entry npp p = Inr (pl_pop p, p') \<and> pool_inv p'
    \<and> live p' = live p @ [s] \<and> write_slot_filled (t, k, version, is_deleted, rec, read_entry, npp) s"
proof -
  let ?q = "pool_reserve new_write_set_entry p"
  note q = pool_inv_reserve [OF assms, of new_write_set_entry]
  obtain sk e where s: "pl_entries ?q ! pl_pop p = (sk, e)" by fastforce
  let ?s = "(set_key_reset t k sk, write_entry_reset version is_deleted rec read_entry npp e)"
  let ?p = "?q\<lparr>pl_entries := (pl_entries ?q)[pl_pop p := ?s], pl_pop := pl_pop p + 1\<rparr>"
  have "new_write_slot t k version is_deleted rec read_entry npp p = Inr (pl_pop p, ?p)"
    using q(2,3) s by (simp add: new_write_slot_def Let_def)
  moreover have "pool_inv ?p"
    using q(1,3) by (simp add: pool_inv_def)
  moreover have "live ?p = live p @ [?s]"
    using q(2,3,4) by (simp add: live_def take_Suc_update)
  moreover have "write_slot_filled (t, k, version, is_deleted, rec, read_entry, npp) ?s"
    by (simp add: keyed_def set_key_reset_def write_entry_reset_def)
  ultimately show ?thesis by blast
qed

interpretation read_set: keyed_stack pool_inv live pool_reset pool_release
    "\<lambda>_ :: unit. new_read_slot" "\<lambda>_ _. True" find_in_read_set
proof unfold_locales
  fix p :: read_pool and t k
  assume "pool_inv p" "\<forall>s \<in> set (live p). comparable t k s"
  then show "find_in_read_set p t k = Inr (newest (live p) t k)"
    by (simp add: find_in_read_set_def pool_find_newest pool_inv_def live_def)
next
  fix p :: read_pool and t k r
  assume "find_in_read_set p t k = Inr r"
  then show "r = newest (live p) t k"
    by (simp add: find_in_read_set_def live_def pool_find_sound)
next
  fix p :: read_pool
  assume "pool_inv p"
  then show "\<exists>p' s. new_read_slot p = Inr (length (live p), p') \<and> pool_inv p' \<and> live p' = live p @ [s]
      \<and> True"
    using new_read_slot_ok [of p] by simp
qed (auto simp: pool_inv_release live_release pool_inv_reset)

interpretation write_set: keyed_stack pool_inv live pool_reset pool_release
    add_write write_slot_filled find_in_write_set
proof unfold_locales
  fix p :: write_pool and t k
  assume "pool_inv p" "\<forall>s \<in> set (live p). comparable t k s"
  then show "find_in_write_set p t k = Inr (newest (live p) t k)"
    by (simp add: find_in_write_set_def pool_find_newest pool_inv_def live_def)
next
  fix p :: write_pool and t k r
  assume "find_in_write_set p t k = Inr r"
  then show "r = newest (live p) t k"
    by (simp add: find_in_write_set_def live_def pool_find_sound)
next
  fix p :: write_pool and a
  assume "pool_inv p"
  then show "\<exists>p' s. add_write a p = Inr (length (live p), p') \<and> pool_inv p' \<and> live p' = live p @ [s]
      \<and> write_slot_filled a s"
    by (cases a) (metis new_write_slot_ok length_live add_write.simps)
qed (auto simp: pool_inv_release live_release pool_inv_reset)

end
