(* ===== verification/Providers.thy ===== *)
theory Providers
  imports Config
begin

text \<open>
  Transaction ids and local time: \<^verbatim>\<open>txn-id-generator.h\<close>, \<^verbatim>\<open>txn-id-generator-factory.h\<close>,
  \<^verbatim>\<open>simple-txn-id-generator.cpp\<close>, \<^verbatim>\<open>simple-txn-id-generator-factory.cpp\<close>, \<^verbatim>\<open>time-provider.h\<close> and
  \<^verbatim>\<open>local-time-provider.cpp\<close>.  The reading of the system clock is the argument \<open>now\<close> (microseconds since
  the epoch).  The locale \<open>id_source\<close> is what a transaction expects of its id generator, \<open>time_source\<close>
  what it expects of its time provider.
\<close>

section \<open>Transaction ids\<close>

record id_gen =
  ig_id :: int
  ig_start :: int
  ig_end :: int

record id_gen_factory =
  igf_count :: int
  igf_interval :: int

text \<open>C++ division truncates towards zero.\<close>

definition new_id_gen_factory :: "int \<Rightarrow> id_gen_factory res" where
  "new_id_gen_factory count =
     (if count = 0 then Inl DivisionByZero
      else Inr \<lparr>igf_count = count, igf_interval = sgn count * (INT64_MAX div \<bar>count\<bar>)\<rparr>)"

definition new_id_gen :: "int \<Rightarrow> int \<Rightarrow> id_gen res" where
  "new_id_gen base interval =
     rbind (i64_add base interval) (\<lambda>e. Inr \<lparr>ig_id = base, ig_start = base, ig_end = e\<rparr>)"

definition get_txn_id_generator :: "id_gen_factory \<Rightarrow> int \<Rightarrow> id_gen res" where
  "get_txn_id_generator f executor_id =
     rbind (i64_mul (igf_interval f) executor_id) (\<lambda>base. new_id_gen base (igf_interval f))"

definition generate_id :: "id_gen \<Rightarrow> (int \<times> id_gen) res" where
  "generate_id g =
     rbind (i64_add (ig_id g) 1) (\<lambda>id1.
     let id2 = (if id1 = ig_end g then ig_start g else id1)
     in Inr (id2, g\<lparr>ig_id := id2\<rparr>))"

section \<open>Local time\<close>

record time_provider =
  tp_time_value :: int
  tp_count :: int

definition new_local_time_provider :: "int \<Rightarrow> time_provider" where
  "new_local_time_provider now = \<lparr>tp_time_value = now, tp_count = 0\<rparr>"

definition get_time :: "int \<Rightarrow> time_provider \<Rightarrow> (int \<times> time_provider) res" where
  "get_time now tp0 =
     (let tp = (if tp_count tp0 = TIME_PROVIDER_INTERVAL
                then tp0\<lparr>tp_count := 0, tp_time_value := max (tp_time_value tp0) now\<rparr> else tp0)
      in rbind (i64_add (tp_time_value tp) (tp_count tp)) (\<lambda>t.
         Inr (t, tp\<lparr>tp_count := tp_count tp + 1\<rparr>)))"

definition set_time :: "int \<Rightarrow> time_provider \<Rightarrow> time_provider res" where
  "set_time time tp =
     rbind (i64_add (tp_time_value tp) (tp_count tp)) (\<lambda>t.
     Inr (tp\<lparr>tp_time_value := max t time, tp_count := 0\<rparr>))"

section \<open>What a transaction expects of its id generator\<close>

fun gen_ids :: "('g \<Rightarrow> (int \<times> 'g) res) \<Rightarrow> nat \<Rightarrow> 'g \<Rightarrow> (int list \<times> 'g) res" where
  "gen_ids gen 0 g = Inr ([], g)"
| "gen_ids gen (Suc n) g =
     rbind (gen g) (\<lambda>(i, g1). rbind (gen_ids gen n g1) (\<lambda>(is, g2). Inr (i # is, g2)))"

locale id_source =
  fixes gen :: "'g \<Rightarrow> (int \<times> 'g) res"
    and inv :: "'g \<Rightarrow> bool"
    and lo :: "'g \<Rightarrow> int"
    and size :: "'g \<Rightarrow> int"
    and pos :: "'g \<Rightarrow> int"
  assumes size_pos: "inv g \<Longrightarrow> 0 < size g"
    and pos_range: "inv g \<Longrightarrow> 0 \<le> pos g \<and> pos g < size g"
    and gen_ok: "inv g \<Longrightarrow> \<exists>i g'. gen g = Inr (i, g') \<and> inv g' \<and> lo g' = lo g \<and> size g' = size g
      \<and> pos g' = (pos g + 1) mod size g \<and> i = lo g + pos g'"
begin

lemma gen_ids_ok:
  assumes "inv g"
  shows "\<exists>is g'. gen_ids gen n g = Inr (is, g') \<and> inv g' \<and> lo g' = lo g \<and> size g' = size g
    \<and> is = map (\<lambda>k. lo g + (pos g + int k + 1) mod size g) [0..<n]"
  using assms
proof (induction n arbitrary: g)
  case (Suc n)
  obtain i g1 where g1: "gen g = Inr (i, g1)" "inv g1" "lo g1 = lo g" "size g1 = size g"
      "pos g1 = (pos g + 1) mod size g" "i = lo g + pos g1"
    using gen_ok [OF Suc.prems] by blast
  obtain js g2 where g2: "gen_ids gen n g1 = Inr (js, g2)" "inv g2" "lo g2 = lo g" "size g2 = size g"
      "js = map (\<lambda>k. lo g + (pos g1 + int k + 1) mod size g) [0..<n]"
    using Suc.IH [OF g1(2)] g1(3,4) by auto
  have "(pos g1 + int k + 1) mod size g = (pos g + int (Suc k) + 1) mod size g" for k
  proof -
    have "((pos g + 1) mod size g + (int k + 1)) mod size g = (pos g + 1 + (int k + 1)) mod size g"
      by (rule mod_add_left_eq)
    then show ?thesis by (simp add: g1(5) add_ac)
  qed
  then have "i # js = map (\<lambda>k. lo g + (pos g + int k + 1) mod size g) (0 # map Suc [0..<n])"
    using g1(5,6) g2(5) by simp
  then have "i # js = map (\<lambda>k. lo g + (pos g + int k + 1) mod size g) [0..<Suc n]"
    by (simp only: map_Suc_upt upt_conv_Cons [symmetric] zero_less_Suc)
  with g1 g2 show ?case by simp
qed simp

lemma gen_ids_in_range:
  assumes "inv g" "gen_ids gen n g = Inr (is, g')" "i \<in> set is"
  shows "lo g \<le> i \<and> i < lo g + size g"
  using gen_ids_ok [OF assms(1), of n] assms(2,3) size_pos [OF assms(1)] by auto

lemma gen_ids_distinct:
  assumes "inv g" "gen_ids gen n g = Inr (is, g')" "int n \<le> size g"
  shows "distinct is"
proof -
  have i: "is = map (\<lambda>k. lo g + (pos g + int k + 1) mod size g) [0..<n]"
    using gen_ids_ok [OF assms(1), of n] assms(2) by auto
  have "j = k" if "j < n" "k < n" "(pos g + int j + 1) mod size g = (pos g + int k + 1) mod size g" for j k
  proof -
    have "(int j) mod size g = (int k) mod size g"
      using that(3) by (simp add: mod_eq_dvd_iff)
    moreover have "int j < size g" "int k < size g" using that assms(3) by auto
    ultimately show "j = k" by simp
  qed
  then show ?thesis by (auto simp: i distinct_map inj_on_def)
qed

end

text \<open>An interval generator: nonempty range, all of it in 64 bits, position inside it.\<close>

definition id_gen_inv :: "id_gen \<Rightarrow> bool" where
  "id_gen_inv g \<longleftrightarrow> i64 (ig_start g) \<and> i64 (ig_end g) \<and> ig_start g \<le> ig_id g \<and> ig_id g < ig_end g"

definition id_gen_size :: "id_gen \<Rightarrow> int" where
  "id_gen_size g = ig_end g - ig_start g"

definition id_gen_pos :: "id_gen \<Rightarrow> int" where
  "id_gen_pos g = ig_id g - ig_start g"

interpretation simple_ids: id_source generate_id id_gen_inv ig_start id_gen_size id_gen_pos
proof unfold_locales
  fix g :: id_gen
  assume g: "id_gen_inv g"
  define j where "j = (if ig_id g + 1 = ig_end g then ig_start g else ig_id g + 1)"
  have "generate_id g = Inr (j, g\<lparr>ig_id := j\<rparr>)"
    using g by (auto simp: generate_id_def j_def id_gen_inv_def i64_def i64_add_def i64_check_def Let_def)
  moreover have "id_gen_inv (g\<lparr>ig_id := j\<rparr>)"
    using g by (auto simp: id_gen_inv_def j_def)
  moreover have "j - ig_start g = (ig_id g - ig_start g + 1) mod (ig_end g - ig_start g)"
  proof (cases "ig_id g + 1 = ig_end g")
    case True
    then have "ig_end g - ig_start g = ig_id g - ig_start g + 1" by simp
    then have "(ig_id g - ig_start g + 1) mod (ig_end g - ig_start g) = 0" by (simp only: mod_self)
    with True show ?thesis by (simp add: j_def)
  next
    case False
    with g show ?thesis by (simp add: j_def id_gen_inv_def)
  qed
  ultimately show "\<exists>i g'. generate_id g = Inr (i, g') \<and> id_gen_inv g' \<and> ig_start g' = ig_start g \<and>
      id_gen_size g' = id_gen_size g \<and> id_gen_pos g' = (id_gen_pos g + 1) mod id_gen_size g \<and>
      i = ig_start g + id_gen_pos g'"
    by (auto simp: id_gen_size_def id_gen_pos_def)
qed (auto simp: id_gen_inv_def id_gen_size_def id_gen_pos_def)

lemma get_txn_id_generator_ok:
  assumes c: "0 < count" and f: "new_id_gen_factory count = Inr f" and e: "0 \<le> executor_id" "executor_id < count"
    and m: "count \<le> INT64_MAX"
  shows "\<exists>g. get_txn_id_generator f executor_id = Inr g \<and> id_gen_inv g
    \<and> ig_start g = igf_interval f * executor_id \<and> ig_end g = igf_interval f * (executor_id + 1)
    \<and> ig_id g = ig_start g"
proof -
  let ?i = "INT64_MAX div count"
  have i: "igf_interval f = ?i" using c f by (auto simp: new_id_gen_factory_def)
  have pos: "0 < ?i" using c m by (simp add: pos_imp_zdiv_pos_iff)
  have "?i * (executor_id + 1) \<le> ?i * count" using e pos by (intro mult_left_mono) auto
  also have "\<dots> \<le> INT64_MAX" using c by (simp add: minus_mod_eq_div_mult [symmetric] INT64_MAX_def)
  finally have top: "?i * executor_id + ?i \<le> INT64_MAX" by (simp add: distrib_left)
  have "0 \<le> ?i * executor_id" using e pos by simp
  with top pos have "i64 (?i * executor_id)" "i64 (?i * executor_id + ?i)"
    by (auto simp: i64_def INT64_MIN_def)
  then show ?thesis
    using pos by (auto simp: get_txn_id_generator_def new_id_gen_def i64_mul_def i64_add_def i64_check_def
        id_gen_inv_def i distrib_left)
qed

section \<open>What a transaction expects of its time provider\<close>

datatype clock_op = GetTime int | SetTime int

fun clock_run :: "(int \<Rightarrow> 'c \<Rightarrow> (int \<times> 'c) res) \<Rightarrow> (int \<Rightarrow> 'c \<Rightarrow> 'c res) \<Rightarrow> clock_op list \<Rightarrow> 'c \<Rightarrow>
    (int list \<times> 'c) res" where
  "clock_run get put [] c = Inr ([], c)"
| "clock_run get put (GetTime now # ops) c =
     rbind (get now c) (\<lambda>(t, c1). rbind (clock_run get put ops c1) (\<lambda>(ts, c2). Inr (t # ts, c2)))"
| "clock_run get put (SetTime t # ops) c = rbind (put t c) (clock_run get put ops)"

locale time_source =
  fixes get :: "int \<Rightarrow> 'c \<Rightarrow> (int \<times> 'c) res"
    and put :: "int \<Rightarrow> 'c \<Rightarrow> 'c res"
    and inv :: "'c \<Rightarrow> bool"
    and floor :: "'c \<Rightarrow> int"
  assumes get_floor: "inv c \<Longrightarrow> get now c = Inr (t, c') \<Longrightarrow> inv c' \<and> floor c \<le> t \<and> floor c \<le> floor c'"
    and put_floor: "inv c \<Longrightarrow> put t c = Inr c' \<Longrightarrow> inv c' \<and> t \<le> floor c' \<and> floor c \<le> floor c'"
begin

lemma run_floor:
  assumes "inv c" "clock_run get put ops c = Inr (ts, c')"
  shows "inv c' \<and> floor c \<le> floor c' \<and> (\<forall>t \<in> set ts. floor c \<le> t)"
  using assms
proof (induction ops arbitrary: c ts)
  case (Cons op ops)
  show ?case
  proof (cases op)
    case (GetTime now)
    with Cons.prems obtain t c1 us where c1: "get now c = Inr (t, c1)" "clock_run get put ops c1 = Inr (us, c')"
        "ts = t # us" by auto
    from get_floor [OF Cons.prems(1) c1(1)] Cons.IH [OF _ c1(2)] c1(3) show ?thesis by fastforce
  next
    case (SetTime t)
    with Cons.prems obtain c1 where c1: "put t c = Inr c1" "clock_run get put ops c1 = Inr (ts, c')"
      by auto
    from put_floor [OF Cons.prems(1) c1(1)] Cons.IH [OF _ c1(2)] show ?thesis by fastforce
  qed
qed simp

lemma after_put:
  assumes "inv c" "put t c = Inr c1" "clock_run get put ops c1 = Inr (ts, c')" "u \<in> set ts"
  shows "t \<le> u"
  using put_floor [OF assms(1,2)] run_floor [OF _ assms(3)] assms(4) by fastforce

end

definition time_provider_inv :: "time_provider \<Rightarrow> bool" where
  "time_provider_inv tp \<longleftrightarrow> 0 \<le> tp_count tp \<and> tp_count tp \<le> TIME_PROVIDER_INTERVAL"

interpretation local_clock: time_source get_time set_time time_provider_inv tp_time_value
proof unfold_locales
  fix c c' :: time_provider and now t :: int
  assume "time_provider_inv c" "get_time now c = Inr (t, c')"
  then show "time_provider_inv c' \<and> tp_time_value c \<le> t \<and> tp_time_value c \<le> tp_time_value c'"
    by (auto simp: get_time_def time_provider_inv_def TIME_PROVIDER_INTERVAL_def Let_def split: if_splits)
next
  fix c c' :: time_provider and t :: int
  assume "time_provider_inv c" "set_time t c = Inr c'"
  then show "time_provider_inv c' \<and> t \<le> tp_time_value c' \<and> tp_time_value c \<le> tp_time_value c'"
    by (auto simp: set_time_def time_provider_inv_def TIME_PROVIDER_INTERVAL_def)
qed

lemma new_local_time_provider_inv [simp]: "time_provider_inv (new_local_time_provider now)"
  by (simp add: time_provider_inv_def new_local_time_provider_def TIME_PROVIDER_INTERVAL_def)

end
