(* ===== verification/Requests.thy ===== *)
theory Requests
  imports Local_State Providers
begin

text \<open>
  Requests and results: \<^verbatim>\<open>operation-request.h\<close>/\<^verbatim>\<open>.cpp\<close>, \<^verbatim>\<open>result.h\<close>/\<^verbatim>\<open>.cpp\<close>, \<^verbatim>\<open>transaction-request.h\<close>/\<^verbatim>\<open>.cpp\<close>.
  A request is shared by the client and the executor (\<^verbatim>\<open>shared_ptr\<close>), so requests live in a table and a
  pointer to one is its number.  An execution has one \<^verbatim>\<open>Result\<close>, which every request it runs points to
  once \<^verbatim>\<open>Result::Reset\<close> ran: the pointer \<^verbatim>\<open>result_\<close> of a request is null or that object, a boolean here.
  The mutex and condition variable of a request guard its one flag \<^verbatim>\<open>is_finished_\<close>.
\<close>

type_synonym req_id = nat

section \<open>Results\<close>

record op_result =
  res_record :: rec_ptr
  res_request :: "req_id option"
  res_is_deleted :: bool
  res_is_null :: bool
  res_is_error :: bool
  res_status :: txn_status

definition new_result :: op_result where
  "new_result = \<lparr>res_record = None, res_request = None, res_is_deleted = False, res_is_null = False,
     res_is_error = False, res_status = Ongoing\<rparr>"

definition res_is_committed :: "op_result \<Rightarrow> bool" where
  "res_is_committed r \<longleftrightarrow> res_status r = Committed"

definition res_is_abort :: "op_result \<Rightarrow> bool" where
  "res_is_abort r \<longleftrightarrow> res_status r = Aborted"

section \<open>Operation requests\<close>

datatype operation_type =
  Begin | Insert | Update | Upsert | Delete | Read | ReadOutside | ReadDataStore | Commit | Abort

record op_request =
  rq_type :: int
  rq_session_id :: int
  rq_table :: table_name
  rq_key :: "key option"
  rq_cache :: op_result
  rq_record :: rec_ptr
  rq_op :: operation_type
  rq_result :: bool
  rq_dependents :: "req_id list"
  rq_has_processor :: bool
  rq_is_finished :: bool
  rq_need_to_read_outside :: bool

definition new_op_request ::
    "int \<Rightarrow> table_name \<Rightarrow> key option \<Rightarrow> rec_ptr \<Rightarrow> operation_type \<Rightarrow> bool \<Rightarrow> bool \<Rightarrow> op_request" where
  "new_op_request session_id t k rec operation_type has_processor need_outside =
     \<lparr>rq_type = 0, rq_session_id = session_id, rq_table = t, rq_key = k, rq_cache = new_result,
      rq_record = rec, rq_op = operation_type, rq_result = False, rq_dependents = [],
      rq_has_processor = has_processor, rq_is_finished = False, rq_need_to_read_outside = need_outside\<rparr>"

definition new_control_request :: "int \<Rightarrow> operation_type \<Rightarrow> bool \<Rightarrow> op_request" where
  "new_control_request session_id operation_type need_outside =
     new_op_request session_id '''' None None operation_type False need_outside"

definition rq_set_result :: "op_request \<Rightarrow> op_request" where
  "rq_set_result q = q\<lparr>rq_result := True\<rparr>"

definition rq_add_dependent :: "req_id \<Rightarrow> op_request \<Rightarrow> op_request" where
  "rq_add_dependent r q = q\<lparr>rq_dependents := rq_dependents q @ [r]\<rparr>"

text \<open>\<^verbatim>\<open>RequestProcess::Process\<close> is the client's; it is the argument \<open>process\<close>.\<close>

definition rq_set_up :: "(op_request \<Rightarrow> op_request) \<Rightarrow> op_request \<Rightarrow> op_request" where
  "rq_set_up process q = (if rq_has_processor q then process q else q)"

definition rq_pull_result :: "op_result option \<Rightarrow> op_request \<Rightarrow> op_request res" where
  "rq_pull_result result q =
     rbind (deref result) (\<lambda>r.
     Inr (q\<lparr>rq_cache := (rq_cache q)\<lparr>res_record := res_record r, res_is_deleted := res_is_deleted r,
        res_is_null := res_is_null r, res_is_error := res_is_error r\<rparr>\<rparr>))"

definition rq_notify :: "op_request \<Rightarrow> op_request" where
  "rq_notify q = q\<lparr>rq_is_finished := True\<rparr>"

text \<open>\<^verbatim>\<open>Wait\<close> returns when the flag is set, on the fast path or when the condition variable wakes it.\<close>

definition rq_wait_returns :: "op_request \<Rightarrow> bool" where
  "rq_wait_returns q \<longleftrightarrow> rq_is_finished q"

section \<open>The queue of one transaction\<close>

record txn_request =
  tr_queue :: "req_id list"
  tr_current :: nat

definition new_txn_request :: txn_request where
  "new_txn_request = \<lparr>tr_queue = [], tr_current = 0\<rparr>"

definition push_request :: "req_id \<Rightarrow> txn_request \<Rightarrow> txn_request" where
  "push_request r q = q\<lparr>tr_queue := tr_queue q @ [r]\<rparr>"

definition current_request :: "txn_request \<Rightarrow> req_id option \<times> txn_request" where
  "current_request q =
     (if length (tr_queue q) \<le> tr_current q then (None, q)
      else (Some (tr_queue q ! tr_current q), q\<lparr>tr_current := tr_current q + 1\<rparr>))"

definition reset_txn_request :: "txn_request \<Rightarrow> txn_request" where
  "reset_txn_request q = q\<lparr>tr_queue := [], tr_current := 0\<rparr>"

section \<open>What the executions of one executor share\<close>

text \<open>
  The record objects, the requests, the system clock's current reading, and the executor's time
  provider and id generator, which all its executions use.
\<close>

record world =
  w_heap :: rec_heap
  w_reqs :: "req_id \<rightharpoonup> op_request"
  w_now :: int
  w_time :: time_provider
  w_ids :: id_gen

definition upd_request :: "req_id \<Rightarrow> (op_request \<Rightarrow> op_request) \<Rightarrow> 'a world_scheme \<Rightarrow> 'a world_scheme res" where
  "upd_request r f w =
     rbind (deref (w_reqs w r)) (\<lambda>q. Inr (w\<lparr>w_reqs := (w_reqs w)(r \<mapsto> f q)\<rparr>))"

section \<open>Results, against the request table\<close>

definition result_set_finished :: "op_result \<Rightarrow> 'a world_scheme \<Rightarrow> 'a world_scheme res" where
  "result_set_finished r w = rbind (deref (res_request r)) (\<lambda>q. upd_request q rq_notify w)"

definition result_reset ::
    "rec_ptr \<Rightarrow> req_id option \<Rightarrow> op_result \<Rightarrow> 'a world_scheme \<Rightarrow> (op_result \<times> 'a world_scheme) res" where
  "result_reset rec req r w =
     rbind (deref req) (\<lambda>q.
     rbind (upd_request q rq_set_result w) (\<lambda>w'.
     Inr (r\<lparr>res_record := rec, res_is_deleted := False, res_is_null := False, res_is_error := False,
            res_status := Ongoing, res_request := Some q\<rparr>, w')))"

definition result_set_record ::
    "rec_ptr \<Rightarrow> op_result \<Rightarrow> 'a world_scheme \<Rightarrow> (op_result \<times> 'a world_scheme) res" where
  "result_set_record rec r w =
     rbind (case res_record r of
              Some a \<Rightarrow>
                if res_record r \<noteq> rec
                then rbind (copy_from_ptr (w_heap w) a rec) (\<lambda>h. Inr (r, w\<lparr>w_heap := h\<rparr>))
                else Inr (r, w)
            | None \<Rightarrow> Inr (r\<lparr>res_record := rec\<rparr>, w)) (\<lambda>(r', w').
     rbind (result_set_finished r' w') (\<lambda>w''. Inr (r', w'')))"

definition result_set_null :: "op_result \<Rightarrow> 'a world_scheme \<Rightarrow> (op_result \<times> 'a world_scheme) res" where
  "result_set_null r w =
     (let r' = r\<lparr>res_is_null := True\<rparr> in rbind (result_set_finished r' w) (\<lambda>w'. Inr (r', w')))"

definition result_set_deleted :: "op_result \<Rightarrow> 'a world_scheme \<Rightarrow> (op_result \<times> 'a world_scheme) res" where
  "result_set_deleted r w =
     (let r' = r\<lparr>res_is_deleted := True\<rparr> in rbind (result_set_finished r' w) (\<lambda>w'. Inr (r', w')))"

definition result_set_error :: "op_result \<Rightarrow> 'a world_scheme \<Rightarrow> (op_result \<times> 'a world_scheme) res" where
  "result_set_error r w =
     (let r' = r\<lparr>res_is_error := True\<rparr> in rbind (result_set_finished r' w) (\<lambda>w'. Inr (r', w')))"

definition result_set_status ::
    "txn_status \<Rightarrow> op_result \<Rightarrow> 'a world_scheme \<Rightarrow> (op_result \<times> 'a world_scheme) res" where
  "result_set_status s r w =
     (let r' = r\<lparr>res_status := s\<rparr> in rbind (result_set_finished r' w) (\<lambda>w'. Inr (r', w')))"

lemmas result_ops = result_set_finished_def result_reset_def result_set_record_def result_set_null_def
  result_set_deleted_def result_set_error_def result_set_status_def upd_request_def

section \<open>Lemmas\<close>

lemma fold_push_request: "fold push_request rs q = q\<lparr>tr_queue := tr_queue q @ rs\<rparr>"
  by (induction rs arbitrary: q) (simp_all add: push_request_def)

lemma current_request_next:
  assumes "tr_current q < length (tr_queue q)"
  shows "current_request q = (Some (tr_queue q ! tr_current q), q\<lparr>tr_current := tr_current q + 1\<rparr>)"
  using assms by (simp add: current_request_def)

text \<open>Drawing \<open>n\<close> requests takes the next \<open>n\<close> of the queue, in order.\<close>

fun draw :: "nat \<Rightarrow> txn_request \<Rightarrow> req_id option list \<times> txn_request" where
  "draw 0 q = ([], q)"
| "draw (Suc n) q = (let (r, q1) = current_request q; (rs, q2) = draw n q1 in (r # rs, q2))"

lemma draw_in_order:
  "tr_current q + n \<le> length (tr_queue q) \<Longrightarrow>
   draw n q = (map Some (take n (drop (tr_current q) (tr_queue q))), q\<lparr>tr_current := tr_current q + n\<rparr>)"
proof (induction n arbitrary: q)
  case (Suc n)
  then have lt: "tr_current q < length (tr_queue q)" by simp
  let ?q1 = "q\<lparr>tr_current := tr_current q + 1\<rparr>"
  have "draw n ?q1 = (map Some (take n (drop (tr_current q + 1) (tr_queue q))),
      q\<lparr>tr_current := tr_current q + 1 + n\<rparr>)"
    using Suc.IH [of ?q1] Suc.prems by simp
  moreover have "take (Suc n) (drop (tr_current q) (tr_queue q)) =
      tr_queue q ! tr_current q # take n (drop (tr_current q + 1) (tr_queue q))"
    using lt by (simp add: Cons_nth_drop_Suc [symmetric])
  ultimately show ?case by (simp add: current_request_next [OF lt])
qed simp

lemma upd_request_Inr:
  "upd_request r f w = Inr w' \<longleftrightarrow>
     (\<exists>q. w_reqs w r = Some q \<and> w' = w\<lparr>w_reqs := (w_reqs w)(r \<mapsto> f q)\<rparr>)"
  by (auto simp: upd_request_def)

end
