(* ===== verification/Exec_State.thy ===== *)
theory Exec_State
  imports Requests
begin

text \<open>
  The state of one transaction execution: the operation objects of
  \<^verbatim>\<open>include/transaction/transaction-operation.h\<close> and the members of \<^verbatim>\<open>TransactionExecution\<close>
  (\<^verbatim>\<open>include/transaction/transaction-execution.h\<close>), with the methods of \<^verbatim>\<open>transaction-execution.cpp\<close> that
  do not run operations.

  An operation object is a member of the execution or an element of one of its vectors, so a pointer
  to it is an \<open>op_ref\<close>.  The base-class members of all objects (\<^verbatim>\<open>move_to_next_\<close>, \<^verbatim>\<open>has_next_\<close>) are one
  function \<open>o_base\<close>; members of the derived classes are in a field or list of records each.  A pointer to
  an entry and its \<^verbatim>\<open>SetKey\<close> is the index of their slot in the read or write pool.

  The storage handler, the data store and the log are interfaces without implementation in the
  repository.  A call on one of them is an element of the trace \<open>x_trace\<close> together with the operation
  whose \<^verbatim>\<open>HandlerResult\<close> it was given; the answer arrives later, as an input.
\<close>

section \<open>Operation objects\<close>

datatype op_ref =
    OpReadOutside
  | OpUpload
  | OpUploadEntry nat
  | OpSetCommitTs
  | OpValidate
  | OpUpdateMaxTs nat
  | OpPushLowerBound nat
  | OpWriteLog
  | OpStatusCommit
  | OpPostCommit
  | OpPostCommitEntry nat
  | OpPostAbort
  | OpPostAbortEntry nat
  | OpReleaseCounter
  | OpReleaseEntry nat
  | OpStatusAbort
  | OpInsert
  | OpUpdate
  | OpUpsert
  | OpDelete
  | OpInitTxn
  | OpReadDs

record op_base =
  ob_move_to_next :: bool
  ob_has_next :: bool

record read_outside_op =
  ro_table :: table_name
  ro_key :: "key option"
  ro_record :: rec_ptr
  ro_is_deleted :: bool
  ro_slot :: nat
  ro_result :: "version_entry list handler_result"

record upload_entry_op =
  ue_slot :: nat
  ue_version_entry :: version_entry
  ue_result :: "int handler_result"

record update_max_op =
  um_slot :: nat
  um_index :: nat
  um_result :: "version_entry handler_result"

record push_op =
  pu_txn_id :: int
  pu_result :: "txn_entry handler_result"

record entry_op =
  en_slot :: nat
  en_result :: "unit handler_result"

record kv_op =
  kv_table :: table_name
  kv_key :: "key option"
  kv_record :: rec_ptr

record read_ds_op =
  rd_table :: table_name
  rd_key :: "key option"
  rd_record :: rec_ptr
  rd_result :: "rec_ptr handler_result"

text \<open>
  The classes with one member that is not a pointer to the sets of the execution: a count of writes
  (\<^verbatim>\<open>Upload\<close>), the slots to process, a result, or the flag the log sets.
\<close>

type_synonym upload_op = nat
type_synonym set_commit_op = "int handler_result"
type_synonym validate_op = "nat list"
type_synonym write_log_op = bool
type_synonym status_commit_op = "unit handler_result"
type_synonym post_commit_op = "nat list"
type_synonym post_abort_op = "nat list"
type_synonym abort_entry_op = entry_op
type_synonym release_op = "nat list"
type_synonym release_entry_op = entry_op
type_synonym status_abort_op = "unit handler_result"
type_synonym init_txn_op = "unit handler_result"

record ops =
  o_base :: "op_ref \<Rightarrow> op_base"
  o_read :: read_outside_op
  o_upload_size :: upload_op
  o_upload_entries :: "upload_entry_op list"
  o_set_commit :: set_commit_op
  o_read_index :: validate_op
  o_update_max :: "update_max_op list"
  o_push :: "push_op list"
  o_log_finished :: write_log_op
  o_status_commit :: status_commit_op
  o_commit_index :: post_commit_op
  o_commit_entries :: "entry_op list"
  o_abort_index :: post_abort_op
  o_abort_entries :: "abort_entry_op list"
  o_release_index :: release_op
  o_release_entries :: "release_entry_op list"
  o_status_abort :: status_abort_op
  o_insert :: kv_op
  o_update :: kv_op
  o_upsert :: kv_op
  o_delete :: kv_op
  o_init :: init_txn_op
  o_read_ds :: read_ds_op

text \<open>
  \<^verbatim>\<open>make_unique\<close> value-initialises an operation object: its flags are false, its numbers 0, and the
  uninitialised members of its \<^verbatim>\<open>HandlerResult\<close> are zero too.
\<close>

definition blank_result :: "'a \<Rightarrow> 'a handler_result" where
  "blank_result x = \<lparr>hr_result = x, hr_finished = False, hr_error = False, hr_ref_cnt = 0\<rparr>"

definition new_upload_entry_op :: upload_entry_op where
  "new_upload_entry_op = \<lparr>ue_slot = 0, ue_version_entry = new_version_entry, ue_result = blank_result 0\<rparr>"

definition new_update_max_op :: update_max_op where
  "new_update_max_op = \<lparr>um_slot = 0, um_index = 0, um_result = blank_result new_version_entry\<rparr>"

definition new_push_op :: push_op where
  "new_push_op = \<lparr>pu_txn_id = 0, pu_result = blank_result new_txn_entry\<rparr>"

definition new_entry_op :: entry_op where
  "new_entry_op = \<lparr>en_slot = 0, en_result = blank_result ()\<rparr>"

definition grow :: "nat \<Rightarrow> 'a \<Rightarrow> 'a list \<Rightarrow> 'a list" where
  "grow n x xs = (if length xs < n then xs @ replicate (n - length xs) x else xs)"

lemma length_grow [simp]: "length (grow n x xs) = max n (length xs)"
  by (auto simp: grow_def)

section \<open>Calls to the storage handler, the data store and the log\<close>

datatype storage_call =
    UploadVersion table_name key version_entry ext_ptr
  | DeleteVersion table_name key int ext_ptr
  | CommitVersion table_name key int int int int int ext_ptr rec_ptr
  | UpdateMaxCommitTsAndReread table_name key int int ext_ptr
  | ReleaseReadCounter table_name key int ext_ptr
  | GetVersionList table_name key int
  | NewTxn txn_entry int int
  | SetCommitTimestamp int int ext_ptr
  | UpdateCommitLowerBound int int
  | UpdateTxnStatus int txn_status ext_ptr
  | ReadRecord table_name "key option"
  | AsyncAppend int nat txn_entry

section \<open>The execution\<close>

record exec = world +
  x_vec :: "op_ref option list"
  x_ls :: local_state
  x_ops :: ops
  x_max_writers :: int
  x_commit_ts :: int
  x_finished :: bool
  x_status :: txn_status
  x_txn_id :: int
  x_txn_entry :: txn_entry
  x_commit_local :: int
  x_type :: int
  x_result :: op_result
  x_current :: "req_id option"
  x_tx_log :: bool
  x_executor_id :: int
  x_trace :: "(op_ref \<times> storage_call) list"

definition kMaxTxnExecutionTimeMS :: int where
  "kMaxTxnExecutionTimeMS = 100000"

text \<open>
  The constructor: members it does not initialise keep whatever \<open>raw\<close> memory held.
\<close>

definition new_exec :: "int \<Rightarrow> bool \<Rightarrow> exec \<Rightarrow> exec" where
  "new_exec executor_id has_log raw = raw
     \<lparr>x_vec := [], x_ls := new_local_state 10,
      x_ops := (x_ops raw)\<lparr>o_base := (\<lambda>_. \<lparr>ob_move_to_next = False, ob_has_next = False\<rparr>),
        o_upload_entries := [], o_update_max := [], o_push := [], o_log_finished := False,
        o_commit_entries := [], o_abort_entries := [], o_release_entries := []\<rparr>,
      x_max_writers := - 1, x_finished := False, x_txn_entry := new_txn_entry,
      x_result := new_result, x_current := None, x_tx_log := has_log,
      x_executor_id := executor_id, x_trace := []\<rparr>"

definition log_call :: "op_ref \<Rightarrow> storage_call \<Rightarrow> exec \<Rightarrow> exec" where
  "log_call r c s = s\<lparr>x_trace := x_trace s @ [(r, c)]\<rparr>"

definition upd_base :: "op_ref \<Rightarrow> (op_base \<Rightarrow> op_base) \<Rightarrow> exec \<Rightarrow> exec" where
  "upd_base r f s = s\<lparr>x_ops := (x_ops s)\<lparr>o_base := (o_base (x_ops s))(r := f (o_base (x_ops s) r))\<rparr>\<rparr>"

definition set_move_to_next :: "op_ref \<Rightarrow> bool \<Rightarrow> exec \<Rightarrow> exec" where
  "set_move_to_next r b = upd_base r (\<lambda>f. f\<lparr>ob_move_to_next := b\<rparr>)"

definition set_has_next :: "op_ref \<Rightarrow> bool \<Rightarrow> exec \<Rightarrow> exec" where
  "set_has_next r b = upd_base r (\<lambda>f. f\<lparr>ob_has_next := b\<rparr>)"

definition move_to_next :: "exec \<Rightarrow> op_ref \<Rightarrow> bool" where
  "move_to_next s r = ob_move_to_next (o_base (x_ops s) r)"

definition has_next :: "exec \<Rightarrow> op_ref \<Rightarrow> bool" where
  "has_next s r = ob_has_next (o_base (x_ops s) r)"

text \<open>\<^verbatim>\<open>WriteLog\<close> hands the write set and the transaction entry to the log.\<close>

definition exec_write_log :: "nat \<Rightarrow> txn_entry \<Rightarrow> exec \<Rightarrow> exec" where
  [simp]: "exec_write_log n entry s = log_call OpWriteLog (AsyncAppend (x_executor_id s) n entry) s"

section \<open>Identity, time and status\<close>

definition exec_get_time :: "exec \<Rightarrow> (int \<times> exec) res" where
  "exec_get_time s = rbind (get_time (w_now s) (w_time s)) (\<lambda>(t, tp). Inr (t, s\<lparr>w_time := tp\<rparr>))"

definition reset_txn_id_and_time :: "exec \<Rightarrow> exec res" where
  "reset_txn_id_and_time s =
     rbind (generate_id (w_ids s)) (\<lambda>(i, g).
     rbind (exec_get_time (s\<lparr>w_ids := g, x_txn_id := i\<rparr>)) (\<lambda>(t, s').
     Inr (s'\<lparr>x_commit_local := t, x_txn_entry := txn_entry_reset i t (x_txn_entry s')\<rparr>)))"

definition reset_time :: "exec \<Rightarrow> exec res" where
  "reset_time s =
     rbind (exec_get_time s) (\<lambda>(t, s').
     Inr (s'\<lparr>x_commit_local := t, x_txn_entry := txn_entry_reset_bound t (x_txn_entry s')\<rparr>))"

definition exec_reset :: "exec \<Rightarrow> exec res" where
  "exec_reset s =
     reset_txn_id_and_time (s\<lparr>x_ls := ls_reset (x_ls s), x_current := None, x_finished := False,
       x_status := Ongoing, x_commit_ts := - 1, x_max_writers := - 1\<rparr>)"

definition enable_log :: "exec \<Rightarrow> bool" where
  "enable_log s = x_tx_log s"

definition set_max_commit_ts_of_writers :: "int \<Rightarrow> exec \<Rightarrow> exec" where
  "set_max_commit_ts_of_writers candidate s = s\<lparr>x_max_writers := max (x_max_writers s) candidate\<rparr>"

definition set_commit_ts :: "int \<Rightarrow> exec \<Rightarrow> exec res" where
  "set_commit_ts candidate s =
     rbind (set_time candidate (w_time s)) (\<lambda>tp. Inr (s\<lparr>x_commit_ts := candidate, w_time := tp\<rparr>))"

definition recover :: "string \<Rightarrow> 'a res" where
  "recover msg = Inl (RuntimeError ''unhandle exception and need to be recovered manually'')"

definition set_finished :: "exec \<Rightarrow> exec" where
  "set_finished s = s\<lparr>x_finished := True\<rparr>"

definition set_txn_status :: "txn_status \<Rightarrow> exec \<Rightarrow> exec" where
  "set_txn_status st s = s\<lparr>x_status := st\<rparr>"

definition exec_prepare_abort :: "exec \<Rightarrow> exec" where
  "exec_prepare_abort s = set_txn_status Aborting s"

definition wait_for_abort :: "exec \<Rightarrow> exec" where
  "wait_for_abort s = set_txn_status WaitForAborting s"

definition is_aborting :: "exec \<Rightarrow> bool" where
  "is_aborting s \<longleftrightarrow> x_status s = Aborting"

definition is_wait_for_aborting :: "exec \<Rightarrow> bool" where
  "is_wait_for_aborting s \<longleftrightarrow> x_status s = WaitForAborting"

definition clean_stack :: "exec \<Rightarrow> exec" where
  "clean_stack s = s\<lparr>x_vec := []\<rparr>"

section \<open>Access to the read and write sets\<close>

abbreviation read_entries :: "exec \<Rightarrow> (set_key \<times> read_set_entry) list" where
  "read_entries s \<equiv> pl_entries (ls_read (x_ls s))"

abbreviation write_entries :: "exec \<Rightarrow> (set_key \<times> write_set_entry) list" where
  "write_entries s \<equiv> pl_entries (ls_write (x_ls s))"

definition read_size :: "exec \<Rightarrow> nat" where
  "read_size s = ls_read_size (x_ls s)"

definition write_size :: "exec \<Rightarrow> nat" where
  "write_size s = ls_write_size (x_ls s)"

definition exec_insert_read_set :: "exec \<Rightarrow> (nat \<times> exec) res" where
  "exec_insert_read_set s = rbind (ls_insert_read_set (x_ls s)) (\<lambda>(i, ls). Inr (i, s\<lparr>x_ls := ls\<rparr>))"

definition exec_insert_write_set ::
    "table_name \<Rightarrow> key \<Rightarrow> int \<Rightarrow> bool \<Rightarrow> rec_ptr \<Rightarrow> nat option \<Rightarrow> exec \<Rightarrow> exec res" where
  "exec_insert_write_set t k version is_deleted rec read_entry s =
     rbind (ls_insert_write_set t k version is_deleted rec read_entry False (x_ls s)) (\<lambda>ls.
     Inr (s\<lparr>x_ls := ls\<rparr>))"

definition exec_find_in_read_set :: "exec \<Rightarrow> table_name \<Rightarrow> key \<Rightarrow> nat option res" where
  "exec_find_in_read_set s t k = ls_find_in_read_set (x_ls s) t k"

definition exec_find_in_write_set :: "exec \<Rightarrow> table_name \<Rightarrow> key \<Rightarrow> nat option res" where
  "exec_find_in_write_set s t k = ls_find_in_write_set (x_ls s) t k"

definition release_read_set :: "exec \<Rightarrow> exec" where
  "release_read_set s = s\<lparr>x_ls := ls_release_read_set (x_ls s)\<rparr>"

definition release_write_set :: "exec \<Rightarrow> exec" where
  "release_write_set s = s\<lparr>x_ls := ls_release_write_set (x_ls s)\<rparr>"

definition upd_read_entry :: "nat \<Rightarrow> (set_key \<times> read_set_entry \<Rightarrow> set_key \<times> read_set_entry) \<Rightarrow> exec \<Rightarrow> exec res" where
  "upd_read_entry i f s =
     rbind (vec_at (read_entries s) i) (\<lambda>e.
     let ls = x_ls s; p = ls_read ls
     in Inr (s\<lparr>x_ls := ls\<lparr>ls_read := p\<lparr>pl_entries := (pl_entries p)[i := f e]\<rparr>\<rparr>\<rparr>))"

definition upd_write_entry :: "nat \<Rightarrow> (set_key \<times> write_set_entry \<Rightarrow> set_key \<times> write_set_entry) \<Rightarrow> exec \<Rightarrow> exec res" where
  "upd_write_entry i f s =
     rbind (vec_at (write_entries s) i) (\<lambda>e.
     let ls = x_ls s; p = ls_write ls
     in Inr (s\<lparr>x_ls := ls\<lparr>ls_write := p\<lparr>pl_entries := (pl_entries p)[i := f e]\<rparr>\<rparr>\<rparr>))"

text \<open>The two dereferences of a \<^verbatim>\<open>SetKey\<close> in a storage call.\<close>

definition slot_key :: "set_key \<Rightarrow> (table_name \<times> key) res" where
  "slot_key sk = rbind (deref (sk_table sk)) (\<lambda>t. rbind (deref (sk_key sk)) (\<lambda>k. Inr (t, k)))"

section \<open>The current request's result\<close>

text \<open>
  \<^verbatim>\<open>GetCurrentRequest()->result_\<close>: the execution's own result once \<^verbatim>\<open>Result::Reset\<close> linked it.
\<close>

definition current_result :: "exec \<Rightarrow> op_result res" where
  "current_result s =
     rbind (deref (x_current s)) (\<lambda>r.
     rbind (deref (w_reqs s r)) (\<lambda>q.
     if rq_result q then Inr (x_result s) else Inl NullDeref))"

definition on_result :: "(op_result \<Rightarrow> exec \<Rightarrow> (op_result \<times> exec) res) \<Rightarrow> exec \<Rightarrow> exec res" where
  "on_result f s =
     rbind (current_result s) (\<lambda>r. rbind (f r s) (\<lambda>(r', s'). Inr (s'\<lparr>x_result := r'\<rparr>)))"

definition on_result_finished :: "exec \<Rightarrow> exec res" where
  "on_result_finished s = rbind (current_result s) (\<lambda>r. result_set_finished r s)"

definition exec_result_reset :: "rec_ptr \<Rightarrow> exec \<Rightarrow> exec res" where
  "exec_result_reset rec s =
     rbind (result_reset rec (x_current s) (x_result s) s) (\<lambda>(r', s'). Inr (s'\<lparr>x_result := r'\<rparr>))"

end
