(* ===== verification/Operations.thy ===== *)
theory Operations
  imports Exec_State
begin

text \<open>
  The operations of \<^verbatim>\<open>src/transaction/transaction-operation.cpp\<close>: for every class its \<^verbatim>\<open>Reset\<close>,
  \<^verbatim>\<open>CallImpl\<close>, \<^verbatim>\<open>NextImpl\<close>, \<^verbatim>\<open>IsFinished\<close> and \<^verbatim>\<open>IsCascadeFinished\<close>, and the base class's \<^verbatim>\<open>Call\<close> and
  \<^verbatim>\<open>Next\<close>.  \<^verbatim>\<open>NextImpl\<close> returns the operation that replaces this one on the stack, or none.  Leaf
  operations talk to the storage handler; composite operations push leaf operations.
\<close>

section \<open>The base class\<close>

definition op_prepare_abort :: "op_ref \<Rightarrow> exec \<Rightarrow> (op_ref option \<times> exec) res" where
  "op_prepare_abort r s = Inr (None, set_has_next r False (wait_for_abort s))"

definition op_abort :: "op_ref \<Rightarrow> exec \<Rightarrow> (op_ref option \<times> exec) res" where
  "op_abort r s = Inr (None, set_has_next r False (exec_prepare_abort s))"

definition op_done :: "op_ref \<Rightarrow> exec \<Rightarrow> (op_ref option \<times> exec) res" where
  "op_done r s = Inr (None, set_has_next r False s)"

definition push_stack :: "op_ref \<Rightarrow> exec \<Rightarrow> exec" where
  "push_stack r s = s\<lparr>x_vec := x_vec s @ [Some r]\<rparr>"

section \<open>ReadOutsideOperation\<close>

definition upd_read_op :: "(read_outside_op \<Rightarrow> read_outside_op) \<Rightarrow> exec \<Rightarrow> exec" where
  "upd_read_op f s = s\<lparr>x_ops := (x_ops s)\<lparr>o_read := f (o_read (x_ops s))\<rparr>\<rparr>"

definition read_outside_reset ::
    "table_name \<Rightarrow> key option \<Rightarrow> rec_ptr \<Rightarrow> bool \<Rightarrow> exec \<Rightarrow> exec res" where
  "read_outside_reset t k rec is_deleted s0 =
     rbind (exec_insert_read_set s0) (\<lambda>(i, s1).
     let ro = o_read (x_ops s1);
         vs0 = hr_result (ro_result ro);
         vs = (if length vs0 = 0 then [new_version_entry, new_version_entry] else vs0);
         s2 = upd_read_op (\<lambda>ro. ro\<lparr>ro_table := t, ro_key := k, ro_record := rec,
                ro_is_deleted := is_deleted, ro_slot := i, ro_result := hr_reset (ro_result ro)\<rparr>) s1
     in rbind (current_result s2) (\<lambda>r.
        rbind (vec_at (read_entries s2) i) (\<lambda>(_, e).
        rbind (upd_read_entry i (\<lambda>(sk, e). (sk, e\<lparr>rs_extension := None\<rparr>)) s2) (\<lambda>s3.
        rbind (vec_at vs 0) (\<lambda>v0.
        rbind (vec_at vs 1) (\<lambda>v1.
        let vs' = vs[0 := version_reset (res_record r) (rs_extension e) v0,
                     1 := version_reset (res_record r) None v1]
        in Inr (upd_read_op (\<lambda>ro. ro\<lparr>ro_result := (ro_result ro)\<lparr>hr_result := vs'\<rparr>\<rparr>) s3)))))))"

definition read_outside_call :: "exec \<Rightarrow> exec res" where
  "read_outside_call s =
     (let ro = o_read (x_ops s)
      in rbind (deref (ro_key ro)) (\<lambda>k.
         Inr (log_call OpReadOutside (GetVersionList (ro_table ro) k (x_commit_local s)) s)))"

definition read_outside_finished :: "exec \<Rightarrow> bool" where
  "read_outside_finished s = hr_finished (ro_result (o_read (x_ops s)))"

definition read_outside_cascade_finished :: "exec \<Rightarrow> bool" where
  "read_outside_cascade_finished s \<longleftrightarrow> read_outside_finished s \<and> move_to_next s OpReadOutside"

text \<open>The result is which of the two arguments is visible, if any.\<close>

definition internal_pick_visible :: "version_entry \<Rightarrow> version_entry \<Rightarrow> bool option res" where
  "internal_pick_visible v1 v2 =
     rbind (rassert (ve_version v1 > ve_version v2)) (\<lambda>_.
     rbind (if ve_end_ts v1 \<noteq> kDefaultEndTs then Inr (Some True)
            else if ve_version v2 \<noteq> kDefaultVersion then
              rbind (rassert (ve_begin_ts v2 \<noteq> kDefaultBeginTs)) (\<lambda>_. Inr (Some False))
            else Inr None) (\<lambda>result.
     case result of
       None \<Rightarrow> Inr None
     | Some first \<Rightarrow>
         let v = (if first then v1 else v2)
         in if \<not> ve_is_deleted v \<or> ve_version v > 0 then Inr (Some first) else Inr None))"

text \<open>The result is the index of the visible version in the list.\<close>

definition pick_visible_version :: "version_entry list \<Rightarrow> nat option res" where
  "pick_visible_version version_list =
     rbind (rassert (length version_list = 2)) (\<lambda>_.
     let v0 = version_list ! 0; v1 = version_list ! 1
     in if ve_version v0 > ve_version v1 then
          rbind (internal_pick_visible v0 v1) (\<lambda>r. Inr (map_option (\<lambda>first. if first then 0 else 1) r))
        else if ve_version v0 < ve_version v1 then
          rbind (internal_pick_visible v1 v0) (\<lambda>r. Inr (map_option (\<lambda>first. if first then 1 else 0) r))
        else Inr None)"

definition take_extension :: "nat \<Rightarrow> exec \<Rightarrow> exec" where
  "take_extension j = upd_read_op (\<lambda>ro. ro\<lparr>ro_result := (ro_result ro)\<lparr>hr_result :=
     (hr_result (ro_result ro))[j := (hr_result (ro_result ro) ! j)\<lparr>ve_extension := None\<rparr>]\<rparr>\<rparr>)"

definition internal_read :: "exec \<Rightarrow> exec res" where
  "internal_read s =
     (let ro = o_read (x_ops s); vs = hr_result (ro_result ro); i = ro_slot ro
      in rbind (pick_visible_version vs) (\<lambda>visible.
         rbind (deref (ro_key ro)) (\<lambda>k.
         case visible of
           Some j \<Rightarrow>
             let v = vs ! j in
             rbind (upd_read_entry i (\<lambda>(sk, e).
               (set_key_reset (ro_table ro) k sk,
                read_entry_reset (ve_version v) (ve_tx_id v) (ve_begin_ts v) (ve_end_ts v)
                  (ve_is_deleted v) (ve_read_record v) (ve_extension v) e)) (take_extension j s)) (\<lambda>s1.
             if ve_is_deleted v then on_result result_set_deleted s1
             else on_result (result_set_record (ve_read_record v)) s1)
         | None \<Rightarrow>
             rbind (vec_at vs 0) (\<lambda>v.
             rbind (upd_read_entry i (\<lambda>(sk, e).
               (set_key_reset (ro_table ro) k sk,
                read_entry_reset 0 kEmptyTxId 0 kMaxTimeStamp True None (ve_extension v) e))
               (take_extension 0 s)) (\<lambda>s1.
             on_result result_set_null s1)))))"

definition read_outside_next :: "exec \<Rightarrow> (op_ref option \<times> exec) res" where
  "read_outside_next s =
     rbind (if hr_error (ro_result (o_read (x_ops s)))
            then let ro = o_read (x_ops s) in
              rbind (vec_at (hr_result (ro_result ro)) 0) (\<lambda>v.
              rbind (upd_read_entry (ro_slot ro) (\<lambda>(sk, e). (sk, e\<lparr>rs_extension := ve_extension v\<rparr>))
                (take_extension 0 s)) (\<lambda>s1.
              on_result result_set_error (release_read_set s1)))
            else internal_read s) (\<lambda>s2.
     op_done OpReadOutside s2)"

section \<open>UploadVersionEntry\<close>

definition upd_upload_entry :: "nat \<Rightarrow> (upload_entry_op \<Rightarrow> upload_entry_op) \<Rightarrow> exec \<Rightarrow> exec res" where
  "upd_upload_entry i f s =
     rbind (vec_at (o_upload_entries (x_ops s)) i) (\<lambda>u.
     Inr (s\<lparr>x_ops := (x_ops s)\<lparr>o_upload_entries := (o_upload_entries (x_ops s))[i := f u]\<rparr>\<rparr>))"

definition upload_entry_reset :: "nat \<Rightarrow> nat \<Rightarrow> exec \<Rightarrow> exec res" where
  "upload_entry_reset i slot s =
     rbind (vec_at (write_entries s) slot) (\<lambda>(sk, w).
     rbind (upd_write_entry slot (\<lambda>(sk, w). (sk, w\<lparr>ws_extension := None\<rparr>)) s) (\<lambda>s1.
     upd_upload_entry i (\<lambda>u. u\<lparr>ue_slot := slot, ue_result := hr_reset (ue_result u),
       ue_version_entry := version_reset_to (ws_version w) (x_txn_id s) kDefaultBeginTs kDefaultEndTs 0
         (ws_is_deleted w) None None (ws_extension w) (ue_version_entry u)\<rparr>) s1))"

definition upload_entry_call :: "nat \<Rightarrow> exec \<Rightarrow> exec res" where
  "upload_entry_call i s =
     rbind (vec_at (o_upload_entries (x_ops s)) i) (\<lambda>u.
     rbind (vec_at (write_entries s) (ue_slot u)) (\<lambda>(sk, w).
     rbind (slot_key sk) (\<lambda>(t, k).
     rbind (deref (ws_read_entry w)) (\<lambda>j.
     rbind (vec_at (read_entries s) j) (\<lambda>(_, e).
     Inr (log_call (OpUploadEntry i) (UploadVersion t k (ue_version_entry u) (rs_extension e)) s))))))"

definition upload_entry_finished :: "nat \<Rightarrow> exec \<Rightarrow> bool res" where
  "upload_entry_finished i s =
     rbind (vec_at (o_upload_entries (x_ops s)) i) (\<lambda>u. Inr (hr_finished (ue_result u)))"

definition upload_entry_next :: "nat \<Rightarrow> exec \<Rightarrow> (op_ref option \<times> exec) res" where
  "upload_entry_next i s0 =
     rbind (vec_at (o_upload_entries (x_ops s0)) i) (\<lambda>u.
     rbind (upd_write_entry (ue_slot u) (\<lambda>(sk, w).
       (sk, w\<lparr>ws_extension := ve_extension (ue_version_entry u)\<rparr>)) s0) (\<lambda>s1.
     rbind (upd_upload_entry i (\<lambda>u. u\<lparr>ue_version_entry := (ue_version_entry u)\<lparr>ve_extension := None\<rparr>\<rparr>) s1) (\<lambda>s.
     if hr_error (ue_result u) then op_prepare_abort (OpUploadEntry i) s
     else
       rbind (upd_write_entry (ue_slot u) (\<lambda>(sk, w). (sk, w\<lparr>ws_need_post_processing := True\<rparr>)) s) (\<lambda>s2.
       op_done (OpUploadEntry i) (set_max_commit_ts_of_writers (hr_result (ue_result u)) s2)))))"

section \<open>SetCommitTsOperation\<close>

definition set_commit_reset :: "exec \<Rightarrow> exec" where
  "set_commit_reset s = s\<lparr>x_ops := (x_ops s)\<lparr>o_set_commit := hr_reset (o_set_commit (x_ops s))\<rparr>\<rparr>"

text \<open>The loop over the read set: one step of the maximum for slot \<open>i\<close>.\<close>

definition propose_step :: "exec \<Rightarrow> nat \<Rightarrow> int \<Rightarrow> int res" where
  "propose_step s i proposed =
     rbind (vec_at (read_entries s) i) (\<lambda>(sk, e).
     rbind (slot_key sk) (\<lambda>(t, k).
     rbind (exec_find_in_write_set s t k) (\<lambda>w.
     if w \<noteq> None
     then rbind (i64_add (rs_begin_ts e) 1) (\<lambda>b. Inr (max proposed b))
     else Inr (max proposed (rs_begin_ts e)))))"

definition proposed_commit_ts :: "exec \<Rightarrow> int res" where
  "proposed_commit_ts s =
     rbind (i64_add (x_max_writers s) 1) (\<lambda>m.
     rfold (propose_step s) [0..<read_size s] (max m (x_commit_local s)))"

definition set_commit_call :: "exec \<Rightarrow> exec res" where
  "set_commit_call s =
     rbind (reset_time s) (\<lambda>s1.
     rbind (proposed_commit_ts s1) (\<lambda>proposed.
     rbind (set_commit_ts proposed s1) (\<lambda>s2.
     Inr (log_call OpSetCommitTs
       (SetCommitTimestamp (x_txn_id s2) proposed (te_extension (x_txn_entry s2))) s2))))"

definition validate_reset :: "exec \<Rightarrow> exec res" where
  "validate_reset s =
     rbind (rfold (\<lambda>i is. rbind (vec_at (read_entries s) i) (\<lambda>(_, e).
              Inr (if \<not> rs_is_updated e then is @ [i] else is))) [0..<read_size s] []) (\<lambda>is.
     Inr (s\<lparr>x_ops := (x_ops s)\<lparr>o_read_index := is\<rparr>\<rparr>))"

definition set_commit_next :: "exec \<Rightarrow> (op_ref option \<times> exec) res" where
  "set_commit_next s =
     (let r = o_set_commit (x_ops s)
      in if hr_error r then op_abort OpSetCommitTs s
         else let commit_time = hr_result r
              in if commit_time < 0 then op_abort OpSetCommitTs s
                 else rbind (set_commit_ts commit_time s) (\<lambda>s1.
                      rbind (validate_reset s1) (\<lambda>s2.
                      Inr (Some OpValidate, s2))))"

section \<open>UpdateReadEntryMaxCommitTs and PushConflictTxnCommitTsLowerBound\<close>

definition upd_update_max :: "nat \<Rightarrow> (update_max_op \<Rightarrow> update_max_op) \<Rightarrow> exec \<Rightarrow> exec res" where
  "upd_update_max i f s =
     rbind (vec_at (o_update_max (x_ops s)) i) (\<lambda>u.
     Inr (s\<lparr>x_ops := (x_ops s)\<lparr>o_update_max := (o_update_max (x_ops s))[i := f u]\<rparr>\<rparr>))"

definition upd_push :: "nat \<Rightarrow> (push_op \<Rightarrow> push_op) \<Rightarrow> exec \<Rightarrow> exec res" where
  "upd_push i f s =
     rbind (vec_at (o_push (x_ops s)) i) (\<lambda>u.
     Inr (s\<lparr>x_ops := (x_ops s)\<lparr>o_push := (o_push (x_ops s))[i := f u]\<rparr>\<rparr>))"

definition update_max_reset :: "nat \<Rightarrow> nat \<Rightarrow> nat \<Rightarrow> exec \<Rightarrow> exec res" where
  "update_max_reset i slot index =
     upd_update_max i (\<lambda>u. u\<lparr>um_slot := slot, um_result := hr_reset (um_result u), um_index := index\<rparr>)"

definition update_max_call :: "nat \<Rightarrow> exec \<Rightarrow> exec res" where
  "update_max_call i s =
     rbind (vec_at (o_update_max (x_ops s)) i) (\<lambda>u.
     rbind (vec_at (read_entries s) (um_slot u)) (\<lambda>(sk, e).
     rbind (slot_key sk) (\<lambda>(t, k).
     Inr (log_call (OpUpdateMaxTs i)
       (UpdateMaxCommitTsAndReread t k (rs_version e) (x_commit_ts s) (rs_extension e)) s))))"

definition push_reset :: "nat \<Rightarrow> int \<Rightarrow> exec \<Rightarrow> exec res" where
  "push_reset i txn_id = upd_push i (\<lambda>u. u\<lparr>pu_result := hr_reset (pu_result u), pu_txn_id := txn_id\<rparr>)"

definition push_call :: "nat \<Rightarrow> exec \<Rightarrow> exec res" where
  "push_call i s =
     rbind (vec_at (o_push (x_ops s)) i) (\<lambda>u.
     rbind (i64_add (x_commit_ts s) 1) (\<lambda>b.
     Inr (log_call (OpPushLowerBound i) (UpdateCommitLowerBound (pu_txn_id u) b) s)))"

definition push_finished :: "nat \<Rightarrow> exec \<Rightarrow> bool res" where
  "push_finished i s = rbind (vec_at (o_push (x_ops s)) i) (\<lambda>u. Inr (hr_finished (pu_result u)))"

definition push_cascade_finished :: "nat \<Rightarrow> exec \<Rightarrow> bool res" where
  "push_cascade_finished i s =
     rbind (push_finished i s) (\<lambda>b. Inr (b \<and> move_to_next s (OpPushLowerBound i)))"

definition update_max_finished :: "nat \<Rightarrow> exec \<Rightarrow> bool res" where
  "update_max_finished i s =
     rbind (vec_at (o_update_max (x_ops s)) i) (\<lambda>u. Inr (hr_finished (um_result u)))"

definition update_max_cascade_finished :: "nat \<Rightarrow> exec \<Rightarrow> bool res" where
  "update_max_cascade_finished i s =
     rbind (update_max_finished i s) (\<lambda>b.
     if \<not> b \<or> \<not> move_to_next s (OpUpdateMaxTs i) then Inr False
     else if has_next s (OpUpdateMaxTs i) then
       rbind (vec_at (o_update_max (x_ops s)) i) (\<lambda>u. push_cascade_finished (um_index u) s)
     else Inr True)"

definition update_max_next :: "nat \<Rightarrow> exec \<Rightarrow> (op_ref option \<times> exec) res" where
  "update_max_next i s =
     rbind (vec_at (o_update_max (x_ops s)) i) (\<lambda>u.
     if hr_error (um_result u) then op_prepare_abort (OpUpdateMaxTs i) s
     else
       rbind (upd_read_entry (um_slot u) (\<lambda>(sk, e). (sk, e\<lparr>rs_need_release := False\<rparr>)) s) (\<lambda>s1.
       let v = hr_result (um_result u) in
       if ve_version v = kDefaultVersion then op_prepare_abort (OpUpdateMaxTs i) s1
       else
         rbind (rassert (ve_max_commit_ts v \<ge> x_commit_ts s1)) (\<lambda>_.
         if x_commit_ts s1 > ve_end_ts v then op_prepare_abort (OpUpdateMaxTs i) s1
         else if ve_tx_id v \<noteq> kEmptyTxId then
           rbind (push_reset (um_index u) (ve_tx_id v) s1) (\<lambda>s2.
           Inr (Some (OpPushLowerBound (um_index u)), s2))
         else op_done (OpUpdateMaxTs i) s1)))"

definition push_conflicts :: "int \<Rightarrow> txn_entry \<Rightarrow> bool" where
  "push_conflicts commit_ts te \<longleftrightarrow>
     te_status te = Committed \<and> te_commit_ts te \<le> commit_ts \<or>
     te_status te = Ongoing \<and> (te_commit_ts te \<noteq> kDefaultCommitTs \<and> te_commit_ts te \<le> commit_ts)"

definition push_next :: "nat \<Rightarrow> exec \<Rightarrow> (op_ref option \<times> exec) res" where
  "push_next i s =
     rbind (vec_at (o_push (x_ops s)) i) (\<lambda>u.
     if hr_error (pu_result u) then op_prepare_abort (OpPushLowerBound i) s
     else if push_conflicts (x_commit_ts s) (hr_result (pu_result u))
       then op_prepare_abort (OpPushLowerBound i) s
     else op_done (OpPushLowerBound i) s)"

section \<open>WriteToLog\<close>

definition write_log_reset :: "exec \<Rightarrow> exec" where
  "write_log_reset s = s\<lparr>x_ops := (x_ops s)\<lparr>o_log_finished := False\<rparr>\<rparr>"

text \<open>\<open>enable\<close> is \<^verbatim>\<open>Constant::ENABLE_LOG\<close>.\<close>

definition write_log_call_at :: "bool \<Rightarrow> exec \<Rightarrow> exec res" where
  "write_log_call_at enable s =
     (if write_size s = 0 \<or> \<not> enable \<or> \<not> enable_log s
      then Inr (s\<lparr>x_ops := (x_ops s)\<lparr>o_log_finished := True\<rparr>\<rparr>)
      else let s1 = s\<lparr>x_txn_entry := (x_txn_entry s)\<lparr>te_commit_ts := x_commit_ts s\<rparr>\<rparr>
           in Inr (exec_write_log (write_size s1) (x_txn_entry s1) s1))"

definition write_log_call :: "exec \<Rightarrow> exec res" where
  "write_log_call = write_log_call_at ENABLE_LOG"

definition status_commit_reset :: "exec \<Rightarrow> exec" where
  "status_commit_reset s =
     s\<lparr>x_ops := (x_ops s)\<lparr>o_status_commit := hr_reset (o_status_commit (x_ops s))\<rparr>\<rparr>"

definition write_log_next :: "exec \<Rightarrow> (op_ref option \<times> exec) res" where
  "write_log_next s = Inr (Some OpStatusCommit, status_commit_reset s)"

definition validate_next :: "exec \<Rightarrow> (op_ref option \<times> exec) res" where
  "validate_next s =
     (if is_wait_for_aborting s then op_abort OpValidate s
      else Inr (Some OpWriteLog, write_log_reset s))"

section \<open>UpdateTxnStatusToCommit\<close>

definition status_commit_call :: "exec \<Rightarrow> exec res" where
  "status_commit_call s =
     Inr (log_call OpStatusCommit (UpdateTxnStatus (x_txn_id s) Committed (te_extension (x_txn_entry s))) s)"

text \<open>The slots whose entry still needs post processing: the loop both post-processing classes run.\<close>

definition post_process_slots :: "exec \<Rightarrow> nat list res" where
  "post_process_slots s =
     rfold (\<lambda>i is. rbind (vec_at (write_entries s) i) (\<lambda>(_, w).
       Inr (if ws_need_post_processing w then is @ [i] else is))) [0..<write_size s] []"

definition post_commit_reset :: "exec \<Rightarrow> exec res" where
  "post_commit_reset s =
     rbind (post_process_slots s) (\<lambda>is. Inr (s\<lparr>x_ops := (x_ops s)\<lparr>o_commit_index := is\<rparr>\<rparr>))"

definition status_commit_next :: "exec \<Rightarrow> (op_ref option \<times> exec) res" where
  "status_commit_next s =
     (if hr_error (o_status_commit (x_ops s)) then recover ''Update Txn Commit Fail!''
      else rbind (on_result (result_set_status Committed) s) (\<lambda>s1.
           rbind (post_commit_reset s1) (\<lambda>s2.
           Inr (Some OpPostCommit, s2))))"

section \<open>PostProcessingAfterCommit and its entries\<close>

definition post_commit_next :: "exec \<Rightarrow> (op_ref option \<times> exec) res" where
  "post_commit_next s = op_done OpPostCommit (set_finished (set_txn_status Committed s))"

definition upd_commit_entry :: "nat \<Rightarrow> (entry_op \<Rightarrow> entry_op) \<Rightarrow> exec \<Rightarrow> exec res" where
  "upd_commit_entry i f s =
     rbind (vec_at (o_commit_entries (x_ops s)) i) (\<lambda>u.
     Inr (s\<lparr>x_ops := (x_ops s)\<lparr>o_commit_entries := (o_commit_entries (x_ops s))[i := f u]\<rparr>\<rparr>))"

definition commit_entry_reset :: "nat \<Rightarrow> nat \<Rightarrow> exec \<Rightarrow> exec res" where
  "commit_entry_reset i slot =
     upd_commit_entry i (\<lambda>u. u\<lparr>en_slot := slot, en_result := (hr_reset (en_result u))\<lparr>hr_ref_cnt := 2\<rparr>\<rparr>)"

definition commit_entry_call :: "nat \<Rightarrow> exec \<Rightarrow> exec res" where
  "commit_entry_call i s =
     rbind (vec_at (o_commit_entries (x_ops s)) i) (\<lambda>u.
     rbind (vec_at (write_entries s) (en_slot u)) (\<lambda>(sk, w).
     rbind (slot_key sk) (\<lambda>(t, k).
     Inr (log_call (OpPostCommitEntry i)
       (CommitVersion t k (ws_version w) (x_txn_id s) (x_commit_ts s) kMaxTimeStamp kEmptyTxId
         (ws_extension w) (ws_record w)) s))))"

definition commit_entry_finished :: "nat \<Rightarrow> exec \<Rightarrow> bool res" where
  "commit_entry_finished i s =
     rbind (vec_at (o_commit_entries (x_ops s)) i) (\<lambda>u. Inr (hr_ref_cnt (en_result u) = 0))"

definition commit_entry_next :: "nat \<Rightarrow> exec \<Rightarrow> (op_ref option \<times> exec) res" where
  "commit_entry_next i s =
     rbind (vec_at (o_commit_entries (x_ops s)) i) (\<lambda>u.
     if hr_error (en_result u) then recover ''Replace Entry Commit Fail!''
     else
       rbind (vec_at (write_entries s) (en_slot u)) (\<lambda>(_, w).
       rbind (deref (ws_read_entry w)) (\<lambda>j.
       rbind (upd_read_entry j (\<lambda>(sk, e). (sk, e\<lparr>rs_need_release := False\<rparr>)) s) (\<lambda>s1.
       op_done (OpPostCommitEntry i) s1))))"

section \<open>PostProcessingAfterAbort and its entries\<close>

definition post_abort_reset :: "exec \<Rightarrow> exec res" where
  "post_abort_reset s =
     rbind (post_process_slots s) (\<lambda>is. Inr (s\<lparr>x_ops := (x_ops s)\<lparr>o_abort_index := is\<rparr>\<rparr>))"

definition upd_abort_entry :: "nat \<Rightarrow> (entry_op \<Rightarrow> entry_op) \<Rightarrow> exec \<Rightarrow> exec res" where
  "upd_abort_entry i f s =
     rbind (vec_at (o_abort_entries (x_ops s)) i) (\<lambda>u.
     Inr (s\<lparr>x_ops := (x_ops s)\<lparr>o_abort_entries := (o_abort_entries (x_ops s))[i := f u]\<rparr>\<rparr>))"

definition abort_entry_reset :: "nat \<Rightarrow> nat \<Rightarrow> exec \<Rightarrow> exec res" where
  "abort_entry_reset i slot =
     upd_abort_entry i (\<lambda>u. u\<lparr>en_slot := slot, en_result := hr_reset (en_result u)\<rparr>)"

definition abort_entry_call :: "nat \<Rightarrow> exec \<Rightarrow> exec res" where
  "abort_entry_call i s =
     rbind (vec_at (o_abort_entries (x_ops s)) i) (\<lambda>u.
     rbind (vec_at (write_entries s) (en_slot u)) (\<lambda>(sk, w).
     rbind (slot_key sk) (\<lambda>(t, k).
     Inr (log_call (OpPostAbortEntry i) (DeleteVersion t k (ws_version w) (ws_extension w)) s))))"

definition abort_entry_finished :: "nat \<Rightarrow> exec \<Rightarrow> bool res" where
  "abort_entry_finished i s =
     rbind (vec_at (o_abort_entries (x_ops s)) i) (\<lambda>u. Inr (hr_finished (en_result u)))"

definition abort_entry_next :: "nat \<Rightarrow> exec \<Rightarrow> (op_ref option \<times> exec) res" where
  "abort_entry_next i s =
     rbind (vec_at (o_abort_entries (x_ops s)) i) (\<lambda>u.
     if hr_error (en_result u) then recover ''Delete Version Abort Fail!''
     else
       rbind (vec_at (write_entries s) (en_slot u)) (\<lambda>(_, w).
       rbind (case ws_read_entry w of
                None \<Rightarrow> Inr s
              | Some j \<Rightarrow> rbind (vec_at (read_entries s) j) (\<lambda>(_, e).
                  if rs_need_post_processing e
                  then upd_read_entry j (\<lambda>(sk, e). (sk, e\<lparr>rs_need_release := False\<rparr>)) s
                  else Inr s)) (\<lambda>s1.
       op_done (OpPostAbortEntry i) s1)))"

section \<open>ReleaseReadCounter and its entries\<close>

definition release_reset :: "exec \<Rightarrow> exec res" where
  "release_reset s =
     rbind (rfold (\<lambda>i is. rbind (vec_at (read_entries s) i) (\<lambda>(_, e).
              Inr (if rs_need_release e then is @ [i] else is))) [0..<read_size s] []) (\<lambda>is.
     Inr (s\<lparr>x_ops := (x_ops s)\<lparr>o_release_index := is\<rparr>\<rparr>))"

definition post_abort_next :: "exec \<Rightarrow> (op_ref option \<times> exec) res" where
  "post_abort_next s = rbind (release_reset s) (\<lambda>s1. Inr (Some OpReleaseCounter, s1))"

definition release_next :: "exec \<Rightarrow> (op_ref option \<times> exec) res" where
  "release_next s = op_done OpReleaseCounter (set_finished (set_txn_status Aborted s))"

definition upd_release_entry :: "nat \<Rightarrow> (entry_op \<Rightarrow> entry_op) \<Rightarrow> exec \<Rightarrow> exec res" where
  "upd_release_entry i f s =
     rbind (vec_at (o_release_entries (x_ops s)) i) (\<lambda>u.
     Inr (s\<lparr>x_ops := (x_ops s)\<lparr>o_release_entries := (o_release_entries (x_ops s))[i := f u]\<rparr>\<rparr>))"

definition release_entry_reset :: "nat \<Rightarrow> nat \<Rightarrow> exec \<Rightarrow> exec res" where
  "release_entry_reset i slot =
     upd_release_entry i (\<lambda>u. u\<lparr>en_slot := slot, en_result := hr_reset (en_result u)\<rparr>)"

definition release_entry_call :: "nat \<Rightarrow> exec \<Rightarrow> exec res" where
  "release_entry_call i s =
     rbind (vec_at (o_release_entries (x_ops s)) i) (\<lambda>u.
     rbind (vec_at (read_entries s) (en_slot u)) (\<lambda>(sk, e).
     rbind (slot_key sk) (\<lambda>(t, k).
     Inr (log_call (OpReleaseEntry i) (ReleaseReadCounter t k (rs_version e) (rs_extension e)) s))))"

definition release_entry_finished :: "nat \<Rightarrow> exec \<Rightarrow> bool res" where
  "release_entry_finished i s =
     rbind (vec_at (o_release_entries (x_ops s)) i) (\<lambda>u. Inr (hr_finished (en_result u)))"

definition release_entry_next :: "nat \<Rightarrow> exec \<Rightarrow> (op_ref option \<times> exec) res" where
  "release_entry_next i s =
     rbind (vec_at (o_release_entries (x_ops s)) i) (\<lambda>u.
     if hr_error (en_result u) then recover ''Release Counter Fail!''
     else
       rbind (upd_read_entry (en_slot u) (\<lambda>(sk, e). (sk, e\<lparr>rs_need_release := False\<rparr>)) s) (\<lambda>s1.
       op_done (OpReleaseEntry i) s1))"

section \<open>UpdateTxnStatusToAbort\<close>

definition status_abort_reset :: "exec \<Rightarrow> exec" where
  "status_abort_reset s =
     s\<lparr>x_ops := (x_ops s)\<lparr>o_status_abort := hr_reset (o_status_abort (x_ops s))\<rparr>\<rparr>"

definition status_abort_call :: "exec \<Rightarrow> exec res" where
  "status_abort_call s =
     Inr (log_call OpStatusAbort (UpdateTxnStatus (x_txn_id s) Aborted (te_extension (x_txn_entry s))) s)"

definition status_abort_next :: "exec \<Rightarrow> (op_ref option \<times> exec) res" where
  "status_abort_next s =
     (if hr_error (o_status_abort (x_ops s)) then recover ''Update Status Abort Fail!''
      else rbind (on_result (result_set_status Aborted) s) (\<lambda>s1.
           rbind (post_abort_reset s1) (\<lambda>s2.
           Inr (Some OpPostAbort, s2))))"

end
