(* ===== verification/Execution.thy ===== *)
theory Execution
  imports Operations
begin

text \<open>
  Composite operations, the operations of client requests, the virtual dispatch over all operations,
  and the engine \<^verbatim>\<open>TransactionExecution::MoveForward\<close> with the request entry points
  (\<^verbatim>\<open>transaction-operation.cpp\<close>, \<^verbatim>\<open>transaction-execution.cpp\<close>).

  \<^verbatim>\<open>Invoke\<close> pushes the operation on \<^verbatim>\<open>operation_vector_\<close> and calls it; the parameter
  \<^verbatim>\<open>run_current_operation\<close> is never read by the code and left out.
\<close>

section \<open>Composite operations\<close>

definition invoke :: "op_ref \<Rightarrow> (exec \<Rightarrow> exec res) \<Rightarrow> exec \<Rightarrow> exec res" where
  "invoke r impl s = impl (set_move_to_next r False (push_stack r s))"

definition upload_reset :: "exec \<Rightarrow> exec" where
  "upload_reset s = s\<lparr>x_ops := (x_ops s)\<lparr>o_upload_size := write_size s\<rparr>\<rparr>"

definition upload_call :: "exec \<Rightarrow> exec res" where
  "upload_call s =
     (let n = o_upload_size (x_ops s);
          s1 = s\<lparr>x_ops := (x_ops s)\<lparr>o_upload_entries := grow n new_upload_entry_op (o_upload_entries (x_ops s))\<rparr>\<rparr>
      in rfold (\<lambda>i u. rbind (upload_entry_reset i i u) (invoke (OpUploadEntry i) (upload_entry_call i)))
           [0..<n] s1)"

definition upload_entry_cascade_finished :: "exec \<Rightarrow> nat \<Rightarrow> bool res" where
  "upload_entry_cascade_finished s i =
     rbind (upload_entry_finished i s) (\<lambda>b. Inr (b \<and> move_to_next s (OpUploadEntry i)))"

definition upload_finished :: "exec \<Rightarrow> bool res" where
  "upload_finished s = rall (upload_entry_cascade_finished s) [0..<o_upload_size (x_ops s)]"

definition upload_next :: "exec \<Rightarrow> (op_ref option \<times> exec) res" where
  "upload_next s =
     (if is_wait_for_aborting s then op_abort OpUpload s
      else Inr (Some OpSetCommitTs, set_commit_reset s))"

definition validate_call :: "exec \<Rightarrow> exec res" where
  "validate_call s =
     (let is = o_read_index (x_ops s); n = length is;
          s1 = s\<lparr>x_ops := (x_ops s)\<lparr>o_update_max := grow n new_update_max_op (o_update_max (x_ops s)),
                                    o_push := grow n new_push_op (o_push (x_ops s))\<rparr>\<rparr>
      in rfold (\<lambda>i u. rbind (update_max_reset i (is ! i) i u) (invoke (OpUpdateMaxTs i) (update_max_call i)))
           [0..<n] s1)"

definition validate_finished :: "exec \<Rightarrow> bool res" where
  "validate_finished s =
     rall (\<lambda>i. update_max_cascade_finished i s) [0..<length (o_read_index (x_ops s))]"

definition post_commit_call :: "exec \<Rightarrow> exec res" where
  "post_commit_call s =
     (let is = o_commit_index (x_ops s); n = length is;
          s1 = s\<lparr>x_ops := (x_ops s)\<lparr>o_commit_entries := grow n new_entry_op (o_commit_entries (x_ops s))\<rparr>\<rparr>
      in rfold (\<lambda>i u. rbind (commit_entry_reset i (is ! i) u) (invoke (OpPostCommitEntry i) (commit_entry_call i)))
           [0..<n] s1)"

definition commit_entry_cascade_finished :: "exec \<Rightarrow> nat \<Rightarrow> bool res" where
  "commit_entry_cascade_finished s i =
     rbind (commit_entry_finished i s) (\<lambda>b. Inr (b \<and> move_to_next s (OpPostCommitEntry i)))"

definition post_commit_finished :: "exec \<Rightarrow> bool res" where
  "post_commit_finished s =
     rall (commit_entry_cascade_finished s) [0..<length (o_commit_index (x_ops s))]"

definition post_abort_call :: "exec \<Rightarrow> exec res" where
  "post_abort_call s =
     (let is = o_abort_index (x_ops s); n = length is;
          s1 = s\<lparr>x_ops := (x_ops s)\<lparr>o_abort_entries := grow n new_entry_op (o_abort_entries (x_ops s))\<rparr>\<rparr>
      in rfold (\<lambda>i u. rbind (abort_entry_reset i (is ! i) u) (invoke (OpPostAbortEntry i) (abort_entry_call i)))
           [0..<n] s1)"

definition abort_entry_cascade_finished :: "exec \<Rightarrow> nat \<Rightarrow> bool res" where
  "abort_entry_cascade_finished s i =
     rbind (abort_entry_finished i s) (\<lambda>b. Inr (b \<and> move_to_next s (OpPostAbortEntry i)))"

definition post_abort_finished :: "exec \<Rightarrow> bool res" where
  "post_abort_finished s =
     rall (abort_entry_cascade_finished s) [0..<length (o_abort_index (x_ops s))]"

definition release_call :: "exec \<Rightarrow> exec res" where
  "release_call s =
     (let is = o_release_index (x_ops s); n = length is;
          s1 = s\<lparr>x_ops := (x_ops s)\<lparr>o_release_entries := grow n new_entry_op (o_release_entries (x_ops s))\<rparr>\<rparr>
      in rfold (\<lambda>i u. rbind (release_entry_reset i (is ! i) u) (invoke (OpReleaseEntry i) (release_entry_call i)))
           [0..<n] s1)"

definition release_entry_cascade_finished :: "exec \<Rightarrow> nat \<Rightarrow> bool res" where
  "release_entry_cascade_finished s i =
     rbind (release_entry_finished i s) (\<lambda>b. Inr (b \<and> move_to_next s (OpReleaseEntry i)))"

definition release_finished :: "exec \<Rightarrow> bool res" where
  "release_finished s =
     rall (release_entry_cascade_finished s) [0..<length (o_release_index (x_ops s))]"

section \<open>Insert, upsert, update, delete\<close>

definition kv_reset :: "table_name \<Rightarrow> key option \<Rightarrow> rec_ptr \<Rightarrow> kv_op" where
  "kv_reset t k rec = \<lparr>kv_table = t, kv_key = k, kv_record = rec\<rparr>"

definition insert_reset :: "table_name \<Rightarrow> key option \<Rightarrow> rec_ptr \<Rightarrow> exec \<Rightarrow> exec" where
  "insert_reset t k rec s = s\<lparr>x_ops := (x_ops s)\<lparr>o_insert := kv_reset t k rec\<rparr>\<rparr>"

definition insert_call :: "exec \<Rightarrow> exec res" where
  "insert_call s =
     (let a = o_insert (x_ops s)
      in rbind (read_outside_reset (kv_table a) (kv_key a) (kv_record a) True s)
           (invoke OpReadOutside read_outside_call))"

text \<open>Record a write over read entry \<open>j\<close>: the next version, the entry marked updated.\<close>

definition write_over :: "nat \<Rightarrow> table_name \<Rightarrow> key \<Rightarrow> bool \<Rightarrow> rec_ptr \<Rightarrow> exec \<Rightarrow> exec res" where
  "write_over j t k is_deleted rec s =
     rbind (vec_at (read_entries s) j) (\<lambda>(_, e).
     rbind (i64_add (rs_version e) 1) (\<lambda>version_key.
     rbind (upd_read_entry j (\<lambda>(sk, e). (sk, e\<lparr>rs_is_updated := True\<rparr>)) s) (\<lambda>s1.
     rbind (exec_insert_write_set t k version_key is_deleted rec (Some j) s1)
       on_result_finished)))"

definition insert_next :: "exec \<Rightarrow> (op_ref option \<times> exec) res" where
  "insert_next s =
     (let a = o_insert (x_ops s)
      in rbind (deref (kv_key a)) (\<lambda>k.
         rbind (exec_find_in_read_set s (kv_table a) k) (\<lambda>read_entry.
         rbind (case read_entry of
             None \<Rightarrow> on_result result_set_error s
           | Some j \<Rightarrow> rbind (vec_at (read_entries s) j) (\<lambda>(_, e).
               if rs_is_deleted e then write_over j (kv_table a) k False (kv_record a) s
               else on_result result_set_error s)) (\<lambda>s1.
         op_done OpInsert s1))))"

definition upsert_reset :: "table_name \<Rightarrow> key option \<Rightarrow> rec_ptr \<Rightarrow> exec \<Rightarrow> exec" where
  "upsert_reset t k rec s = s\<lparr>x_ops := (x_ops s)\<lparr>o_upsert := kv_reset t k rec\<rparr>\<rparr>"

definition upsert_call :: "exec \<Rightarrow> exec res" where
  "upsert_call s =
     (let a = o_upsert (x_ops s)
      in rbind (read_outside_reset (kv_table a) (kv_key a) (kv_record a) True s)
           (invoke OpReadOutside read_outside_call))"

definition upsert_next :: "exec \<Rightarrow> (op_ref option \<times> exec) res" where
  "upsert_next s =
     (let a = o_upsert (x_ops s)
      in rbind (deref (kv_key a)) (\<lambda>k.
         rbind (exec_find_in_read_set s (kv_table a) k) (\<lambda>read_entry.
         rbind (case read_entry of
             None \<Rightarrow> Inr s
           | Some j \<Rightarrow> write_over j (kv_table a) k False (kv_record a) s) (\<lambda>s1.
         op_done OpUpsert s1))))"

definition update_reset :: "table_name \<Rightarrow> key option \<Rightarrow> rec_ptr \<Rightarrow> exec \<Rightarrow> exec" where
  "update_reset t k rec s = s\<lparr>x_ops := (x_ops s)\<lparr>o_update := kv_reset t k rec\<rparr>\<rparr>"

definition update_call :: "exec \<Rightarrow> exec res" where
  "update_call s =
     (let a = o_update (x_ops s)
      in rbind (deref (kv_key a)) (\<lambda>k.
         rbind (exec_find_in_read_set s (kv_table a) k) (\<lambda>read_entry.
         case read_entry of
           None \<Rightarrow> on_result result_set_error s
         | Some j \<Rightarrow> rbind (vec_at (read_entries s) j) (\<lambda>(_, e).
             if rs_is_deleted e \<and> rs_version e > 0 then on_result result_set_error s
             else write_over j (kv_table a) k False (kv_record a) s))))"

definition delete_reset :: "table_name \<Rightarrow> key option \<Rightarrow> exec \<Rightarrow> exec" where
  "delete_reset t k s = s\<lparr>x_ops := (x_ops s)\<lparr>o_delete := kv_reset t k (kv_record (o_delete (x_ops s)))\<rparr>\<rparr>"

definition delete_call :: "exec \<Rightarrow> exec res" where
  "delete_call s =
     (let a = o_delete (x_ops s)
      in rbind (deref (kv_key a)) (\<lambda>k.
         rbind (exec_find_in_write_set s (kv_table a) k) (\<lambda>write_entry.
         rbind (exec_find_in_read_set s (kv_table a) k) (\<lambda>read_entry.
         case write_entry of
           Some i \<Rightarrow> rbind (vec_at (write_entries s) i) (\<lambda>(_, w).
             if ws_is_deleted w then on_result result_set_error s
             else rbind (upd_write_entry i (\<lambda>(sk, w). (sk, w\<lparr>ws_is_deleted := True, ws_record := None\<rparr>)) s)
                    on_result_finished)
         | None \<Rightarrow>
             (case read_entry of
                None \<Rightarrow> on_result result_set_error s
              | Some j \<Rightarrow> rbind (vec_at (read_entries s) j) (\<lambda>(_, e).
                  if rs_is_deleted e then on_result result_set_error s
                  else write_over j (kv_table a) k True None s))))))"

section \<open>Begin and the data store\<close>

definition init_txn_reset :: "exec \<Rightarrow> exec" where
  "init_txn_reset s = s\<lparr>x_ops := (x_ops s)\<lparr>o_init := hr_reset (o_init (x_ops s))\<rparr>\<rparr>"

definition init_txn_call :: "exec \<Rightarrow> exec res" where
  "init_txn_call s =
     Inr (log_call OpInitTxn (NewTxn (x_txn_entry s) (x_commit_local s) kMaxTxnExecutionTimeMS) s)"

definition init_txn_next :: "exec \<Rightarrow> (op_ref option \<times> exec) res" where
  "init_txn_next s =
     (if hr_error (o_init (x_ops s))
      then rbind (reset_txn_id_and_time s) (\<lambda>s1. Inr (Some OpInitTxn, init_txn_reset s1))
      else rbind (on_result_finished (s\<lparr>x_txn_id := te_tx_id (x_txn_entry s)\<rparr>)) (\<lambda>s1.
           op_done OpInitTxn s1))"

definition read_ds_reset :: "table_name \<Rightarrow> key option \<Rightarrow> rec_ptr \<Rightarrow> exec \<Rightarrow> exec" where
  "read_ds_reset t k rec s =
     s\<lparr>x_ops := (x_ops s)\<lparr>o_read_ds := \<lparr>rd_table = t, rd_key = k, rd_record = rec,
        rd_result = (hr_reset (rd_result (o_read_ds (x_ops s))))\<lparr>hr_result := rec\<rparr>\<rparr>\<rparr>\<rparr>"

definition read_ds_call :: "exec \<Rightarrow> exec res" where
  "read_ds_call s =
     (let a = o_read_ds (x_ops s) in Inr (log_call OpReadDs (ReadRecord (rd_table a) (rd_key a)) s))"

definition read_ds_next :: "exec \<Rightarrow> (op_ref option \<times> exec) res" where
  "read_ds_next s =
     (let r = rd_result (o_read_ds (x_ops s))
      in rbind (if hr_error r then on_result result_set_error s
                else if hr_result r = None then on_result result_set_null s
                else on_result (result_set_record (hr_result r)) s) (\<lambda>s1.
         op_done OpReadDs s1))"

section \<open>\<^verbatim>\<open>IsFinished\<close> and \<^verbatim>\<open>IsCascadeFinished\<close> of the other operations\<close>

definition set_commit_finished :: "exec \<Rightarrow> bool" where
  "set_commit_finished s = hr_finished (o_set_commit (x_ops s))"

definition write_log_finished :: "exec \<Rightarrow> bool" where
  "write_log_finished s = o_log_finished (x_ops s)"

definition status_commit_finished :: "exec \<Rightarrow> bool" where
  "status_commit_finished s = hr_finished (o_status_commit (x_ops s))"

definition status_abort_finished :: "exec \<Rightarrow> bool" where
  "status_abort_finished s = hr_finished (o_status_abort (x_ops s))"

definition insert_finished :: "exec \<Rightarrow> bool" where
  "insert_finished s = read_outside_cascade_finished s"

definition upsert_finished :: "exec \<Rightarrow> bool" where
  "upsert_finished s = read_outside_cascade_finished s"

definition update_finished :: "exec \<Rightarrow> bool" where
  "update_finished s = True"

definition delete_finished :: "exec \<Rightarrow> bool" where
  "delete_finished s = True"

definition init_txn_finished :: "exec \<Rightarrow> bool" where
  "init_txn_finished s = hr_finished (o_init (x_ops s))"

definition read_ds_finished :: "exec \<Rightarrow> bool" where
  "read_ds_finished s = hr_finished (rd_result (o_read_ds (x_ops s)))"

lemmas single_finished = set_commit_finished_def write_log_finished_def status_commit_finished_def status_abort_finished_def insert_finished_def upsert_finished_def update_finished_def delete_finished_def init_txn_finished_def read_ds_finished_def

declare single_finished [simp]

definition upload_cascade_finished :: "exec \<Rightarrow> bool res" where
  "upload_cascade_finished s = rbind (upload_finished s) (\<lambda>b. Inr (b \<and> move_to_next s OpUpload))"

definition validate_cascade_finished :: "exec \<Rightarrow> bool res" where
  "validate_cascade_finished s = rbind (validate_finished s) (\<lambda>b. Inr (b \<and> move_to_next s OpValidate))"

definition post_commit_cascade_finished :: "exec \<Rightarrow> bool res" where
  "post_commit_cascade_finished s = rbind (post_commit_finished s) (\<lambda>b. Inr (b \<and> move_to_next s OpPostCommit))"

definition post_abort_cascade_finished :: "exec \<Rightarrow> bool res" where
  "post_abort_cascade_finished s = rbind (post_abort_finished s) (\<lambda>b. Inr (b \<and> move_to_next s OpPostAbort))"

definition release_cascade_finished :: "exec \<Rightarrow> bool res" where
  "release_cascade_finished s = rbind (release_finished s) (\<lambda>b. Inr (b \<and> move_to_next s OpReleaseCounter))"

definition set_commit_cascade_finished :: "exec \<Rightarrow> bool" where
  "set_commit_cascade_finished s \<longleftrightarrow> set_commit_finished s \<and> move_to_next s OpSetCommitTs"

definition write_log_cascade_finished :: "exec \<Rightarrow> bool" where
  "write_log_cascade_finished s \<longleftrightarrow> write_log_finished s \<and> move_to_next s OpWriteLog"

definition status_commit_cascade_finished :: "exec \<Rightarrow> bool" where
  "status_commit_cascade_finished s \<longleftrightarrow> status_commit_finished s \<and> move_to_next s OpStatusCommit"

definition status_abort_cascade_finished :: "exec \<Rightarrow> bool" where
  "status_abort_cascade_finished s \<longleftrightarrow> status_abort_finished s \<and> move_to_next s OpStatusAbort"

definition insert_cascade_finished :: "exec \<Rightarrow> bool" where
  "insert_cascade_finished s \<longleftrightarrow> insert_finished s \<and> move_to_next s OpInsert"

definition upsert_cascade_finished :: "exec \<Rightarrow> bool" where
  "upsert_cascade_finished s \<longleftrightarrow> upsert_finished s \<and> move_to_next s OpUpsert"

definition update_cascade_finished :: "exec \<Rightarrow> bool" where
  "update_cascade_finished s = True"

definition delete_cascade_finished :: "exec \<Rightarrow> bool" where
  "delete_cascade_finished s = True"

definition init_txn_cascade_finished :: "exec \<Rightarrow> bool" where
  "init_txn_cascade_finished s \<longleftrightarrow> init_txn_finished s \<and> move_to_next s OpInitTxn"

definition read_ds_cascade_finished :: "exec \<Rightarrow> bool" where
  "read_ds_cascade_finished s \<longleftrightarrow> read_ds_finished s \<and> move_to_next s OpReadDs"

text \<open>\<^verbatim>\<open>NextImpl\<close> of \<^verbatim>\<open>UpdateOperation\<close> and \<^verbatim>\<open>DeleteOperation\<close> only ends them.\<close>

definition update_next :: "exec \<Rightarrow> (op_ref option \<times> exec) res" where
  [simp]: "update_next = op_done OpUpdate"

definition delete_next :: "exec \<Rightarrow> (op_ref option \<times> exec) res" where
  [simp]: "delete_next = op_done OpDelete"

section \<open>Virtual dispatch\<close>

fun op_call_impl :: "op_ref \<Rightarrow> exec \<Rightarrow> exec res" where
  "op_call_impl OpReadOutside = read_outside_call"
| "op_call_impl OpUpload = upload_call"
| "op_call_impl (OpUploadEntry i) = upload_entry_call i"
| "op_call_impl OpSetCommitTs = set_commit_call"
| "op_call_impl OpValidate = validate_call"
| "op_call_impl (OpUpdateMaxTs i) = update_max_call i"
| "op_call_impl (OpPushLowerBound i) = push_call i"
| "op_call_impl OpWriteLog = write_log_call"
| "op_call_impl OpStatusCommit = status_commit_call"
| "op_call_impl OpPostCommit = post_commit_call"
| "op_call_impl (OpPostCommitEntry i) = commit_entry_call i"
| "op_call_impl OpPostAbort = post_abort_call"
| "op_call_impl (OpPostAbortEntry i) = abort_entry_call i"
| "op_call_impl OpReleaseCounter = release_call"
| "op_call_impl (OpReleaseEntry i) = release_entry_call i"
| "op_call_impl OpStatusAbort = status_abort_call"
| "op_call_impl OpInsert = insert_call"
| "op_call_impl OpUpdate = update_call"
| "op_call_impl OpUpsert = upsert_call"
| "op_call_impl OpDelete = delete_call"
| "op_call_impl OpInitTxn = init_txn_call"
| "op_call_impl OpReadDs = read_ds_call"

fun op_next_impl :: "op_ref \<Rightarrow> exec \<Rightarrow> (op_ref option \<times> exec) res" where
  "op_next_impl OpReadOutside = read_outside_next"
| "op_next_impl OpUpload = upload_next"
| "op_next_impl (OpUploadEntry i) = upload_entry_next i"
| "op_next_impl OpSetCommitTs = set_commit_next"
| "op_next_impl OpValidate = validate_next"
| "op_next_impl (OpUpdateMaxTs i) = update_max_next i"
| "op_next_impl (OpPushLowerBound i) = push_next i"
| "op_next_impl OpWriteLog = write_log_next"
| "op_next_impl OpStatusCommit = status_commit_next"
| "op_next_impl OpPostCommit = post_commit_next"
| "op_next_impl (OpPostCommitEntry i) = commit_entry_next i"
| "op_next_impl OpPostAbort = post_abort_next"
| "op_next_impl (OpPostAbortEntry i) = abort_entry_next i"
| "op_next_impl OpReleaseCounter = release_next"
| "op_next_impl (OpReleaseEntry i) = release_entry_next i"
| "op_next_impl OpStatusAbort = status_abort_next"
| "op_next_impl OpInsert = insert_next"
| "op_next_impl OpUpdate = update_next"
| "op_next_impl OpUpsert = upsert_next"
| "op_next_impl OpDelete = delete_next"
| "op_next_impl OpInitTxn = init_txn_next"
| "op_next_impl OpReadDs = read_ds_next"

fun op_finished :: "op_ref \<Rightarrow> exec \<Rightarrow> bool res" where
  "op_finished OpReadOutside s = Inr (read_outside_finished s)"
| "op_finished OpUpload s = upload_finished s"
| "op_finished (OpUploadEntry i) s = upload_entry_finished i s"
| "op_finished OpSetCommitTs s = Inr (set_commit_finished s)"
| "op_finished OpValidate s = validate_finished s"
| "op_finished (OpUpdateMaxTs i) s = update_max_finished i s"
| "op_finished (OpPushLowerBound i) s = push_finished i s"
| "op_finished OpWriteLog s = Inr (write_log_finished s)"
| "op_finished OpStatusCommit s = Inr (status_commit_finished s)"
| "op_finished OpPostCommit s = post_commit_finished s"
| "op_finished (OpPostCommitEntry i) s = commit_entry_finished i s"
| "op_finished OpPostAbort s = post_abort_finished s"
| "op_finished (OpPostAbortEntry i) s = abort_entry_finished i s"
| "op_finished OpReleaseCounter s = release_finished s"
| "op_finished (OpReleaseEntry i) s = release_entry_finished i s"
| "op_finished OpStatusAbort s = Inr (status_abort_finished s)"
| "op_finished OpInsert s = Inr (insert_finished s)"
| "op_finished OpUpdate s = Inr (update_finished s)"
| "op_finished OpUpsert s = Inr (upsert_finished s)"
| "op_finished OpDelete s = Inr (delete_finished s)"
| "op_finished OpInitTxn s = Inr (init_txn_finished s)"
| "op_finished OpReadDs s = Inr (read_ds_finished s)"

fun op_cascade_finished :: "op_ref \<Rightarrow> exec \<Rightarrow> bool res" where
  "op_cascade_finished OpReadOutside s = Inr (read_outside_cascade_finished s)"
| "op_cascade_finished OpUpload s = upload_cascade_finished s"
| "op_cascade_finished (OpUploadEntry i) s = upload_entry_cascade_finished s i"
| "op_cascade_finished OpSetCommitTs s = Inr (set_commit_cascade_finished s)"
| "op_cascade_finished OpValidate s = validate_cascade_finished s"
| "op_cascade_finished (OpUpdateMaxTs i) s = update_max_cascade_finished i s"
| "op_cascade_finished (OpPushLowerBound i) s = push_cascade_finished i s"
| "op_cascade_finished OpWriteLog s = Inr (write_log_cascade_finished s)"
| "op_cascade_finished OpStatusCommit s = Inr (status_commit_cascade_finished s)"
| "op_cascade_finished OpPostCommit s = post_commit_cascade_finished s"
| "op_cascade_finished (OpPostCommitEntry i) s = commit_entry_cascade_finished s i"
| "op_cascade_finished OpPostAbort s = post_abort_cascade_finished s"
| "op_cascade_finished (OpPostAbortEntry i) s = abort_entry_cascade_finished s i"
| "op_cascade_finished OpReleaseCounter s = release_cascade_finished s"
| "op_cascade_finished (OpReleaseEntry i) s = release_entry_cascade_finished s i"
| "op_cascade_finished OpStatusAbort s = Inr (status_abort_cascade_finished s)"
| "op_cascade_finished OpInsert s = Inr (insert_cascade_finished s)"
| "op_cascade_finished OpUpdate s = Inr (update_cascade_finished s)"
| "op_cascade_finished OpUpsert s = Inr (upsert_cascade_finished s)"
| "op_cascade_finished OpDelete s = Inr (delete_cascade_finished s)"
| "op_cascade_finished OpInitTxn s = Inr (init_txn_cascade_finished s)"
| "op_cascade_finished OpReadDs s = Inr (read_ds_cascade_finished s)"

text \<open>\<^verbatim>\<open>TransactionOperation::Call\<close> and \<^verbatim>\<open>Next\<close>.\<close>

definition op_call :: "op_ref \<Rightarrow> exec \<Rightarrow> exec res" where
  "op_call r s = op_call_impl r (set_move_to_next r False s)"

definition op_next :: "op_ref \<Rightarrow> exec \<Rightarrow> (op_ref option \<times> exec) res" where
  "op_next r s = op_next_impl r (set_has_next r True (set_move_to_next r True s))"

section \<open>Running the operations\<close>

text \<open>\<^verbatim>\<open>TransactionExecution::Call\<close>.\<close>

definition exec_call :: "op_ref \<Rightarrow> exec \<Rightarrow> exec res" where
  "exec_call r s = op_call r (push_stack r s)"

definition exec_abort :: "exec \<Rightarrow> exec res" where
  "exec_abort s =
     rbind (exec_result_reset None (clean_stack s)) (\<lambda>s1.
     exec_call OpStatusAbort (status_abort_reset s1))"

text \<open>
  The loop of \<^verbatim>\<open>MoveForward\<close> from the top of the stack down; \<open>mf_loop n\<close> visits indices \<open>n - 1\<close> to \<open>0\<close>.
  Operations a called operation pushes lie above and are not visited in this pass.
\<close>

fun mf_loop :: "nat \<Rightarrow> exec \<Rightarrow> exec res" where
  "mf_loop 0 s = Inr s"
| "mf_loop (Suc i) s =
     rbind (vec_at (x_vec s) i) (\<lambda>slot.
     case slot of
       None \<Rightarrow> mf_loop i s
     | Some r \<Rightarrow>
         rbind (op_finished r s) (\<lambda>finished.
         if \<not> finished then mf_loop i s
         else
           rbind (op_next r s) (\<lambda>(operation, s1).
           let s2 = s1\<lparr>x_vec := (x_vec s1)[i := operation]\<rparr>
           in case operation of
                Some r' \<Rightarrow> rbind (op_call r' s2) (mf_loop i)
              | None \<Rightarrow> if is_aborting s2 then Inr s2 else mf_loop i s2)))"

definition trim_stack :: "op_ref option list \<Rightarrow> op_ref option list" where
  "trim_stack v = rev (dropWhile (\<lambda>x. x = None) (rev v))"

definition move_forward :: "exec \<Rightarrow> (bool \<times> exec) res" where
  "move_forward s =
     (if x_vec s = [] then Inr (True, s)
      else rbind (mf_loop (length (x_vec s)) s) (\<lambda>s1.
           rbind (if is_aborting s1 then exec_abort (set_txn_status Aborted s1)
                  else Inr (s1\<lparr>x_vec := trim_stack (x_vec s1)\<rparr>)) (\<lambda>s2.
           Inr (x_vec s2 = [], s2))))"

section \<open>The entry points of client requests\<close>

definition exec_begin :: "int \<Rightarrow> exec \<Rightarrow> exec res" where
  "exec_begin type s =
     rbind (exec_result_reset None s) (\<lambda>s1.
     exec_call OpInitTxn (init_txn_reset (s1\<lparr>x_type := type\<rparr>)))"

definition exec_insert :: "table_name \<Rightarrow> key option \<Rightarrow> rec_ptr \<Rightarrow> exec \<Rightarrow> exec res" where
  "exec_insert t k rec s =
     rbind (exec_result_reset rec s) (\<lambda>s1. exec_call OpInsert (insert_reset t k rec s1))"

definition exec_upsert :: "table_name \<Rightarrow> key option \<Rightarrow> rec_ptr \<Rightarrow> exec \<Rightarrow> exec res" where
  "exec_upsert t k rec s =
     rbind (exec_result_reset rec s) (\<lambda>s1. exec_call OpUpsert (upsert_reset t k rec s1))"

definition exec_update :: "table_name \<Rightarrow> key option \<Rightarrow> rec_ptr \<Rightarrow> exec \<Rightarrow> exec res" where
  "exec_update t k rec s =
     rbind (exec_result_reset None s) (\<lambda>s1. exec_call OpUpdate (update_reset t k rec s1))"

definition exec_delete :: "table_name \<Rightarrow> key option \<Rightarrow> exec \<Rightarrow> exec res" where
  "exec_delete t k s =
     rbind (exec_result_reset None s) (\<lambda>s1. exec_call OpDelete (delete_reset t k s1))"

definition exec_read :: "table_name \<Rightarrow> key option \<Rightarrow> rec_ptr \<Rightarrow> bool \<Rightarrow> exec \<Rightarrow> exec res" where
  "exec_read t k rec is_deleted s =
     rbind (exec_result_reset rec s) (\<lambda>s1.
     rbind (read_outside_reset t k rec is_deleted s1) (exec_call OpReadOutside))"

definition exec_read_data_store ::
    "table_name \<Rightarrow> key option \<Rightarrow> rec_ptr \<Rightarrow> bool \<Rightarrow> exec \<Rightarrow> exec res" where
  "exec_read_data_store t k rec need_to_read s =
     rbind (exec_result_reset rec s) (\<lambda>s1.
     if need_to_read then exec_call OpReadDs (read_ds_reset t k rec s1)
     else result_set_finished (x_result s1) s1)"

definition exec_commit :: "exec \<Rightarrow> exec res" where
  "exec_commit s =
     rbind (exec_result_reset None s) (\<lambda>s1. exec_call OpUpload (upload_reset s1))"

end
