(* ===== verification/Environment.thy ===== *)
theory Environment
  imports Execution
begin

text \<open>
  What surrounds an execution: the request switch of the executors' \<^verbatim>\<open>Advance\<close>, the answers of the
  storage handler, the data store and the log, and the step relation that interleaves them with
  \<^verbatim>\<open>MoveForward\<close>.

  A handler answers an outstanding call once, at any time and with any content; that is all the
  relation assumes of it.  The answer writes the \<^verbatim>\<open>HandlerResult\<close> of the operation, the objects passed
  by reference with the call, and possibly record objects.  Other executions of the same executor may
  change what is shared (\<open>world\<close>) between any two steps.
\<close>

section \<open>The request switch\<close>

text \<open>
  The \<^verbatim>\<open>switch\<close> over the operation type.  \<open>ds\<close> is \<open>None\<close> in \<^verbatim>\<open>RuntimeTransactionExecutor\<close>, which has no
  \<^verbatim>\<open>ReadDataStore\<close> case, and \<open>Some b\<close> in \<^verbatim>\<open>AllAtOnceTransactionExecutor\<close>, where \<open>b\<close> says whether a data
  store driver is set; without a driver it links a fresh result to the request and goes on.
\<close>

definition run_request :: "bool option \<Rightarrow> op_request \<Rightarrow> exec \<Rightarrow> exec res" where
  "run_request ds q s =
     (case rq_op q of
        Begin \<Rightarrow> exec_begin (rq_type q) s
      | Insert \<Rightarrow> exec_insert (rq_table q) (rq_key q) (rq_record q) s
      | Update \<Rightarrow> exec_update (rq_table q) (rq_key q) (rq_record q) s
      | Upsert \<Rightarrow> exec_upsert (rq_table q) (rq_key q) (rq_record q) s
      | Delete \<Rightarrow> exec_delete (rq_table q) (rq_key q) s
      | Read \<Rightarrow> exec_read (rq_table q) (rq_key q) (rq_record q) False s
      | ReadOutside \<Rightarrow> exec_read (rq_table q) (rq_key q) (rq_record q) False s
      | ReadDataStore \<Rightarrow>
          (case ds of
             None \<Rightarrow> Inr s
           | Some True \<Rightarrow> exec_read_data_store (rq_table q) (rq_key q) (rq_record q)
               (rq_need_to_read_outside q) s
           | Some False \<Rightarrow> exec_result_reset (rq_record q) s)
      | Commit \<Rightarrow> exec_commit s
      | Abort \<Rightarrow> exec_abort s)"

text \<open>\<^verbatim>\<open>SetUp\<close>, \<^verbatim>\<open>SetCurrentRequest\<close> and the switch.\<close>

definition handle_request ::
    "(op_request \<Rightarrow> op_request) \<Rightarrow> bool option \<Rightarrow> req_id \<Rightarrow> exec \<Rightarrow> exec res" where
  "handle_request process ds r s =
     rbind (upd_request r (rq_set_up process) s) (\<lambda>s1.
     rbind (deref (w_reqs s1 r)) (\<lambda>q.
     run_request ds q (s1\<lparr>x_current := Some r\<rparr>)))"

section \<open>Answers\<close>

datatype reply =
    ReplyVersions "version_entry list"
  | ReplyUpload version_entry int
  | ReplyTs int
  | ReplyVersion version_entry
  | ReplyTxn txn_entry
  | ReplyNewTxn txn_entry
  | ReplyVoid
  | ReplyCount int bool
  | ReplyRecord rec_ptr
  | ReplyError

definition answer :: "'a \<Rightarrow> 'a handler_result \<Rightarrow> 'a handler_result" where
  "answer x r = hr_set_finished (r\<lparr>hr_result := x\<rparr>)"

fun res_to_option :: "'a res \<Rightarrow> 'a option" where
  "res_to_option (Inr x) = Some x"
| "res_to_option (Inl _) = None"

text \<open>
  \<^verbatim>\<open>CommitVersion\<close> is awaited through \<^verbatim>\<open>ref_cnt\<close>: its answers set the counter (2 at the start) and
  the error flag.
\<close>

definition deliver :: "op_ref \<Rightarrow> reply \<Rightarrow> exec \<Rightarrow> exec option" where
  "deliver r a s =
     (case r of
        OpReadOutside \<Rightarrow>
          (case a of
              ReplyVersions vs \<Rightarrow>
               Some (upd_read_op (\<lambda>ro. ro\<lparr>ro_result := answer vs (ro_result ro)\<rparr>) s)
            | ReplyError \<Rightarrow>
               Some (upd_read_op (\<lambda>ro. ro\<lparr>ro_result := hr_set_error (ro_result ro)\<rparr>) s)
            | _ \<Rightarrow> None)
      | OpUploadEntry i \<Rightarrow>
          (case a of
              ReplyUpload v ts \<Rightarrow>
               res_to_option (upd_upload_entry i (\<lambda>u. u\<lparr>ue_version_entry := v, ue_result := answer ts (ue_result u)\<rparr>) s)
            | ReplyError \<Rightarrow>
               res_to_option (upd_upload_entry i (\<lambda>u. u\<lparr>ue_result := hr_set_error (ue_result u)\<rparr>) s)
            | _ \<Rightarrow> None)
      | OpSetCommitTs \<Rightarrow>
          (case a of
              ReplyTs ts \<Rightarrow>
               Some (s\<lparr>x_ops := (x_ops s)\<lparr>o_set_commit := answer ts (o_set_commit (x_ops s))\<rparr>\<rparr>)
            | ReplyError \<Rightarrow>
               Some (s\<lparr>x_ops := (x_ops s)\<lparr>o_set_commit := hr_set_error (o_set_commit (x_ops s))\<rparr>\<rparr>)
            | _ \<Rightarrow> None)
      | OpUpdateMaxTs i \<Rightarrow>
          (case a of
              ReplyVersion v \<Rightarrow>
               res_to_option (upd_update_max i (\<lambda>u. u\<lparr>um_result := answer v (um_result u)\<rparr>) s)
            | ReplyError \<Rightarrow>
               res_to_option (upd_update_max i (\<lambda>u. u\<lparr>um_result := hr_set_error (um_result u)\<rparr>) s)
            | _ \<Rightarrow> None)
      | OpPushLowerBound i \<Rightarrow>
          (case a of
              ReplyTxn e \<Rightarrow>
               res_to_option (upd_push i (\<lambda>u. u\<lparr>pu_result := answer e (pu_result u)\<rparr>) s)
            | ReplyError \<Rightarrow>
               res_to_option (upd_push i (\<lambda>u. u\<lparr>pu_result := hr_set_error (pu_result u)\<rparr>) s)
            | _ \<Rightarrow> None)
      | OpWriteLog \<Rightarrow>
          (case a of
              ReplyVoid \<Rightarrow>
               Some (s\<lparr>x_ops := (x_ops s)\<lparr>o_log_finished := True\<rparr>\<rparr>)
            | _ \<Rightarrow> None)
      | OpStatusCommit \<Rightarrow>
          (case a of
              ReplyVoid \<Rightarrow>
               Some (s\<lparr>x_ops := (x_ops s)\<lparr>o_status_commit := answer () (o_status_commit (x_ops s))\<rparr>\<rparr>)
            | ReplyError \<Rightarrow>
               Some (s\<lparr>x_ops := (x_ops s)\<lparr>o_status_commit := hr_set_error (o_status_commit (x_ops s))\<rparr>\<rparr>)
            | _ \<Rightarrow> None)
      | OpPostCommitEntry i \<Rightarrow>
          (case a of
              ReplyCount n err \<Rightarrow>
               res_to_option (upd_commit_entry i (\<lambda>u. u\<lparr>en_result :=
               (en_result u)\<lparr>hr_ref_cnt := n, hr_finished := True, hr_error := err\<rparr>\<rparr>) s)
            | _ \<Rightarrow> None)
      | OpPostAbortEntry i \<Rightarrow>
          (case a of
              ReplyVoid \<Rightarrow>
               res_to_option (upd_abort_entry i (\<lambda>u. u\<lparr>en_result := answer () (en_result u)\<rparr>) s)
            | ReplyError \<Rightarrow>
               res_to_option (upd_abort_entry i (\<lambda>u. u\<lparr>en_result := hr_set_error (en_result u)\<rparr>) s)
            | _ \<Rightarrow> None)
      | OpReleaseEntry i \<Rightarrow>
          (case a of
              ReplyVoid \<Rightarrow>
               res_to_option (upd_release_entry i (\<lambda>u. u\<lparr>en_result := answer () (en_result u)\<rparr>) s)
            | ReplyError \<Rightarrow>
               res_to_option (upd_release_entry i (\<lambda>u. u\<lparr>en_result := hr_set_error (en_result u)\<rparr>) s)
            | _ \<Rightarrow> None)
      | OpStatusAbort \<Rightarrow>
          (case a of
              ReplyVoid \<Rightarrow>
               Some (s\<lparr>x_ops := (x_ops s)\<lparr>o_status_abort := answer () (o_status_abort (x_ops s))\<rparr>\<rparr>)
            | ReplyError \<Rightarrow>
               Some (s\<lparr>x_ops := (x_ops s)\<lparr>o_status_abort := hr_set_error (o_status_abort (x_ops s))\<rparr>\<rparr>)
            | _ \<Rightarrow> None)
      | OpInitTxn \<Rightarrow>
          (case a of
              ReplyNewTxn e \<Rightarrow>
               Some (s\<lparr>x_txn_entry := e, x_ops := (x_ops s)\<lparr>o_init := answer () (o_init (x_ops s))\<rparr>\<rparr>)
            | ReplyError \<Rightarrow>
               Some (s\<lparr>x_ops := (x_ops s)\<lparr>o_init := hr_set_error (o_init (x_ops s))\<rparr>\<rparr>)
            | _ \<Rightarrow> None)
      | OpReadDs \<Rightarrow>
          (case a of
              ReplyRecord p \<Rightarrow>
               Some (s\<lparr>x_ops := (x_ops s)\<lparr>o_read_ds :=
               (o_read_ds (x_ops s))\<lparr>rd_result := answer p (rd_result (o_read_ds (x_ops s)))\<rparr>\<rparr>\<rparr>)
            | ReplyError \<Rightarrow>
               Some (s\<lparr>x_ops := (x_ops s)\<lparr>o_read_ds :=
               (o_read_ds (x_ops s))\<lparr>rd_result := hr_set_error (rd_result (o_read_ds (x_ops s)))\<rparr>\<rparr>\<rparr>)
            | _ \<Rightarrow> None)
      | _ \<Rightarrow> None)"

text \<open>An operation waits for an answer while it is on the stack and not finished.\<close>

definition awaiting :: "exec \<Rightarrow> op_ref \<Rightarrow> bool" where
  "awaiting s r \<longleftrightarrow> Some r \<in> set (x_vec s) \<and> op_finished r s = Inr False"

section \<open>Steps\<close>

definition same_world :: "exec \<Rightarrow> exec \<Rightarrow> exec" where
  "same_world w s = s\<lparr>w_heap := w_heap w, w_reqs := w_reqs w, w_now := w_now w, w_time := w_time w,
     w_ids := w_ids w\<rparr>"

inductive exec_step :: "exec \<Rightarrow> exec \<Rightarrow> bool" where
  advance: "move_forward s = Inr (idle, s') \<Longrightarrow> exec_step s s'"
| request: "x_vec s = [] \<Longrightarrow> \<not> x_finished s \<Longrightarrow> handle_request process ds r s = Inr s' \<Longrightarrow> exec_step s s'"
| reply: "awaiting s r \<Longrightarrow> deliver r a s = Some s' \<Longrightarrow> exec_step s s'"
| interfere: "exec_step s (same_world w s)"

text \<open>A transaction starts from \<^verbatim>\<open>TransactionTask::Reset\<close> on an execution whose stack is empty.\<close>

definition fresh_exec :: "exec \<Rightarrow> bool" where
  "fresh_exec s \<longleftrightarrow> x_vec s = [] \<and> x_trace s = [] \<and> \<not> x_finished s \<and> x_status s = Ongoing
     \<and> x_commit_ts s = - 1 \<and> x_max_writers s = - 1
     \<and> pool_inv (ls_read (x_ls s)) \<and> pool_inv (ls_write (x_ls s)) \<and> read_size s = 0 \<and> write_size s = 0"

inductive exec_reach :: "exec \<Rightarrow> exec \<Rightarrow> bool" for s0 where
  start: "fresh_exec s0 \<Longrightarrow> exec_reach s0 s0"
| step: "exec_reach s0 s \<Longrightarrow> exec_step s s' \<Longrightarrow> exec_reach s0 s'"

section \<open>Executable runs\<close>

text \<open>One event of a run: a pass of \<^verbatim>\<open>MoveForward\<close>, a request taken up, an answer, the clock.\<close>

datatype event = Pass | Request req_id | Reply op_ref reply | Clock int

fun run_event :: "bool option \<Rightarrow> event \<Rightarrow> exec \<Rightarrow> exec res" where
  "run_event ds Pass s = rbind (move_forward s) (\<lambda>(_, s'). Inr s')"
| "run_event ds (Request r) s =
     (if x_vec s = [] \<and> \<not> x_finished s then handle_request (\<lambda>q. q) ds r s else Inl (Thrown ''busy''))"
| "run_event ds (Reply r a) s =
     (if Some r \<in> set (x_vec s) \<and> op_finished r s = Inr False
      then (case deliver r a s of Some s' \<Rightarrow> Inr s' | None \<Rightarrow> Inl (Thrown ''no such answer''))
      else Inl (Thrown ''not awaited''))"
| "run_event ds (Clock t) s = Inr (s\<lparr>w_now := t\<rparr>)"

definition run_events :: "bool option \<Rightarrow> event list \<Rightarrow> exec \<Rightarrow> exec res" where
  "run_events ds es s = rfold (run_event ds) es s"

lemma run_event_step: "run_event ds e s = Inr s' \<Longrightarrow> exec_step s s'"
proof (cases e)
  case Pass
  assume "run_event ds e s = Inr s'"
  with Pass show ?thesis by (auto intro: exec_step.advance)
next
  case (Request r)
  assume "run_event ds e s = Inr s'"
  with Request show ?thesis by (auto intro: exec_step.request split: if_splits)
next
  case (Reply r a)
  assume "run_event ds e s = Inr s'"
  with Reply show ?thesis
    by (auto intro!: exec_step.reply simp: awaiting_def split: if_splits option.splits)
next
  case (Clock t)
  assume "run_event ds e s = Inr s'"
  moreover have "same_world (s\<lparr>w_now := t\<rparr>) s = s\<lparr>w_now := t\<rparr>"
    by (cases s) (simp add: same_world_def)
  ultimately show ?thesis
    using Clock exec_step.interfere [of s "s\<lparr>w_now := t\<rparr>"] by simp
qed

lemma run_events_reach:
  assumes "run_events ds es s = Inr s'" "exec_reach s0 s"
  shows "exec_reach s0 s'"
  using assms unfolding run_events_def
  by (rule rfold_invariant) (auto intro: exec_reach.step run_event_step)

text \<open>A freshly reset execution is fresh, whatever its uninitialised members were.\<close>

lemma fresh_exec_reset:
  assumes "exec_reset s = Inr s'" "x_vec s = []" "x_trace s = []"
    and "pool_inv (ls_read (x_ls s))" "pool_inv (ls_write (x_ls s))"
  shows "fresh_exec s'"
  using assms
  by (auto simp: exec_reset_def reset_txn_id_and_time_def exec_get_time_def fresh_exec_def ls_reset_def
      pool_inv_def read_size_def write_size_def ls_read_size_def ls_write_size_def pool_reset_def)

end
