(* ===== verification/Stack_Frames.thy ===== *)
theory Stack_Frames
  imports Environment
begin

text \<open>
  The operation stack as a list of operations, and what the operations leave alone: the facts every
  proof about \<^verbatim>\<open>MoveForward\<close> shares.
\<close>

section \<open>The operations on a stack\<close>

primrec stack_ops :: "op_ref option list \<Rightarrow> op_ref list" where
  "stack_ops [] = []"
| "stack_ops (x # v) = (case x of None \<Rightarrow> stack_ops v | Some r \<Rightarrow> r # stack_ops v)"

lemma stack_ops_append [simp]: "stack_ops (v @ w) = stack_ops v @ stack_ops w"
  by (induction v) (auto split: option.splits)

lemma set_stack_ops: "r \<in> set (stack_ops v) \<longleftrightarrow> Some r \<in> set v"
  by (induction v) (auto split: option.splits)

lemma stack_ops_dropWhile: "stack_ops (dropWhile (\<lambda>x. x = None) v) = stack_ops v"
  by (induction v) auto

lemma stack_ops_rev: "stack_ops (rev v) = rev (stack_ops v)"
  by (induction v) (auto split: option.splits)

lemma stack_ops_trim [simp]: "stack_ops (trim_stack v) = stack_ops v"
  by (simp add: trim_stack_def stack_ops_rev stack_ops_dropWhile)

lemma stack_ops_split:
  assumes "i < length v" "v ! i = Some r"
  shows "stack_ops v = stack_ops (take i v) @ r # stack_ops (drop (Suc i) v)"
    and "stack_ops (v[i := x]) = stack_ops (take i v) @ (case x of None \<Rightarrow> [] | Some q \<Rightarrow> [q]) @ stack_ops (drop (Suc i) v)"
proof -
  have "v = take i v @ Some r # drop (Suc i) v"
    using assms id_take_nth_drop by metis
  then have "stack_ops v = stack_ops (take i v @ Some r # drop (Suc i) v)" by simp
  then show "stack_ops v = stack_ops (take i v) @ r # stack_ops (drop (Suc i) v)" by simp
  show "stack_ops (v[i := x]) = stack_ops (take i v) @ (case x of None \<Rightarrow> [] | Some q \<Rightarrow> [q]) @ stack_ops (drop (Suc i) v)"
    using assms(1) by (simp add: upd_conv_take_nth_drop split: option.splits)
qed

lemma stack_remove:
  assumes "i < length v" "v ! i = Some r" "distinct (stack_ops v)"
  shows "distinct (stack_ops (v[i := None]))" "set (stack_ops (v[i := None])) = set (stack_ops v) - {r}"
  using assms(3) stack_ops_split [OF assms(1,2)] by auto

lemma stack_replace:
  assumes "i < length v" "v ! i = Some r" "distinct (stack_ops v)" "q \<notin> set (stack_ops v) - {r}"
  shows "distinct (stack_ops (v[i := Some q]))"
    "set (stack_ops (v[i := Some q])) = insert q (set (stack_ops v) - {r})"
  using assms(3,4) stack_ops_split [OF assms(1,2)] by auto

section \<open>Frames\<close>

lemma on_result_frame:
  assumes "on_result f s = Inr s'"
    and "\<And>r r' (w :: exec) w'. f r w = Inr (r', w') \<Longrightarrow> \<exists>h q. w' = w\<lparr>w_heap := h, w_reqs := q\<rparr>"
  shows "\<exists>h q r. s' = s\<lparr>w_heap := h, w_reqs := q, x_result := r\<rparr>"
proof -
  from assms(1) obtain r r' w' where "f r s = Inr (r', w')" and s': "s' = w'\<lparr>x_result := r'\<rparr>"
    by (auto simp: on_result_def)
  with assms(2) obtain h q where "w' = s\<lparr>w_heap := h, w_reqs := q\<rparr>" by blast
  with s' show ?thesis by auto
qed

lemma result_set_finished_frame:
  "result_set_finished r (w :: exec) = Inr w' \<Longrightarrow> \<exists>h q. w' = w\<lparr>w_heap := h, w_reqs := q\<rparr>"
  by (cases w) (auto simp: result_ops)

lemma result_set_frames:
  "result_set_null r (w :: exec) = Inr (r', w') \<Longrightarrow> \<exists>h q. w' = w\<lparr>w_heap := h, w_reqs := q\<rparr>"
  "result_set_deleted r w = Inr (r', w') \<Longrightarrow> \<exists>h q. w' = w\<lparr>w_heap := h, w_reqs := q\<rparr>"
  "result_set_error r w = Inr (r', w') \<Longrightarrow> \<exists>h q. w' = w\<lparr>w_heap := h, w_reqs := q\<rparr>"
  "result_set_status st r w = Inr (r', w') \<Longrightarrow> \<exists>h q. w' = w\<lparr>w_heap := h, w_reqs := q\<rparr>"
  "result_reset p rq r w = Inr (r', w') \<Longrightarrow> \<exists>h q. w' = w\<lparr>w_heap := h, w_reqs := q\<rparr>"
  by (cases w; auto simp: result_ops)+

lemma result_set_record_frame:
  "result_set_record p r (w :: exec) = Inr (r', w') \<Longrightarrow> \<exists>h q. w' = w\<lparr>w_heap := h, w_reqs := q\<rparr>"
  by (cases w) (auto simp: result_ops split: option.splits if_splits)

lemmas on_result_frames =
  on_result_frame [OF _ result_set_frames(1)] on_result_frame [OF _ result_set_frames(2)]
  on_result_frame [OF _ result_set_frames(3)] on_result_frame [OF _ result_set_frames(4)]
  on_result_frame [OF _ result_set_record_frame]

lemma on_result_finished_frame: "on_result_finished s = Inr s' \<Longrightarrow> \<exists>h q. s' = s\<lparr>w_heap := h, w_reqs := q\<rparr>"
  by (auto simp: on_result_finished_def dest: result_set_finished_frame)

lemma exec_result_reset_frame:
  "exec_result_reset p s = Inr s' \<Longrightarrow> \<exists>h q r. s' = s\<lparr>w_heap := h, w_reqs := q, x_result := r\<rparr>"
  by (auto simp: exec_result_reset_def dest!: result_set_frames(5))

lemma rfold_upto:
  assumes "rfold f [0..<n] s = Inr t" "P 0 s"
    and "\<And>i u v. i < n \<Longrightarrow> P i u \<Longrightarrow> f i u = Inr v \<Longrightarrow> P (Suc i) v"
  shows "P n t"
  using assms
proof (induction n arbitrary: t)
  case (Suc n)
  then obtain u where u: "rfold f [0..<n] s = Inr u" and t: "f n u = Inr t"
    by (auto simp: rfold_upt_Suc simp del: upt_Suc)
  have "P n u" by (rule Suc.IH [OF u Suc.prems(2)]) (auto intro: Suc.prems(3))
  then show ?case using Suc.prems(3) t by blast
qed simp

section \<open>One visit of the loop\<close>

definition on_stack :: "exec \<Rightarrow> op_ref \<Rightarrow> bool" where
  "on_stack s r \<longleftrightarrow> Some r \<in> set (x_vec s)"

definition stack_ok :: "exec \<Rightarrow> bool" where
  "stack_ok s \<longleftrightarrow> distinct (stack_ops (x_vec s))"

text \<open>An operation that is finished is either popped or replaced, and the replacement called.\<close>

definition popped :: "nat \<Rightarrow> op_ref \<Rightarrow> exec \<Rightarrow> exec \<Rightarrow> bool" where
  "popped i r s s' \<longleftrightarrow> i < length (x_vec s) \<and> x_vec s ! i = Some r \<and> op_finished r s = Inr True \<and>
     (\<exists>s1. op_next r s = Inr (None, s1) \<and> s' = s1\<lparr>x_vec := (x_vec s1)[i := None]\<rparr>)"

definition replaced :: "nat \<Rightarrow> op_ref \<Rightarrow> op_ref \<Rightarrow> exec \<Rightarrow> exec \<Rightarrow> bool" where
  "replaced i r q s s' \<longleftrightarrow> i < length (x_vec s) \<and> x_vec s ! i = Some r \<and> op_finished r s = Inr True \<and>
     (\<exists>s1. op_next r s = Inr (Some q, s1) \<and> op_call q (s1\<lparr>x_vec := (x_vec s1)[i := Some q]\<rparr>) = Inr s')"

lemma mf_loop_induct:
  assumes "mf_loop n s = Inr s'" "P s"
    and "\<And>i r s s'. P s \<Longrightarrow> popped i r s s' \<Longrightarrow> is_aborting s' \<and> Q s' \<or> \<not> is_aborting s' \<and> P s'"
    and "\<And>i r q s s'. P s \<Longrightarrow> replaced i r q s s' \<Longrightarrow> P s'"
  shows "is_aborting s' \<and> Q s' \<or> P s'"
  using assms(1,2)
proof (induction n arbitrary: s)
  case (Suc i)
  from Suc.prems(1) have len: "i < length (x_vec s)" by (auto simp: vec_at_eq_Inr)
  show ?case
  proof (cases "x_vec s ! i")
    case None
    then show ?thesis using Suc len by simp
  next
    case (Some r)
    obtain fin where fin: "op_finished r s = Inr fin" using Suc.prems(1) len Some by auto
    show ?thesis
    proof (cases fin)
      case False
      then show ?thesis using Suc len Some fin by simp
    next
      case True
      then obtain operation s1 where nxt: "op_next r s = Inr (operation, s1)"
        using Suc.prems(1) len Some fin by auto
      show ?thesis
      proof (cases operation)
        case None
        let ?s2 = "s1\<lparr>x_vec := (x_vec s1)[i := None]\<rparr>"
        have "popped i r s ?s2" using len Some fin True nxt None by (auto simp: popped_def)
        from assms(3) [OF Suc.prems(2) this] show ?thesis
          using Suc len Some fin True nxt None by (auto simp: Let_def split: if_splits)
      next
        case q: (Some q)
        obtain s3 where s3: "op_call q (s1\<lparr>x_vec := (x_vec s1)[i := Some q]\<rparr>) = Inr s3"
          and loop: "mf_loop i s3 = Inr s'"
          using Suc.prems(1) len Some fin True nxt q by (auto simp: Let_def)
        have "replaced i r q s s3" using len Some fin True nxt q s3 by (auto simp: replaced_def)
        from assms(4) [OF Suc.prems(2) this] loop Suc.IH show ?thesis by blast
      qed
    qed
  qed
qed simp

lemma on_result_ops:
  "on_result result_set_null s = Inr s' \<Longrightarrow> \<exists>h q r. s' = s\<lparr>w_heap := h, w_reqs := q, x_result := r\<rparr>"
  "on_result result_set_deleted s = Inr s' \<Longrightarrow> \<exists>h q r. s' = s\<lparr>w_heap := h, w_reqs := q, x_result := r\<rparr>"
  "on_result result_set_error s = Inr s' \<Longrightarrow> \<exists>h q r. s' = s\<lparr>w_heap := h, w_reqs := q, x_result := r\<rparr>"
  "on_result (result_set_status st) s = Inr s' \<Longrightarrow> \<exists>h q r. s' = s\<lparr>w_heap := h, w_reqs := q, x_result := r\<rparr>"
  "on_result (result_set_record p) s = Inr s' \<Longrightarrow> \<exists>h q r. s' = s\<lparr>w_heap := h, w_reqs := q, x_result := r\<rparr>"
  by (erule on_result_frame, erule result_set_frames result_set_record_frame)+

lemma upd_read_entry_Inr [simp]:
  "upd_read_entry j f s = Inr s' \<longleftrightarrow> j < length (read_entries s) \<and>
     s' = s\<lparr>x_ls := (x_ls s)\<lparr>ls_read := (ls_read (x_ls s))\<lparr>pl_entries := (read_entries s)[j := f (read_entries s ! j)]\<rparr>\<rparr>\<rparr>"
  by (auto simp: upd_read_entry_def vec_at_eq_Inr Let_def)

lemma upd_write_entry_Inr [simp]:
  "upd_write_entry j g s = Inr s' \<longleftrightarrow> j < length (write_entries s) \<and>
     s' = s\<lparr>x_ls := (x_ls s)\<lparr>ls_write := (ls_write (x_ls s))\<lparr>pl_entries := (write_entries s)[j := g (write_entries s ! j)]\<rparr>\<rparr>\<rparr>"
  by (auto simp: upd_write_entry_def vec_at_eq_Inr Let_def)

lemmas base_defs = op_done_def op_abort_def op_prepare_abort_def set_has_next_def set_move_to_next_def
  upd_base_def exec_prepare_abort_def wait_for_abort_def set_txn_status_def set_finished_def log_call_def
  push_stack_def release_read_set_def set_max_commit_ts_of_writers_def set_commit_ts_def upd_read_op_def
  take_extension_def upd_upload_entry_def upd_update_max_def upd_push_def upd_commit_entry_def
  upd_abort_entry_def upd_release_entry_def

lemma exec_get_time_frame: "exec_get_time s = Inr (t, s') \<Longrightarrow> \<exists>w. s' = s\<lparr>w_time := w\<rparr>"
  by (auto simp: exec_get_time_def)


text \<open>The fields that steer the execution, which client operations leave alone.\<close>

definition same_ctl :: "exec \<Rightarrow> exec \<Rightarrow> bool" where
  "same_ctl s s' \<longleftrightarrow> x_vec s' = x_vec s \<and> x_trace s' = x_trace s \<and> x_status s' = x_status s \<and>
     x_finished s' = x_finished s \<and> x_commit_ts s' = x_commit_ts s \<and> x_max_writers s' = x_max_writers s \<and>
     o_base (x_ops s') = o_base (x_ops s) \<and> ro_slot (o_read (x_ops s')) = ro_slot (o_read (x_ops s)) \<and>
     x_txn_id s' = x_txn_id s"

definition put_read :: "nat \<Rightarrow> set_key \<times> read_set_entry \<Rightarrow> local_state \<Rightarrow> local_state" where
  "put_read j e ls = ls\<lparr>ls_read := (ls_read ls)\<lparr>pl_entries := (pl_entries (ls_read ls))[j := e]\<rparr>\<rparr>"

text \<open>A completed read fills its slot with the key it was asked for, as an entry not updated.\<close>

lemma internal_read_Inr:
  assumes "internal_read s = Inr s'"
  shows "same_ctl s s' \<and> ro_slot (o_read (x_ops s)) < length (read_entries s) \<and>
    (\<exists>t k e. keyed t k e \<and> \<not> rs_is_updated (snd e) \<and> rs_need_release (snd e) \<and>
      x_ls s' = put_read (ro_slot (o_read (x_ops s))) e (x_ls s))"
proof -
  let ?ro = "o_read (x_ops s)"
  obtain visible k where p: "pick_visible_version (hr_result (ro_result ?ro)) = Inr visible"
    and k: "ro_key ?ro = Some k"
    using assms by (auto simp: internal_read_def Let_def)
  let ?old = "read_entries s ! ro_slot ?ro"
  show ?thesis
  proof (cases visible)
    case None
    let ?e = "(set_key_reset (ro_table ?ro) k (fst ?old),
      read_entry_reset 0 kEmptyTxId 0 kMaxTimeStamp True None (ve_extension (hr_result (ro_result ?ro) ! 0)) (snd ?old))"
    from None assms p k have "same_ctl s s' \<and> ro_slot ?ro < length (read_entries s) \<and> x_ls s' = put_read (ro_slot ?ro) ?e (x_ls s)"
      by (auto simp: internal_read_def Let_def take_extension_def upd_read_op_def case_prod_beta same_ctl_def
          put_read_def vec_at_eq_Inr dest!: on_result_ops)
    moreover have "keyed (ro_table ?ro) k ?e" "\<not> rs_is_updated (snd ?e)" "rs_need_release (snd ?e)"
      by (auto simp: keyed_def set_key_reset_def read_entry_reset_def)
    ultimately show ?thesis by blast
  next
    case (Some j)
    let ?v = "hr_result (ro_result ?ro) ! j"
    let ?e = "(set_key_reset (ro_table ?ro) k (fst ?old),
      read_entry_reset (ve_version ?v) (ve_tx_id ?v) (ve_begin_ts ?v) (ve_end_ts ?v)
        (ve_is_deleted ?v) (ve_read_record ?v) (ve_extension ?v) (snd ?old))"
    from Some assms p k have "same_ctl s s' \<and> ro_slot ?ro < length (read_entries s) \<and> x_ls s' = put_read (ro_slot ?ro) ?e (x_ls s)"
      by (auto simp: internal_read_def Let_def take_extension_def upd_read_op_def case_prod_beta same_ctl_def
          put_read_def split: if_splits dest!: on_result_ops)
    moreover have "keyed (ro_table ?ro) k ?e" "\<not> rs_is_updated (snd ?e)" "rs_need_release (snd ?e)"
      by (auto simp: keyed_def set_key_reset_def read_entry_reset_def)
    ultimately show ?thesis by blast
  qed
qed

lemma read_outside_reset_Inr:
  assumes "read_outside_reset t k rec d s = Inr s'"
  shows "x_vec s' = x_vec s \<and> x_trace s' = x_trace s \<and> x_status s' = x_status s \<and>
     x_finished s' = x_finished s \<and> x_commit_ts s' = x_commit_ts s \<and> x_max_writers s' = x_max_writers s \<and>
     o_base (x_ops s') = o_base (x_ops s) \<and> x_txn_id s' = x_txn_id s"
    and "\<exists>i p. new_read_slot (ls_read (x_ls s)) = Inr (i, p) \<and> ro_slot (o_read (x_ops s')) = i \<and>
      x_ls s' = put_read i (fst (pl_entries p ! i), (snd (pl_entries p ! i))\<lparr>rs_extension := None\<rparr>)
        ((x_ls s)\<lparr>ls_read := p\<rparr>)"
  using assms
  by (auto simp: read_outside_reset_def exec_insert_read_set_def ls_insert_read_set_def Let_def upd_read_op_def
      put_read_def case_prod_beta vec_at_eq_Inr)

lemma write_over_Inr:
  assumes "write_over j t k d rec s = Inr s'"
  shows "same_ctl s s' \<and> j < length (read_entries s) \<and> (\<exists>p. 
     new_write_slot t k (rs_version (snd (read_entries s ! j)) + 1) d rec (Some j) False (ls_write (x_ls s)) = Inr p \<and>
     x_ls s' = (put_read j (fst (read_entries s ! j), (snd (read_entries s ! j))\<lparr>rs_is_updated := True\<rparr>) (x_ls s))\<lparr>ls_write := snd p\<rparr>)"
  using assms
  by (auto simp: write_over_def exec_insert_write_set_def ls_insert_write_set_def put_read_def same_ctl_def
      vec_at_eq_Inr case_prod_beta dest!: on_result_finished_frame)

lemma op_next_vec:
  assumes "op_next r s = Inr (operation, s')"
  shows "x_vec s' = x_vec s"
proof -
  have "op_next_impl r s = Inr (operation, s') \<Longrightarrow> x_vec s' = x_vec s" for s
    by (cases r)
      (auto simp: read_outside_next_def upload_next_def upload_entry_next_def set_commit_next_def validate_next_def
       update_max_next_def push_next_def write_log_next_def status_commit_next_def post_commit_next_def
       commit_entry_next_def post_abort_next_def abort_entry_next_def release_next_def release_entry_next_def
       status_abort_next_def insert_next_def upsert_next_def init_txn_next_def read_ds_next_def base_defs Let_def
       set_commit_reset_def validate_reset_def push_reset_def same_ctl_def
       write_log_reset_def status_commit_reset_def post_commit_reset_def recover_def post_abort_reset_def
       release_reset_def reset_txn_id_and_time_def init_txn_reset_def
       split: if_splits option.splits
       dest!: on_result_ops on_result_finished_frame exec_get_time_frame internal_read_Inr write_over_Inr)
  then show ?thesis using assms by (auto simp: op_next_def base_defs)
qed

end
