(* ===== verification/Set_Invariants.thy ===== *)
theory Set_Invariants
  imports Stack_Frames
begin

text \<open>
  When a transaction's read and write sets are well formed, and what keeps them so: every live read
  entry has a key, every write entry is the next version of the read entry it points to, with the same
  key, and a read entry marked updated has such a write entry.
\<close>
section \<open>Well-formed read and write sets\<close>

definition write_ok :: "nat \<Rightarrow> local_state \<Rightarrow> nat \<Rightarrow> bool" where
  "write_ok m ls i \<longleftrightarrow> (\<exists>j t k. ws_read_entry (snd (pl_entries (ls_write ls) ! i)) = Some j \<and> j < m \<and>
     keyed t k (pl_entries (ls_write ls) ! i) \<and> keyed t k (pl_entries (ls_read ls) ! j) \<and>
     rs_is_updated (snd (pl_entries (ls_read ls) ! j)) \<and>
     ws_version (snd (pl_entries (ls_write ls) ! i)) = rs_version (snd (pl_entries (ls_read ls) ! j)) + 1)"

definition read_ok :: "local_state \<Rightarrow> nat \<Rightarrow> bool" where
  "read_ok ls j \<longleftrightarrow> (\<exists>t k. keyed t k (pl_entries (ls_read ls) ! j)) \<and>
     (rs_is_updated (snd (pl_entries (ls_read ls) ! j)) \<longrightarrow>
        (\<exists>i < pl_pop (ls_write ls). ws_read_entry (snd (pl_entries (ls_write ls) ! i)) = Some j))"

definition sets_ok :: "nat \<Rightarrow> local_state \<Rightarrow> bool" where
  "sets_ok m ls \<longleftrightarrow> pool_inv (ls_read ls) \<and> pool_inv (ls_write ls) \<and> m \<le> pl_pop (ls_read ls) \<and>
     (\<forall>j < m. read_ok ls j) \<and> (\<forall>i < pl_pop (ls_write ls). write_ok m ls i)"

definition same_read :: "set_key \<times> read_set_entry \<Rightarrow> set_key \<times> read_set_entry \<Rightarrow> bool" where
  "same_read a b \<longleftrightarrow> fst a = fst b \<and> rs_version (snd a) = rs_version (snd b) \<and>
     rs_is_updated (snd a) = rs_is_updated (snd b) \<and> rs_begin_ts (snd a) = rs_begin_ts (snd b)"

definition same_write :: "set_key \<times> write_set_entry \<Rightarrow> set_key \<times> write_set_entry \<Rightarrow> bool" where
  "same_write a b \<longleftrightarrow> fst a = fst b \<and> ws_version (snd a) = ws_version (snd b) \<and>
     ws_read_entry (snd a) = ws_read_entry (snd b)"

definition same_sets :: "local_state \<Rightarrow> local_state \<Rightarrow> bool" where
  "same_sets a b \<longleftrightarrow> pl_pop (ls_read b) = pl_pop (ls_read a) \<and> pl_capacity (ls_read b) = pl_capacity (ls_read a) \<and>
     length (pl_entries (ls_read b)) = length (pl_entries (ls_read a)) \<and>
     pl_pop (ls_write b) = pl_pop (ls_write a) \<and> pl_capacity (ls_write b) = pl_capacity (ls_write a) \<and>
     length (pl_entries (ls_write b)) = length (pl_entries (ls_write a)) \<and>
     (\<forall>j. same_read (pl_entries (ls_read a) ! j) (pl_entries (ls_read b) ! j)) \<and>
     (\<forall>i. same_write (pl_entries (ls_write a) ! i) (pl_entries (ls_write b) ! i))"

lemma same_sets_refl [simp]: "same_sets a a"
  by (simp add: same_sets_def same_read_def same_write_def)

lemma same_sets_trans: "same_sets a b \<Longrightarrow> same_sets b c \<Longrightarrow> same_sets a c"
  by (auto simp: same_sets_def same_read_def same_write_def)

lemma same_sets_ok:
  assumes "same_sets a b" "sets_ok m a"
  shows "sets_ok m b"
proof -
  have eq: "fst (pl_entries (ls_read b) ! j) = fst (pl_entries (ls_read a) ! j)"
    "rs_version (snd (pl_entries (ls_read b) ! j)) = rs_version (snd (pl_entries (ls_read a) ! j))"
    "rs_is_updated (snd (pl_entries (ls_read b) ! j)) = rs_is_updated (snd (pl_entries (ls_read a) ! j))"
    "fst (pl_entries (ls_write b) ! j) = fst (pl_entries (ls_write a) ! j)"
    "ws_version (snd (pl_entries (ls_write b) ! j)) = ws_version (snd (pl_entries (ls_write a) ! j))"
    "ws_read_entry (snd (pl_entries (ls_write b) ! j)) = ws_read_entry (snd (pl_entries (ls_write a) ! j))"
    "pl_pop (ls_read b) = pl_pop (ls_read a)" "pl_pop (ls_write b) = pl_pop (ls_write a)" for j
    using assms(1) by (auto simp: same_sets_def same_read_def same_write_def)
  have "pool_inv (ls_read b)" "pool_inv (ls_write b)"
    using assms by (auto simp: same_sets_def sets_ok_def pool_inv_def)
  with assms(2) show ?thesis
    by (simp add: sets_ok_def read_ok_def write_ok_def keyed_def eq)
qed

lemma same_sets_put_read:
  "same_read (pl_entries (ls_read ls) ! j) e \<Longrightarrow> same_sets ls (put_read j e ls)"
  by (auto simp: same_sets_def put_read_def same_read_def same_write_def nth_update)

lemma new_read_slot_entries:
  assumes "pool_inv p" "new_read_slot p = Inr (i, p')"
  shows "i = pl_pop p" "pl_pop p' = Suc (pl_pop p)" "pool_inv p'"
    "j < pl_pop p \<Longrightarrow> pl_entries p' ! j = pl_entries p ! j"
proof -
  from new_read_slot_ok [OF assms(1)] assms(2) obtain s where
    i: "i = pl_pop p" and inv: "pool_inv p'" and l: "live p' = live p @ [s]" by auto
  have "length (live p') = Suc (pl_pop p)" using l assms(1) by simp
  then show pop: "pl_pop p' = Suc (pl_pop p)" using inv by simp
  show "i = pl_pop p" "pool_inv p'" using i inv by auto
  assume j: "j < pl_pop p"
  then have "live p' ! j = live p ! j" using l assms(1) by (simp add: nth_append)
  with j pop show "pl_entries p' ! j = pl_entries p ! j" by (simp add: live_nth)
qed

lemma new_write_slot_entries:
  assumes "pool_inv p" "new_write_slot t k v d rec re npp p = Inr (i, p')"
  shows "i = pl_pop p" "pl_pop p' = Suc (pl_pop p)" "pool_inv p'"
    "j < pl_pop p \<Longrightarrow> pl_entries p' ! j = pl_entries p ! j"
    "write_slot_filled (t, k, v, d, rec, re, npp) (pl_entries p' ! pl_pop p)"
proof -
  from new_write_slot_ok [OF assms(1), of t k v d rec re npp] assms(2) obtain s where
    i: "i = pl_pop p" and inv: "pool_inv p'" and l: "live p' = live p @ [s]"
    and s: "write_slot_filled (t, k, v, d, rec, re, npp) s" by auto
  have "length (live p') = Suc (pl_pop p)" using l assms(1) by simp
  then show pop: "pl_pop p' = Suc (pl_pop p)" using inv by simp
  show "i = pl_pop p" "pool_inv p'" using i inv by auto
  have "live p' ! pl_pop p = s" using l assms(1) by (simp add: nth_append)
  then show "write_slot_filled (t, k, v, d, rec, re, npp) (pl_entries p' ! pl_pop p)"
    using s pop by (simp add: live_nth)
  assume j: "j < pl_pop p"
  then have "live p' ! j = live p ! j" using l assms(1) by (simp add: nth_append)
  with j pop show "pl_entries p' ! j = pl_entries p ! j" by (simp add: live_nth)
qed

lemma sets_ok_new_read:
  assumes "sets_ok (pl_pop (ls_read ls)) ls" "new_read_slot (ls_read ls) = Inr (i, p)"
  shows "i = pl_pop (ls_read ls)" "pl_pop p = Suc i" "sets_ok i (put_read i e (ls\<lparr>ls_read := p\<rparr>))"
proof -
  have inv: "pool_inv (ls_read ls)" using assms(1) by (simp add: sets_ok_def)
  note n = new_read_slot_entries [OF inv assms(2)]
  show "i = pl_pop (ls_read ls)" "pl_pop p = Suc i" using n by auto
  let ?ls = "put_read i e (ls\<lparr>ls_read := p\<rparr>)"
  have eq: "pl_entries (ls_read ?ls) ! j = pl_entries (ls_read ls) ! j" if "j < i" for j
    using that n by (simp add: put_read_def)
  have "ls_write ?ls = ls_write ls" "pl_pop (ls_read ?ls) = Suc i" "pool_inv (ls_read ?ls)"
    using n by (auto simp: put_read_def pool_inv_def)
  with assms(1) eq n(1) show "sets_ok i ?ls"
    unfolding sets_ok_def read_ok_def write_ok_def by (simp cong: conj_cong)
qed

lemma sets_ok_fill:
  assumes "sets_ok m ls" "pl_pop (ls_read ls) = Suc m" "keyed t k e" "\<not> rs_is_updated (snd e)"
  shows "sets_ok (Suc m) (put_read m e ls)"
proof -
  let ?ls = "put_read m e ls"
  have "m < length (pl_entries (ls_read ls))" using assms(1,2) by (auto simp: sets_ok_def pool_inv_def)
  then have "pl_entries (ls_read ?ls) ! m = e" by (simp add: put_read_def)
  moreover have eq: "pl_entries (ls_read ?ls) ! j = pl_entries (ls_read ls) ! j" if "j < m" for j
    using that by (simp add: put_read_def)
  moreover have "ls_write ?ls = ls_write ls" "pl_pop (ls_read ?ls) = Suc m" "pool_inv (ls_read ?ls)"
    using assms(1,2) by (auto simp: put_read_def pool_inv_def sets_ok_def)
  ultimately show ?thesis
    using assms unfolding sets_ok_def read_ok_def write_ok_def
    by (simp add: less_Suc_eq cong: conj_cong) metis
qed

lemma sets_ok_release:
  assumes "sets_ok m ls" "pl_pop (ls_read ls) = Suc m"
  shows "sets_ok m (ls_release_read_set ls)" "pl_pop (ls_read (ls_release_read_set ls)) = m"
    "ls_write (ls_release_read_set ls) = ls_write ls"
  using assms
  by (auto simp: sets_ok_def ls_release_read_set_def pool_release_def pool_inv_def read_ok_def write_ok_def)

lemma sets_ok_write_over:
  assumes ok: "sets_ok m ls" and j: "j < m" "keyed t k (pl_entries (ls_read ls) ! j)"
    and w: "new_write_slot t k (rs_version (snd (pl_entries (ls_read ls) ! j)) + 1) d rec (Some j) False (ls_write ls) = Inr (n, p)"
  shows "sets_ok m ((put_read j (fst (pl_entries (ls_read ls) ! j),
      (snd (pl_entries (ls_read ls) ! j))\<lparr>rs_is_updated := True\<rparr>) ls)\<lparr>ls_write := p\<rparr>)"
proof -
  let ?e = "(fst (pl_entries (ls_read ls) ! j), (snd (pl_entries (ls_read ls) ! j))\<lparr>rs_is_updated := True\<rparr>)"
  let ?ls = "(put_read j ?e ls)\<lparr>ls_write := p\<rparr>"
  have inv: "pool_inv (ls_write ls)" and jl: "j < length (pl_entries (ls_read ls))"
    using ok j by (auto simp: sets_ok_def pool_inv_def)
  note n = new_write_slot_entries [OF inv w]
  let ?w = "pl_entries p ! pl_pop (ls_write ls)"
  have f: "keyed t k ?w" "ws_version (snd ?w) = rs_version (snd (pl_entries (ls_read ls) ! j)) + 1"
    "ws_read_entry (snd ?w) = Some j"
    using n(5) by (cases ?w, auto)+
  have r: "fst (pl_entries (ls_read ?ls) ! a) = fst (pl_entries (ls_read ls) ! a)"
    "rs_version (snd (pl_entries (ls_read ?ls) ! a)) = rs_version (snd (pl_entries (ls_read ls) ! a))"
    "rs_is_updated (snd (pl_entries (ls_read ?ls) ! a)) \<longleftrightarrow> a = j \<or> rs_is_updated (snd (pl_entries (ls_read ls) ! a))" for a
    using jl by (auto simp: put_read_def nth_update)
  have k: "keyed t' k' (pl_entries (ls_read ?ls) ! a) \<longleftrightarrow> keyed t' k' (pl_entries (ls_read ls) ! a)" for t' k' a
    by (simp only: keyed_def r)
  have "read_ok ?ls a" if "a < m" for a
  proof -
    from ok that have "read_ok ls a" by (simp add: sets_ok_def)
    then show ?thesis
      unfolding read_ok_def k r using n(2,4) f(3) by (auto simp: less_Suc_eq)
  qed
  moreover have "write_ok m ?ls i" if i: "i < pl_pop p" for i
  proof (cases "i = pl_pop (ls_write ls)")
    case True
    then show ?thesis unfolding write_ok_def k r using f j by auto
  next
    case False
    with i n(2) have i: "i < pl_pop (ls_write ls)" by simp
    with ok have "write_ok m ls i" by (simp add: sets_ok_def)
    then show ?thesis unfolding write_ok_def k r using n(4) [OF i] by auto
  qed
  moreover have "pool_inv (ls_read ?ls)" "m \<le> pl_pop (ls_read ?ls)"
    using ok by (auto simp: sets_ok_def pool_inv_def put_read_def)
  ultimately show ?thesis using n(3) by (simp add: sets_ok_def)
qed
end
