(* ===== verification/Protocol.thy ===== *)
theory Protocol
  imports Set_Invariants
begin

text \<open>
  The commit protocol of an execution as phases: an abstract state machine, and for each phase what the
  execution has established and which operations may be on its stack.
\<close>

section \<open>Calls by stage\<close>

fun stage :: "storage_call \<Rightarrow> nat" where
  "stage (NewTxn _ _ _) = 0"
| "stage (GetVersionList _ _ _) = 0"
| "stage (ReadRecord _ _) = 0"
| "stage (UploadVersion _ _ _ _) = 1"
| "stage (SetCommitTimestamp _ _ _) = 2"
| "stage (UpdateMaxCommitTsAndReread _ _ _ _ _) = 3"
| "stage (UpdateCommitLowerBound _ _) = 3"
| "stage (AsyncAppend _ _ _) = 4"
| "stage (UpdateTxnStatus _ _ _) = 5"
| "stage (CommitVersion _ _ _ _ _ _ _ _ _) = 6"
| "stage (DeleteVersion _ _ _ _) = 6"
| "stage (ReleaseReadCounter _ _ _ _) = 7"

definition stages :: "exec \<Rightarrow> nat list" where
  "stages s = map (\<lambda>(_, c). stage c) (x_trace s)"

definition ordered :: "nat \<Rightarrow> exec \<Rightarrow> bool" where
  "ordered k s \<longleftrightarrow> sorted (stages s) \<and> (\<forall>n \<in> set (stages s). n \<le> k)"

fun decision_of :: "storage_call \<Rightarrow> txn_status list" where
  "decision_of (UpdateTxnStatus _ st _) = [st]"
| "decision_of _ = []"

definition decisions :: "exec \<Rightarrow> txn_status list" where
  "decisions s = concat (map (\<lambda>(_, c). decision_of c) (x_trace s))"

definition calls_at :: "nat \<Rightarrow> exec \<Rightarrow> storage_call list" where
  "calls_at n s = filter (\<lambda>c. stage c = n) (map snd (x_trace s))"

lemma decisions_before:
  assumes "ordered k s" "k < 5"
  shows "decisions s = []"
proof -
  have "stage c < 5 \<Longrightarrow> decision_of c = []" for c by (cases c) auto
  with assms show ?thesis by (fastforce simp: ordered_def stages_def decisions_def)
qed

lemma calls_at_above: "ordered k s \<Longrightarrow> k < n \<Longrightarrow> calls_at n s = []"
  by (fastforce simp: ordered_def stages_def calls_at_def filter_empty_conv)

lemma ordered_mono: "ordered k s \<Longrightarrow> k \<le> n \<Longrightarrow> ordered n s"
  by (fastforce simp: ordered_def)

lemma ordered_log [simp]:
  assumes "stage c = n"
  shows "ordered n (log_call r c s) \<longleftrightarrow> ordered n s"
  using assms by (auto simp: ordered_def stages_def log_call_def sorted_append)

lemma decisions_log [simp]: "decisions (log_call r c s) = decisions s @ decision_of c"
  by (simp add: decisions_def log_call_def)

lemma calls_at_log [simp]: "calls_at n (log_call r c s) = calls_at n s @ (if stage c = n then [c] else [])"
  by (simp add: calls_at_def log_call_def)

section \<open>What each phase has established\<close>

abbreviation need_post :: "exec \<Rightarrow> nat \<Rightarrow> bool" where
  "need_post s i \<equiv> ws_need_post_processing (snd (write_entries s ! i))"

text \<open>The upload of write \<open>i\<close> was sent, for its key and version.\<close>

definition upload_sent :: "exec \<Rightarrow> nat \<Rightarrow> bool" where
  "upload_sent s i \<longleftrightarrow> (\<exists>t k v x. (OpUploadEntry i, UploadVersion t k v x) \<in> set (x_trace s) \<and>
     keyed t k (write_entries s ! i) \<and> ve_version v = ws_version (snd (write_entries s ! i)))"

text \<open>Write \<open>i\<close> is in the store: its upload was sent and accepted.\<close>

definition uploaded :: "exec \<Rightarrow> nat \<Rightarrow> bool" where
  "uploaded s i \<longleftrightarrow> i < length (o_upload_entries (x_ops s)) \<and>
     (let u = o_upload_entries (x_ops s) ! i
      in ue_slot u = i \<and> hr_finished (ue_result u) \<and> \<not> hr_error (ue_result u) \<and>
         hr_result (ue_result u) \<le> x_max_writers s) \<and>
     upload_sent s i"

definition all_uploaded :: "exec \<Rightarrow> bool" where
  "all_uploaded s \<longleftrightarrow> (\<forall>i < write_size s. need_post s i \<and> uploaded s i)"

text \<open>
  The commit timestamp proposed to the store is above the timestamps the uploads returned, not below the
  begin of any version read, and above the begin of the versions that are overwritten.
\<close>

definition proposed :: "exec \<Rightarrow> bool" where
  "proposed s \<longleftrightarrow> (\<exists>i ts x. (OpSetCommitTs, SetCommitTimestamp i ts x) \<in> set (x_trace s) \<and> x_max_writers s < ts \<and>
     (\<forall>j < read_size s. let e = snd (read_entries s ! j)
        in rs_begin_ts e \<le> ts \<and> (rs_is_updated e \<longrightarrow> rs_begin_ts e < ts)))"

definition commit_ts_ok :: "exec \<Rightarrow> bool" where
  "commit_ts_ok s \<longleftrightarrow> proposed s \<and> \<not> hr_error (o_set_commit (x_ops s)) \<and> hr_finished (o_set_commit (x_ops s)) \<and>
     x_commit_ts s = hr_result (o_set_commit (x_ops s)) \<and> 0 \<le> x_commit_ts s"

text \<open>The re-read of validation \<open>i\<close> keeps the version visible at the commit time.\<close>

definition reread_ok :: "exec \<Rightarrow> nat \<Rightarrow> bool" where
  "reread_ok s i \<longleftrightarrow>
     (let u = o_update_max (x_ops s) ! i; v = hr_result (um_result u)
      in hr_finished (um_result u) \<and> \<not> hr_error (um_result u) \<and> ve_version v \<noteq> kDefaultVersion \<and>
         x_commit_ts s \<le> ve_max_commit_ts v \<and> x_commit_ts s \<le> ve_end_ts v)"

definition overwriter :: "exec \<Rightarrow> nat \<Rightarrow> int" where
  "overwriter s i = ve_tx_id (hr_result (um_result (o_update_max (x_ops s) ! i)))"

text \<open>The calls of validation \<open>i\<close>: the re-read of the version that was read, and the push of the transaction that locks it.\<close>

definition reread_sent :: "exec \<Rightarrow> nat \<Rightarrow> bool" where
  "reread_sent s i \<longleftrightarrow> (\<exists>t k x. let e = read_entries s ! (o_read_index (x_ops s) ! i) in keyed t k e \<and>
     (OpUpdateMaxTs i, UpdateMaxCommitTsAndReread t k (rs_version (snd e)) (x_commit_ts s) x) \<in> set (x_trace s))"

definition push_sent :: "exec \<Rightarrow> nat \<Rightarrow> bool" where
  "push_sent s i \<longleftrightarrow> (OpPushLowerBound i, UpdateCommitLowerBound (overwriter s i) (x_commit_ts s + 1)) \<in> set (x_trace s)"

definition validated :: "exec \<Rightarrow> nat \<Rightarrow> bool" where
  "validated s i \<longleftrightarrow> reread_ok s i \<and>
     (overwriter s i = kEmptyTxId \<or> push_sent s i \<and>
      (let p = o_push (x_ops s) ! i
       in pu_txn_id p = overwriter s i \<and> hr_finished (pu_result p) \<and> \<not> hr_error (pu_result p) \<and>
          \<not> push_conflicts (x_commit_ts s) (hr_result (pu_result p))))"

definition unwritten_reads :: "exec \<Rightarrow> nat list" where
  "unwritten_reads s = filter (\<lambda>j. \<not> rs_is_updated (snd (read_entries s ! j))) [0..<read_size s]"

abbreviation held :: "exec \<Rightarrow> nat \<Rightarrow> bool" where
  "held s j \<equiv> rs_need_release (snd (read_entries s ! j))"

definition all_validated :: "exec \<Rightarrow> bool" where
  "all_validated s \<longleftrightarrow> o_read_index (x_ops s) = unwritten_reads s \<and>
     (\<forall>i < length (o_read_index (x_ops s)).
        um_slot (o_update_max (x_ops s) ! i) = o_read_index (x_ops s) ! i \<and> reread_sent s i \<and> validated s i \<and>
        \<not> held s (o_read_index (x_ops s) ! i))"

definition commit_call_of :: "exec \<Rightarrow> nat \<Rightarrow> storage_call" where
  "commit_call_of s i =
     (case write_entries s ! i of (sk, w) \<Rightarrow>
        CommitVersion (the (sk_table sk)) (the (sk_key sk)) (ws_version w) (x_txn_id s) (x_commit_ts s)
          kMaxTimeStamp kEmptyTxId (ws_extension w) (ws_record w))"

definition delete_call_of :: "exec \<Rightarrow> nat \<Rightarrow> storage_call" where
  "delete_call_of s i =
     (case write_entries s ! i of (sk, w) \<Rightarrow>
        DeleteVersion (the (sk_table sk)) (the (sk_key sk)) (ws_version w) (ws_extension w))"

definition release_call_of :: "exec \<Rightarrow> nat \<Rightarrow> storage_call" where
  "release_call_of s j =
     (case read_entries s ! j of (sk, e) \<Rightarrow>
        ReleaseReadCounter (the (sk_table sk)) (the (sk_key sk)) (rs_version e) (rs_extension e))"

section \<open>The phases of a transaction\<close>

text \<open>
  The abstract protocol: the phases a transaction goes through.  \<open>Client r\<close> runs the client operation
  \<open>r\<close>, \<open>Reading\<close> has a read of the version store outstanding.
\<close>

datatype phase = Idle | Client op_ref | Reading op_ref | Uploading | Timestamping | Validating | Logging
  | Deciding | Finalizing | Done | Rejecting | Undoing | Releasing | Undone

definition only :: "op_ref set \<Rightarrow> exec \<Rightarrow> bool" where
  "only R s \<longleftrightarrow> (\<forall>r. on_stack s r \<longrightarrow> r \<in> R)"

definition running :: "nat \<Rightarrow> exec \<Rightarrow> bool" where
  "running k s \<longleftrightarrow> ordered k s \<and> \<not> x_finished s \<and> x_status s = Ongoing \<and>
     sets_ok (read_size s) (x_ls s)"

definition client_state :: "nat \<Rightarrow> exec \<Rightarrow> bool" where
  "client_state m s \<longleftrightarrow> ordered 0 s \<and> \<not> x_finished s \<and> x_status s = Ongoing \<and> x_commit_ts s = - 1 \<and>
     x_max_writers s = - 1 \<and> sets_ok m (x_ls s) \<and> (\<forall>i < write_size s. \<not> need_post s i)"

definition reading :: "op_ref \<Rightarrow> exec \<Rightarrow> bool" where
  "reading q s \<longleftrightarrow> client_state (ro_slot (o_read (x_ops s))) s \<and>
     read_size s = Suc (ro_slot (o_read (x_ops s))) \<and>
     on_stack s OpReadOutside \<and> only {OpReadOutside, q} s \<and> \<not> move_to_next s OpReadOutside"

text \<open>An operation that was called is still on the stack, or has been moved on from.\<close>

abbreviation moved :: "exec \<Rightarrow> op_ref \<Rightarrow> bool" where
  "moved s r \<equiv> on_stack s r \<or> move_to_next s r"

definition upload_child :: "exec \<Rightarrow> nat \<Rightarrow> bool" where
  "upload_child s i \<longleftrightarrow> ue_slot (o_upload_entries (x_ops s) ! i) = i \<and>
     upload_sent s i \<and>
     (if on_stack s (OpUploadEntry i) then \<not> move_to_next s (OpUploadEntry i) \<and> \<not> need_post s i
      else move_to_next s (OpUploadEntry i) \<and> hr_finished (ue_result (o_upload_entries (x_ops s) ! i)) \<and>
        (if need_post s i then uploaded s i
         else x_status s = WaitForAborting \<and> hr_error (ue_result (o_upload_entries (x_ops s) ! i))))"

definition uploading :: "nat \<Rightarrow> exec \<Rightarrow> bool" where
  "uploading n s \<longleftrightarrow> ordered 1 s \<and> \<not> x_finished s \<and> x_status s \<in> {Ongoing, WaitForAborting} \<and>
     sets_ok (read_size s) (x_ls s) \<and> x_commit_ts s = - 1 \<and>
     o_upload_size (x_ops s) = write_size s \<and> write_size s \<le> length (o_upload_entries (x_ops s)) \<and>
     on_stack s OpUpload \<and> only (insert OpUpload (OpUploadEntry ` {..<n})) s \<and>
     (\<forall>i < n. upload_child s i) \<and> (\<forall>i < write_size s. n \<le> i \<longrightarrow> \<not> need_post s i \<and>
       \<not> (\<exists>t k v x. (OpUploadEntry i, UploadVersion t k v x) \<in> set (x_trace s)))"

definition timestamping :: "exec \<Rightarrow> bool" where
  "timestamping s \<longleftrightarrow> running 2 s \<and> all_uploaded s \<and> proposed s \<and> on_stack s OpSetCommitTs \<and> only {OpSetCommitTs} s"

definition validate_child :: "exec \<Rightarrow> nat \<Rightarrow> bool" where
  "validate_child s i \<longleftrightarrow> um_slot (o_update_max (x_ops s) ! i) = o_read_index (x_ops s) ! i \<and>
     um_index (o_update_max (x_ops s) ! i) = i \<and> reread_sent s i \<and>
     (if on_stack s (OpUpdateMaxTs i)
      then \<not> on_stack s (OpPushLowerBound i) \<and> \<not> move_to_next s (OpUpdateMaxTs i)
      else if on_stack s (OpPushLowerBound i)
      then \<not> move_to_next s (OpPushLowerBound i) \<and> has_next s (OpUpdateMaxTs i) \<and> move_to_next s (OpUpdateMaxTs i) \<and>
        reread_ok s i \<and> push_sent s i \<and>
        overwriter s i \<noteq> kEmptyTxId \<and> pu_txn_id (o_push (x_ops s) ! i) = overwriter s i \<and>
        \<not> held s (o_read_index (x_ops s) ! i)
      else hr_finished (um_result (o_update_max (x_ops s) ! i)) \<and> move_to_next s (OpUpdateMaxTs i) \<and>
        (has_next s (OpUpdateMaxTs i) \<longrightarrow> hr_finished (pu_result (o_push (x_ops s) ! i)) \<and> move_to_next s (OpPushLowerBound i)) \<and>
        (x_status s = WaitForAborting \<or> validated s i \<and> \<not> held s (o_read_index (x_ops s) ! i)))"

definition validating :: "nat \<Rightarrow> exec \<Rightarrow> bool" where
  "validating n s \<longleftrightarrow> ordered 3 s \<and> \<not> x_finished s \<and> x_status s \<in> {Ongoing, WaitForAborting} \<and>
     sets_ok (read_size s) (x_ls s) \<and> all_uploaded s \<and> commit_ts_ok s \<and>
     o_read_index (x_ops s) = unwritten_reads s \<and>
     length (o_read_index (x_ops s)) \<le> length (o_update_max (x_ops s)) \<and>
     length (o_read_index (x_ops s)) \<le> length (o_push (x_ops s)) \<and>
     on_stack s OpValidate \<and>
     only (insert OpValidate (OpUpdateMaxTs ` {..<n} \<union> OpPushLowerBound ` {..<n})) s \<and>
     (\<forall>i < n. validate_child s i)"

definition logging :: "exec \<Rightarrow> bool" where
  "logging s \<longleftrightarrow> running 4 s \<and> all_uploaded s \<and> commit_ts_ok s \<and> all_validated s \<and>
     on_stack s OpWriteLog \<and> only {OpWriteLog} s"

definition deciding :: "exec \<Rightarrow> bool" where
  "deciding s \<longleftrightarrow> running 5 s \<and> all_uploaded s \<and> commit_ts_ok s \<and> all_validated s \<and>
     decisions s = [Committed] \<and> on_stack s OpStatusCommit \<and> only {OpStatusCommit} s"

text \<open>The commit decision stands: it was sent and acknowledged, and everything it needs holds.\<close>

definition decided :: "exec \<Rightarrow> bool" where
  "decided s \<longleftrightarrow> ordered 6 s \<and> sets_ok (read_size s) (x_ls s) \<and> all_uploaded s \<and> commit_ts_ok s \<and>
     all_validated s \<and> decisions s = [Committed] \<and> hr_finished (o_status_commit (x_ops s)) \<and>
     \<not> hr_error (o_status_commit (x_ops s))"

definition commit_child :: "exec \<Rightarrow> nat \<Rightarrow> bool" where
  "commit_child s i \<longleftrightarrow> en_slot (o_commit_entries (x_ops s) ! i) = i \<and>
     (if on_stack s (OpPostCommitEntry i) then \<not> move_to_next s (OpPostCommitEntry i)
      else hr_ref_cnt (en_result (o_commit_entries (x_ops s) ! i)) = 0 \<and>
           \<not> hr_error (en_result (o_commit_entries (x_ops s) ! i)) \<and>
           (\<forall>j. ws_read_entry (snd (write_entries s ! i)) = Some j \<longrightarrow> \<not> held s j))"

definition finalizing :: "nat \<Rightarrow> exec \<Rightarrow> bool" where
  "finalizing n s \<longleftrightarrow> decided s \<and> \<not> x_finished s \<and> x_status s = Ongoing \<and>
     o_commit_index (x_ops s) = [0..<write_size s] \<and>
     write_size s \<le> length (o_commit_entries (x_ops s)) \<and>
     calls_at 6 s = map (commit_call_of s) [0..<n] \<and>
     on_stack s OpPostCommit \<and> only (insert OpPostCommit (OpPostCommitEntry ` {..<n})) s \<and>
     (\<forall>i < n. commit_child s i \<and> moved s (OpPostCommitEntry i))"

definition committed :: "exec \<Rightarrow> bool" where
  "committed s \<longleftrightarrow> decided s \<and> x_finished s \<and> x_status s = Committed \<and> only {} s \<and>
     calls_at 6 s = map (commit_call_of s) [0..<write_size s] \<and>
     (\<forall>i < write_size s. commit_child s i) \<and> (\<forall>j < read_size s. \<not> held s j)"

text \<open>An abort undoes exactly the writes whose upload was accepted.\<close>

definition accepted_writes :: "exec \<Rightarrow> nat list" where
  "accepted_writes s = filter (\<lambda>i. need_post s i) [0..<write_size s]"

definition abort_state :: "nat \<Rightarrow> exec \<Rightarrow> bool" where
  "abort_state k s \<longleftrightarrow> ordered k s \<and> sets_ok (read_size s) (x_ls s) \<and>
     (\<forall>i < write_size s. need_post s i \<longleftrightarrow> uploaded s i)"

definition rejecting :: "exec \<Rightarrow> bool" where
  "rejecting s \<longleftrightarrow> abort_state 5 s \<and> \<not> x_finished s \<and> x_status s \<in> {Ongoing, Aborted} \<and>
     decisions s = [Aborted] \<and> on_stack s OpStatusAbort \<and> only {OpStatusAbort} s"

definition rejected :: "nat \<Rightarrow> exec \<Rightarrow> bool" where
  "rejected k s \<longleftrightarrow> abort_state k s \<and> decisions s = [Aborted] \<and> hr_finished (o_status_abort (x_ops s)) \<and>
     \<not> hr_error (o_status_abort (x_ops s))"

definition undo_child :: "exec \<Rightarrow> nat \<Rightarrow> bool" where
  "undo_child s i \<longleftrightarrow> en_slot (o_abort_entries (x_ops s) ! i) = accepted_writes s ! i \<and>
     (if on_stack s (OpPostAbortEntry i) then \<not> move_to_next s (OpPostAbortEntry i)
      else hr_finished (en_result (o_abort_entries (x_ops s) ! i)) \<and>
           \<not> hr_error (en_result (o_abort_entries (x_ops s) ! i)))"

definition undoing :: "nat \<Rightarrow> exec \<Rightarrow> bool" where
  "undoing n s \<longleftrightarrow> rejected 6 s \<and> \<not> x_finished s \<and> x_status s \<in> {Ongoing, Aborted} \<and>
     o_abort_index (x_ops s) = accepted_writes s \<and>
     length (accepted_writes s) \<le> length (o_abort_entries (x_ops s)) \<and>
     calls_at 6 s = map (delete_call_of s) (take n (accepted_writes s)) \<and>
     on_stack s OpPostAbort \<and> only (insert OpPostAbort (OpPostAbortEntry ` {..<n})) s \<and>
     (\<forall>i < n. undo_child s i \<and> moved s (OpPostAbortEntry i))"

definition undone :: "exec \<Rightarrow> bool" where
  "undone s \<longleftrightarrow> rejected 7 s \<and> calls_at 6 s = map (delete_call_of s) (accepted_writes s) \<and>
     (\<forall>i < length (accepted_writes s). undo_child s i)"

definition release_child :: "exec \<Rightarrow> nat \<Rightarrow> bool" where
  "release_child s i \<longleftrightarrow> en_slot (o_release_entries (x_ops s) ! i) = o_release_index (x_ops s) ! i \<and>
     (if on_stack s (OpReleaseEntry i) then \<not> move_to_next s (OpReleaseEntry i)
      else hr_finished (en_result (o_release_entries (x_ops s) ! i)) \<and>
           \<not> hr_error (en_result (o_release_entries (x_ops s) ! i)) \<and>
           \<not> held s (o_release_index (x_ops s) ! i))"

definition releasing :: "nat \<Rightarrow> exec \<Rightarrow> bool" where
  "releasing n s \<longleftrightarrow> undone s \<and> \<not> x_finished s \<and> x_status s \<in> {Ongoing, Aborted} \<and>
     length (o_release_index (x_ops s)) \<le> length (o_release_entries (x_ops s)) \<and>
     sorted_wrt (<) (o_release_index (x_ops s)) \<and> set (o_release_index (x_ops s)) \<subseteq> {..<read_size s} \<and>
     (\<forall>j < read_size s. held s j \<longrightarrow> j \<in> set (o_release_index (x_ops s))) \<and>
     calls_at 7 s = map (release_call_of s) (take n (o_release_index (x_ops s))) \<and>
     on_stack s OpReleaseCounter \<and> only (insert OpReleaseCounter (OpReleaseEntry ` {..<n})) s \<and>
     (\<forall>i < n. release_child s i \<and> moved s (OpReleaseEntry i))"

definition aborted :: "exec \<Rightarrow> bool" where
  "aborted s \<longleftrightarrow> undone s \<and> x_finished s \<and> x_status s = Aborted \<and> only {} s \<and>
     calls_at 7 s = map (release_call_of s) (o_release_index (x_ops s)) \<and>
     (\<forall>j < read_size s. \<not> held s j)"

fun in_phase :: "phase \<Rightarrow> exec \<Rightarrow> bool" where
  "in_phase Idle s = (client_state (read_size s) s \<and> only {} s)"
| "in_phase (Client r) s = (r \<in> {OpInsert, OpUpsert, OpUpdate, OpDelete, OpInitTxn, OpReadDs} \<and>
     client_state (read_size s) s \<and> on_stack s r \<and> only {r} s)"
| "in_phase (Reading q) s = (q \<in> {OpReadOutside, OpInsert, OpUpsert} \<and> reading q s \<and> on_stack s q)"
| "in_phase Uploading s = uploading (write_size s) s"
| "in_phase Timestamping s = timestamping s"
| "in_phase Validating s = validating (length (o_read_index (x_ops s))) s"
| "in_phase Logging s = logging s"
| "in_phase Deciding s = deciding s"
| "in_phase Finalizing s = finalizing (write_size s) s"
| "in_phase Done s = committed s"
| "in_phase Rejecting s = rejecting s"
| "in_phase Undoing s = undoing (length (accepted_writes s)) s"
| "in_phase Releasing s = releasing (length (o_release_index (x_ops s))) s"
| "in_phase Undone s = aborted s"

section \<open>Effects of a visit on the stack\<close>

lemma on_stack_set: "on_stack s r \<longleftrightarrow> r \<in> set (stack_ops (x_vec s))"
  by (simp add: on_stack_def set_stack_ops)

lemma popped_stack:
  assumes "popped i r s s'" "stack_ok s"
  shows "stack_ok s'" "on_stack s' q \<longleftrightarrow> on_stack s q \<and> q \<noteq> r" "on_stack s r"
proof -
  from assms(1) obtain s1 where i: "i < length (x_vec s)" "x_vec s ! i = Some r"
    and s1: "op_next r s = Inr (None, s1)" and s': "s' = s1\<lparr>x_vec := (x_vec s1)[i := None]\<rparr>"
    by (auto simp: popped_def)
  then have v: "x_vec s' = (x_vec s)[i := None]" by (simp add: op_next_vec)
  have d: "distinct (stack_ops (x_vec s))" using assms(2) by (simp add: stack_ok_def)
  show "stack_ok s'" "on_stack s' q \<longleftrightarrow> on_stack s q \<and> q \<noteq> r"
    using stack_remove [OF i d] v by (auto simp: stack_ok_def on_stack_set)
  show "on_stack s r" unfolding on_stack_def using i nth_mem by fastforce
qed

lemma replaced_stack:
  assumes "replaced i r q s s'" "stack_ok s" "\<not> on_stack s q \<or> q = r"
  obtains s1 s2 where "op_next r s = Inr (Some q, s1)" "s2 = s1\<lparr>x_vec := (x_vec s1)[i := Some q]\<rparr>"
    "op_call q s2 = Inr s'" "stack_ok s2" "\<And>a. on_stack s2 a \<longleftrightarrow> on_stack s a \<and> a \<noteq> r \<or> a = q" "on_stack s r"
    "op_finished r s = Inr True"
proof -
  from assms(1) obtain s1 where i: "i < length (x_vec s)" "x_vec s ! i = Some r"
    and s1: "op_next r s = Inr (Some q, s1)" and s': "op_call q (s1\<lparr>x_vec := (x_vec s1)[i := Some q]\<rparr>) = Inr s'"
    and f: "op_finished r s = Inr True"
    by (auto simp: replaced_def)
  let ?s2 = "s1\<lparr>x_vec := (x_vec s1)[i := Some q]\<rparr>"
  have v: "x_vec ?s2 = (x_vec s)[i := Some q]" using s1 by (simp add: op_next_vec)
  have d: "distinct (stack_ops (x_vec s))" using assms(2) by (simp add: stack_ok_def)
  have q: "q \<notin> set (stack_ops (x_vec s)) - {r}" using assms(3) by (auto simp: on_stack_set)
  have "stack_ok ?s2" "\<And>a. on_stack ?s2 a \<longleftrightarrow> on_stack s a \<and> a \<noteq> r \<or> a = q"
    using stack_replace [OF i d q] v by (auto simp: stack_ok_def on_stack_set)
  moreover have "on_stack s r" unfolding on_stack_def using i nth_mem by fastforce
  ultimately show thesis using that s1 s' f by blast
qed

lemma push_stack_simps [simp]:
  "on_stack (push_stack r s) q \<longleftrightarrow> on_stack s q \<or> q = r"
  "stack_ok (push_stack r s) \<longleftrightarrow> stack_ok s \<and> \<not> on_stack s r"
  by (auto simp: push_stack_def on_stack_def stack_ok_def set_stack_ops)

lemma upload_sent_mono:
  assumes "upload_sent s j" "set (x_trace s) \<subseteq> set (x_trace s')" "same_write (write_entries s ! j) (write_entries s' ! j)"
  shows "upload_sent s' j"
  using assms by (fastforce simp: upload_sent_def same_write_def keyed_def)

lemma uploaded_mono:
  assumes "uploaded s j" "length (o_upload_entries (x_ops s)) \<le> length (o_upload_entries (x_ops s'))"
    "ue_slot (o_upload_entries (x_ops s') ! j) = ue_slot (o_upload_entries (x_ops s) ! j)"
    "ue_result (o_upload_entries (x_ops s') ! j) = ue_result (o_upload_entries (x_ops s) ! j)"
    "set (x_trace s) \<subseteq> set (x_trace s')" "x_max_writers s \<le> x_max_writers s'"
    "same_write (write_entries s ! j) (write_entries s' ! j)"
  shows "uploaded s' j"
  using assms upload_sent_mono [of s j s'] by (auto simp: uploaded_def Let_def)

lemma same_sets_sizes:
  "same_sets (x_ls s) (x_ls s') \<Longrightarrow> write_size s' = write_size s \<and> read_size s' = read_size s"
  by (simp add: same_sets_def write_size_def read_size_def ls_write_size_def ls_read_size_def)

lemma ordered_trace: "x_trace s' = x_trace s \<Longrightarrow> ordered k s' \<longleftrightarrow> ordered k s"
  by (simp add: ordered_def stages_def)

definition abortable :: "exec \<Rightarrow> bool" where
  "abortable s \<longleftrightarrow> abort_state 4 s \<and> \<not> x_finished s"

lemma propose_step_bound:
  assumes "propose_step s j a = Inr b" "sets_ok (read_size s) (x_ls s)" "j < read_size s"
  shows "a \<le> b \<and> rs_begin_ts (snd (read_entries s ! j)) \<le> b \<and>
    (rs_is_updated (snd (read_entries s ! j)) \<longrightarrow> rs_begin_ts (snd (read_entries s ! j)) < b)"
proof -
  obtain sk e t k w where e: "read_entries s ! j = (sk, e)" and k: "keyed t k (sk, e)"
    and w: "exec_find_in_write_set s t k = Inr w"
    and b: "b = max a (if w \<noteq> None then rs_begin_ts e + 1 else rs_begin_ts e)"
    using assms(1) by (cases "read_entries s ! j") (auto simp: propose_step_def vec_at_eq_Inr slot_key_def keyed_def i64_add_def i64_check_def split: if_splits)
  have "w \<noteq> None" if u: "rs_is_updated e"
  proof -
    have "read_ok (x_ls s) j" using assms(2,3) by (simp add: sets_ok_def)
    with u e obtain i where i: "i < pl_pop (ls_write (x_ls s))" "ws_read_entry (snd (write_entries s ! i)) = Some j"
      by (auto simp: read_ok_def)
    then have "write_ok (read_size s) (x_ls s) i" using assms(2) by (simp add: sets_ok_def)
    with i e k have ki: "keyed t k (write_entries s ! i)" by (auto simp: write_ok_def keyed_def)
    have inv: "pool_inv (ls_write (x_ls s))" using assms(2) by (simp add: sets_ok_def)
    then have "w = newest (live (ls_write (x_ls s))) t k"
      using w write_set.find_sound by (simp add: exec_find_in_write_set_def ls_find_in_write_set_def)
    moreover have "write_entries s ! i \<in> set (live (ls_write (x_ls s)))"
      using i(1) inv live_nth [OF i(1)] nth_mem [of i "live (ls_write (x_ls s))"] by simp
    ultimately show ?thesis using ki newest_None_iff by metis
  qed
  with b e show ?thesis by auto
qed

lemma proposed_ts_bound:
  assumes "proposed_commit_ts s = Inr ts" "sets_ok (read_size s) (x_ls s)"
  shows "x_max_writers s < ts \<and> (\<forall>j < read_size s. let e = snd (read_entries s ! j)
     in rs_begin_ts e \<le> ts \<and> (rs_is_updated e \<longrightarrow> rs_begin_ts e < ts))"
proof -
  let ?m = "max (x_max_writers s + 1) (x_commit_local s)"
  have f: "rfold (propose_step s) [0..<read_size s] ?m = Inr ts"
    using assms(1) by (auto simp: proposed_commit_ts_def)
  have "?m \<le> ts \<and> (\<forall>j < read_size s. let e = snd (read_entries s ! j)
     in rs_begin_ts e \<le> ts \<and> (rs_is_updated e \<longrightarrow> rs_begin_ts e < ts))"
    by (rule rfold_upto [OF f, where P = "\<lambda>n a. ?m \<le> a \<and> (\<forall>j < n. let e = snd (read_entries s ! j)
         in rs_begin_ts e \<le> a \<and> (rs_is_updated e \<longrightarrow> rs_begin_ts e < a))"])
      (use propose_step_bound [OF _ assms(2)] in \<open>fastforce simp: less_Suc_eq Let_def\<close>)+
  then show ?thesis by auto
qed

lemma set_commit_call_proposed:
  assumes "set_commit_call s = Inr s'" "sets_ok (read_size s) (x_ls s)"
  shows "proposed s'"
proof -
  from assms(1) obtain s1 ts s2 where s1: "reset_time s = Inr s1" and p: "proposed_commit_ts s1 = Inr ts"
    and s2: "set_commit_ts ts s1 = Inr s2"
    and s': "s' = log_call OpSetCommitTs (SetCommitTimestamp (x_txn_id s2) ts (te_extension (x_txn_entry s2))) s2"
    by (auto simp: set_commit_call_def)
  have f: "x_ls s1 = x_ls s" "x_ls s' = x_ls s1" "x_max_writers s' = x_max_writers s1"
    using s1 s2 s' by (auto simp: reset_time_def exec_get_time_def set_commit_ts_def log_call_def)
  then have "sets_ok (read_size s1) (x_ls s1)" using assms(2) by (simp add: read_size_def)
  from proposed_ts_bound [OF p this] show ?thesis
    unfolding proposed_def using s' f by (fastforce simp: log_call_def read_size_def)
qed

lemma set_commit_call_Inr:
  assumes "set_commit_call s = Inr s'"
  obtains w l e ts where "s' = log_call OpSetCommitTs (SetCommitTimestamp (x_txn_id s) ts (te_extension (x_txn_entry s)))
      (s\<lparr>w_time := w, x_commit_local := l, x_txn_entry := e, x_commit_ts := ts\<rparr>)"
proof -
  from assms obtain s1 ts s2 where s1: "reset_time s = Inr s1" and "proposed_commit_ts s1 = Inr ts"
    and s2: "set_commit_ts ts s1 = Inr s2"
    and s': "s' = log_call OpSetCommitTs (SetCommitTimestamp (x_txn_id s2) ts (te_extension (x_txn_entry s2))) s2"
    by (auto simp: set_commit_call_def)
  from s1 obtain w t where w: "s1 = s\<lparr>w_time := w, x_commit_local := t, x_txn_entry := txn_entry_reset_bound t (x_txn_entry s)\<rparr>"
    by (auto simp: reset_time_def exec_get_time_def)
  from s2 obtain w2 where "s2 = s1\<lparr>x_commit_ts := ts, w_time := w2\<rparr>"
    by (auto simp: set_commit_ts_def)
  then have "s2 = s\<lparr>w_time := w2, x_commit_local := t, x_txn_entry := txn_entry_reset_bound t (x_txn_entry s), x_commit_ts := ts\<rparr>"
    using w by simp
  with s' show thesis
    by (intro that [where e = "txn_entry_reset_bound t (x_txn_entry s)" and ts = ts and w = w2 and l = t])
      (auto simp: txn_entry_reset_bound_def)
qed

lemma all_uploaded_frame:
  assumes "all_uploaded s" "ls_write (x_ls s') = ls_write (x_ls s)" "o_upload_entries (x_ops s') = o_upload_entries (x_ops s)"
    "set (x_trace s) \<subseteq> set (x_trace s')" "x_max_writers s' = x_max_writers s"
  shows "all_uploaded s'"
  using assms uploaded_mono [of s _ s'] by (auto simp: all_uploaded_def write_size_def ls_write_size_def same_write_def)

lemma proposed_frame:
  assumes "proposed s" "set (x_trace s) \<subseteq> set (x_trace s')" "x_max_writers s' = x_max_writers s" "same_sets (x_ls s) (x_ls s')"
  shows "proposed s'"
proof -
  have "rs_begin_ts (snd (read_entries s' ! j)) = rs_begin_ts (snd (read_entries s ! j))"
    "rs_is_updated (snd (read_entries s' ! j)) = rs_is_updated (snd (read_entries s ! j))" for j
    using assms(4) by (simp_all add: same_sets_def same_read_def)
  then show ?thesis
    using assms same_sets_sizes [OF assms(4)] unfolding proposed_def by (simp add: Let_def) blast
qed

lemma commit_ts_ok_frame:
  assumes "commit_ts_ok s" "set (x_trace s) \<subseteq> set (x_trace s')" "x_max_writers s' = x_max_writers s" "same_sets (x_ls s) (x_ls s')"
    "o_set_commit (x_ops s') = o_set_commit (x_ops s)" "x_commit_ts s' = x_commit_ts s"
  shows "commit_ts_ok s'"
  using assms proposed_frame [of s s'] by (simp add: commit_ts_ok_def)

lemma reread_sent_mono:
  assumes "reread_sent s i" "set (x_trace s) \<subseteq> set (x_trace s')" "same_sets (x_ls s) (x_ls s')"
    "o_read_index (x_ops s') = o_read_index (x_ops s)" "x_commit_ts s' = x_commit_ts s"
  shows "reread_sent s' i"
proof -
  have "fst (read_entries s' ! j) = fst (read_entries s ! j) \<and> rs_version (snd (read_entries s' ! j)) = rs_version (snd (read_entries s ! j))" for j
    using assms(3) by (simp add: same_sets_def same_read_def)
  with assms show ?thesis by (auto simp: reread_sent_def Let_def keyed_def)
qed

lemma push_sent_mono:
  assumes "push_sent s i" "set (x_trace s) \<subseteq> set (x_trace s')" "o_update_max (x_ops s') ! i = o_update_max (x_ops s) ! i"
    "x_commit_ts s' = x_commit_ts s"
  shows "push_sent s' i"
  using assms by (auto simp: push_sent_def overwriter_def)

lemma only_mono: "only R s \<Longrightarrow> R \<subseteq> R' \<Longrightarrow> only R' s"
  by (auto simp: only_def)

end
