(* ===== verification/Phase_Upload.thy ===== *)
theory Phase_Upload
  imports Protocol
begin

text \<open>
  The upload phase: the commit request, the uploads of the write set, their answers, and the two ways out.
\<close>

section \<open>Uploading\<close>

lemma upload_entry_popped:
  assumes "uploading n s" "n = write_size s" "stack_ok s" "popped k (OpUploadEntry i) s s'"
  shows "uploading n s' \<and> write_size s' = n"
proof -
  note st = popped_stack [OF assms(4,3)]
  have i: "i < n" using st(3) assms(1) by (auto simp: uploading_def only_def)
  let ?u = "o_upload_entries (x_ops s) ! i"
  have slot: "ue_slot ?u = i" and len: "i < length (o_upload_entries (x_ops s))"
    and mn: "\<not> need_post s i"
    using assms(1,2) i st(3) by (auto simp: uploading_def upload_child_def)
  have fin: "hr_finished (ue_result ?u)"
    using assms(4) len by (auto simp: popped_def upload_entry_finished_def)
  let ?e = "hr_error (ue_result ?u)"
  have f: "x_trace s' = x_trace s \<and> x_finished s' = x_finished s \<and> x_commit_ts s' = x_commit_ts s \<and>
      same_sets (x_ls s) (x_ls s') \<and> o_upload_size (x_ops s') = o_upload_size (x_ops s) \<and>
      length (o_upload_entries (x_ops s')) = length (o_upload_entries (x_ops s)) \<and>
      (\<forall>j. ue_slot (o_upload_entries (x_ops s') ! j) = ue_slot (o_upload_entries (x_ops s) ! j) \<and>
           ue_result (o_upload_entries (x_ops s') ! j) = ue_result (o_upload_entries (x_ops s) ! j)) \<and>
      (\<forall>q. q \<noteq> OpUploadEntry i \<longrightarrow> move_to_next s' q = move_to_next s q) \<and> move_to_next s' (OpUploadEntry i) \<and>
      (\<forall>j. need_post s' j \<longleftrightarrow> need_post s j \<or> j = i \<and> \<not> ?e) \<and>
      x_status s' = (if ?e then WaitForAborting else x_status s) \<and>
      x_max_writers s' = (if ?e then x_max_writers s else max (x_max_writers s) (hr_result (ue_result ?u)))"
    using assms(4) len slot mn
    by (auto simp: popped_def op_next_def upload_entry_next_def base_defs case_prod_beta move_to_next_def
        same_sets_def same_write_def same_read_def nth_update split: if_splits)
  have up: "uploaded s' j" if "uploaded s j" for j
    by (rule uploaded_mono [OF that]) (use f in \<open>auto simp: same_sets_def\<close>)
  have sent: "upload_sent s' j" if "upload_sent s j" for j
    by (rule upload_sent_mono [OF that]) (use f in \<open>auto simp: same_sets_def\<close>)
  have "upload_child s' j" if j: "j < n" for j
  proof (cases "j = i")
    case True
    have "upload_sent s' i"
      using assms(1) i sent by (auto simp: uploading_def upload_child_def)
    with True show ?thesis using st(2) f slot mn fin len by (auto simp: upload_child_def uploaded_def)
  next
    case False
    have "upload_child s j" using assms(1) j by (simp add: uploading_def)
    with False show ?thesis using st(2) f up sent by (auto simp: upload_child_def split: if_splits)
  qed
  moreover have sz: "write_size s' = write_size s" "read_size s' = read_size s"
    using same_sets_sizes [of s s'] f by blast+
  moreover have "sets_ok (read_size s') (x_ls s')"
    using same_sets_ok [of "x_ls s" "x_ls s'"] assms(1) f sz by (simp add: uploading_def)
  moreover have "ordered 1 s'"
    using ordered_trace [of s' s] assms(1) f by (simp add: uploading_def)
  moreover have "only (insert OpUpload (OpUploadEntry ` {..<n})) s'" "on_stack s' OpUpload"
    using assms(1) by (auto simp: uploading_def only_def st(2))
  moreover have "x_status s' \<in> {Ongoing, WaitForAborting}" using assms(1) f by (auto simp: uploading_def)
  ultimately show ?thesis
    using assms(1,2) f unfolding uploading_def by simp
qed

lemma upload_all_done:
  assumes "uploading n s" "n = write_size s" "op_finished OpUpload s = Inr True"
  shows "only {OpUpload} s" "i < n \<Longrightarrow> \<not> on_stack s (OpUploadEntry i)"
proof -
  have m: "move_to_next s (OpUploadEntry i)" if "i < n" for i
    using assms that
    by (auto simp: upload_finished_def rall_True upload_entry_cascade_finished_def uploading_def)
  have c: "\<not> on_stack s (OpUploadEntry i)" if "i < n" for i
    using assms(1) m [OF that] that by (auto simp: uploading_def upload_child_def)
  then show "i < n \<Longrightarrow> \<not> on_stack s (OpUploadEntry i)" .
  have "r = OpUpload" if r: "on_stack s r" for r
  proof -
    have "r \<in> insert OpUpload (OpUploadEntry ` {..<n})" using assms(1) r by (simp add: uploading_def only_def)
    with c r show ?thesis by auto
  qed
  then show "only {OpUpload} s" by (simp add: only_def)
qed

lemma uploading_abort_state:
  assumes "uploading n s" "n = write_size s" "\<And>i. i < n \<Longrightarrow> \<not> on_stack s (OpUploadEntry i)"
  shows "abort_state 4 s"
proof -
  have "need_post s i \<longleftrightarrow> uploaded s i" if "i < n" for i
    using assms that by (auto simp: uploading_def upload_child_def uploaded_def Let_def split: if_splits)
  with assms(1,2) show ?thesis
    using ordered_mono [of 1 s 4] by (auto simp: uploading_def abort_state_def)
qed

lemma upload_popped:
  assumes "uploading n s" "n = write_size s" "stack_ok s" "popped k OpUpload s s'"
  shows "is_aborting s' \<and> abortable s'"
proof -
  note st = popped_stack [OF assms(4,3)]
  note dn = upload_all_done [OF assms(1,2)]
  have fin: "op_finished OpUpload s = Inr True" using assms(4) by (simp add: popped_def)
  have f: "x_trace s' = x_trace s" "x_finished s' = x_finished s" "x_ls s' = x_ls s"
    "o_upload_entries (x_ops s') = o_upload_entries (x_ops s)" "x_max_writers s' = x_max_writers s" "x_status s' = Aborting"
    using assms(4) by (auto simp: popped_def op_next_def upload_next_def base_defs split: if_splits)
  have "abort_state 4 s" using uploading_abort_state [OF assms(1,2)] dn(2) fin by blast
  moreover have "uploaded s' i = uploaded s i" for i by (simp add: uploaded_def upload_sent_def f)
  ultimately have "abort_state 4 s'"
    by (simp add: abort_state_def f ordered_trace [OF f(1)] write_size_def read_size_def)
  with f show ?thesis
    using assms(1) by (simp add: uploading_def abortable_def is_aborting_def)
qed

lemma upload_replaced:
  assumes "uploading n s" "n = write_size s" "stack_ok s" "replaced k OpUpload q s s'"
  shows "timestamping s' \<and> stack_ok s'"
proof -
  have q: "q = OpSetCommitTs"
    using assms(4) by (auto simp: replaced_def op_next_def upload_next_def base_defs split: if_splits)
  have "\<not> on_stack s q" using assms(1) q by (auto simp: uploading_def only_def)
  then obtain s1 s2 where n: "op_next OpUpload s = Inr (Some q, s1)"
      and s2: "s2 = s1\<lparr>x_vec := (x_vec s1)[k := Some q]\<rparr>" and c: "op_call q s2 = Inr s'"
      and ok: "stack_ok s2" and st: "\<And>a. on_stack s2 a \<longleftrightarrow> on_stack s a \<and> a \<noteq> OpUpload \<or> a = q"
      and fin: "op_finished OpUpload s = Inr True"
    using replaced_stack [OF assms(4,3)] by blast
  note dn = upload_all_done [OF assms(1,2) fin]
  have f: "x_trace s2 = x_trace s" "x_finished s2 = x_finished s" "x_ls s2 = x_ls s" "x_status s2 = x_status s"
    "o_upload_entries (x_ops s2) = o_upload_entries (x_ops s)" "x_max_writers s2 = x_max_writers s"
    "x_status s \<noteq> WaitForAborting"
    using n s2 by (auto simp: op_next_def upload_next_def base_defs set_commit_reset_def is_wait_for_aborting_def split: if_splits)
  have c': "set_commit_call (set_move_to_next OpSetCommitTs False s2) = Inr s'"
    using c q by (simp add: op_call_def)
  obtain w l e ts x where s': "s' = log_call OpSetCommitTs (SetCommitTimestamp (x_txn_id s2) ts x)
      ((set_move_to_next OpSetCommitTs False s2)\<lparr>w_time := w, x_commit_local := l, x_txn_entry := e, x_commit_ts := ts\<rparr>)"
    by (rule set_commit_call_Inr [OF c']) (simp add: base_defs)
  have g: "x_finished s' = x_finished s" "x_ls s' = x_ls s" "x_status s' = x_status s" "x_vec s' = x_vec s2"
    "o_upload_entries (x_ops s') = o_upload_entries (x_ops s)" "x_max_writers s' = x_max_writers s"
    "set (x_trace s) \<subseteq> set (x_trace s')"
    using f unfolding s' by (auto simp: log_call_def set_move_to_next_def upd_base_def)
  have "ordered 2 s'"
    unfolding s' using f(1) assms(1) ordered_mono [of 1 s 2]
    by (simp add: ordered_def stages_def set_move_to_next_def upd_base_def uploading_def log_call_def sorted_append)
  moreover have "all_uploaded s"
    using assms(1,2) dn(2) f(7) by (auto simp: all_uploaded_def uploading_def upload_child_def split: if_splits)
  then have "all_uploaded s'" using all_uploaded_frame [of s s'] g by simp
  moreover have "only {OpSetCommitTs} s'" "on_stack s' OpSetCommitTs" "stack_ok s'"
    using dn(1) st ok q by (auto simp: only_def on_stack_def stack_ok_def g(4))
  moreover have "proposed s'"
    by (rule set_commit_call_proposed [OF c'])
      (use assms(1) f(3) in \<open>simp add: uploading_def read_size_def set_move_to_next_def upd_base_def\<close>)
  ultimately show ?thesis
    using assms(1) g f(7) by (auto simp: timestamping_def running_def uploading_def read_size_def)
qed

lemma upload_step:
  assumes "uploading i s" "stack_ok s" "i < write_size s"
    and "upload_entry_reset i i s = Inr s1" "invoke (OpUploadEntry i) (upload_entry_call i) s1 = Inr s'"
  shows "uploading (Suc i) s' \<and> stack_ok s' \<and> write_size s' = write_size s"
proof -
  have ns: "\<not> on_stack s (OpUploadEntry i)"
    using assms(1) by (auto simp: uploading_def only_def)
  have len: "i < length (o_upload_entries (x_ops s))" using assms(1,3) by (simp add: uploading_def)
  have f1: "x_vec s1 = x_vec s \<and> x_trace s1 = x_trace s \<and> x_finished s1 = x_finished s \<and> x_status s1 = x_status s \<and>
      x_commit_ts s1 = x_commit_ts s \<and> same_sets (x_ls s) (x_ls s1) \<and> o_upload_size (x_ops s1) = o_upload_size (x_ops s) \<and>
      o_base (x_ops s1) = o_base (x_ops s) \<and> x_max_writers s1 = x_max_writers s \<and>
      length (o_upload_entries (x_ops s1)) = length (o_upload_entries (x_ops s)) \<and>
      (\<forall>j. j \<noteq> i \<longrightarrow> o_upload_entries (x_ops s1) ! j = o_upload_entries (x_ops s) ! j) \<and>
      ue_slot (o_upload_entries (x_ops s1) ! i) = i \<and> (\<forall>j. need_post s1 j = need_post s j) \<and>
      ve_version (ue_version_entry (o_upload_entries (x_ops s1) ! i)) = ws_version (snd (write_entries s1 ! i))"
    using assms(4) len
    by (auto simp: upload_entry_reset_def vec_at_eq_Inr case_prod_beta upd_upload_entry_def same_sets_def same_read_def
        same_write_def nth_update version_reset_to_def split: if_splits)
  have f2: "\<exists>t k v x. x_trace s' = x_trace s1 @ [(OpUploadEntry i, UploadVersion t k v x)] \<and> keyed t k (write_entries s1 ! i) \<and>
      ve_version v = ve_version (ue_version_entry (o_upload_entries (x_ops s1) ! i)) \<and> x_vec s' = x_vec (push_stack (OpUploadEntry i) s1) \<and>
      x_finished s' = x_finished s1 \<and> x_status s' = x_status s1 \<and> x_ls s' = x_ls s1 \<and> x_commit_ts s' = x_commit_ts s1 \<and>
      o_upload_size (x_ops s') = o_upload_size (x_ops s1) \<and> o_upload_entries (x_ops s') = o_upload_entries (x_ops s1) \<and>
      x_max_writers s' = x_max_writers s1 \<and> \<not> move_to_next s' (OpUploadEntry i) \<and>
      (\<forall>q. q \<noteq> OpUploadEntry i \<longrightarrow> move_to_next s' q = move_to_next s1 q)"
    using assms(5) f1
    by (auto simp: invoke_def upload_entry_call_def case_prod_beta base_defs move_to_next_def slot_key_def keyed_def vec_at_eq_Inr)
  then obtain t k v x where tr: "x_trace s' = x_trace s @ [(OpUploadEntry i, UploadVersion t k v x)]"
    and sent_i: "keyed t k (write_entries s' ! i)" "ve_version v = ws_version (snd (write_entries s' ! i))" using f1 by auto
  then have sent_i: "upload_sent s' i" unfolding upload_sent_def by auto
  have os: "on_stack s' q \<longleftrightarrow> on_stack s q \<or> q = OpUploadEntry i" for q
    using f1 f2 by (auto simp: on_stack_def push_stack_def)
  have ok: "stack_ok s'" using assms(2) ns f1 f2 by (auto simp: stack_ok_def push_stack_def on_stack_set)
  have "uploading (Suc i) s'" if sz: "write_size s' = write_size s" "read_size s' = read_size s"
  proof -
    have np: "need_post s' j = need_post s j" for j using f1 f2 by metis
    have up: "uploaded s' j" if "uploaded s j" "j \<noteq> i" for j
      by (rule uploaded_mono [OF that(1)]) (use f1 f2 tr that(2) in \<open>auto simp: same_sets_def\<close>)
    have sent: "upload_sent s' j" if "upload_sent s j" for j
      by (rule upload_sent_mono [OF that]) (use f1 f2 tr in \<open>auto simp: same_sets_def\<close>)
    have "upload_child s' j" if j: "j < Suc i" for j
    proof (cases "j = i")
      case True
      have "\<not> need_post s i" using assms(1,3) by (auto simp: uploading_def)
      with True show ?thesis using os sent_i np f1 f2 by (auto simp: upload_child_def)
    next
      case False
      then have "upload_child s j" using assms(1) j by (simp add: uploading_def)
      moreover have "move_to_next s' (OpUploadEntry j) = move_to_next s (OpUploadEntry j)"
        using False f1 f2 by (metis move_to_next_def op_ref.inject(1))
      ultimately show ?thesis using False f1 f2 os np up sent by (auto simp: upload_child_def split: if_splits)
    qed
    moreover have "sets_ok (read_size s') (x_ls s')"
      using same_sets_ok [of "x_ls s" "x_ls s1"] assms(1) f1 f2 sz by (auto simp: uploading_def)
    moreover have "ordered 1 s'"
      using assms(1) tr by (auto simp: uploading_def ordered_def stages_def sorted_append)
    moreover have "only (insert OpUpload (OpUploadEntry ` {..<Suc i})) s'" "on_stack s' OpUpload"
      using assms(1) os by (auto simp: uploading_def only_def)
    moreover have "\<not> need_post s' j \<and> \<not> (\<exists>t k v x. (OpUploadEntry j, UploadVersion t k v x) \<in> set (x_trace s'))"
      if "Suc i \<le> j" "j < write_size s" for j
      using assms(1) that tr np by (auto simp: uploading_def)
    ultimately show ?thesis
      using assms(1) f1 f2 sz unfolding uploading_def by auto
  qed
  moreover have "write_size s' = write_size s" "read_size s' = read_size s"
    using same_sets_sizes [of s s1] f1 f2 by (auto simp: write_size_def read_size_def)
  ultimately show ?thesis using ok by simp
qed

lemma commit_uploading:
  assumes "in_phase Idle s" "x_vec s = []" "exec_commit s = Inr s'"
  shows "in_phase Uploading s' \<and> stack_ok s'"
proof -
  obtain h q r s1 where s1: "s1 = s\<lparr>w_heap := h, w_reqs := q, x_result := r\<rparr>" and
    c: "exec_call OpUpload (upload_reset s1) = Inr s'"
    using assms(3) by (auto simp: exec_commit_def dest!: exec_result_reset_frame)
  let ?n = "write_size s"
  let ?s2 = "set_move_to_next OpUpload False (push_stack OpUpload (upload_reset s1))"
  let ?s3 = "?s2\<lparr>x_ops := (x_ops ?s2)\<lparr>o_upload_entries := grow ?n new_upload_entry_op (o_upload_entries (x_ops ?s2))\<rparr>\<rparr>"
  have n: "write_size s1 = ?n" by (simp add: s1 write_size_def)
  have n3: "write_size ?s3 = ?n" by (simp add: s1 write_size_def set_move_to_next_def upd_base_def push_stack_def upload_reset_def)
  have fold: "rfold (\<lambda>i u. rbind (upload_entry_reset i i u) (invoke (OpUploadEntry i) (upload_entry_call i))) [0..<?n] ?s3 = Inr s'"
    using c n by (simp add: exec_call_def op_call_def upload_call_def Let_def set_move_to_next_def upd_base_def
        push_stack_def upload_reset_def del: upt_Suc)
  have f3: "x_trace ?s3 = x_trace s" "x_finished ?s3 = x_finished s" "x_status ?s3 = x_status s" "x_ls ?s3 = x_ls s"
    "x_commit_ts ?s3 = x_commit_ts s" "o_upload_size (x_ops ?s3) = ?n" "?n \<le> length (o_upload_entries (x_ops ?s3))"
    "x_vec ?s3 = [Some OpUpload]"
    using assms(2) by (auto simp: s1 set_move_to_next_def upd_base_def push_stack_def upload_reset_def write_size_def)
  have noup: "(OpUploadEntry i, UploadVersion t k v x) \<notin> set (x_trace s)" for i t k v x
    using assms(1) by (fastforce simp: client_state_def ordered_def stages_def)
  have "ordered 1 ?s3"
    using assms(1) ordered_mono [of 0 s 1] ordered_trace [of ?s3 s] f3(1) by (simp add: client_state_def)
  moreover have "read_size ?s3 = read_size s" by (simp add: read_size_def f3(4))
  moreover have "on_stack ?s3 OpUpload" "only {OpUpload} ?s3" "stack_ok ?s3"
    unfolding on_stack_def only_def stack_ok_def f3(8) by auto
  ultimately have "uploading 0 ?s3 \<and> stack_ok ?s3 \<and> write_size ?s3 = ?n"
    using assms(1) n3 f3 noup unfolding uploading_def by (auto simp: client_state_def)
  then have "uploading ?n s' \<and> stack_ok s' \<and> write_size s' = ?n"
    by (rule rfold_upto [OF fold]) (auto dest: upload_step)
  then show ?thesis by simp
qed

lemma res_to_option_Some [simp]: "res_to_option m = Some x \<longleftrightarrow> m = Inr x"
  by (cases m) auto

lemma upload_reply:
  assumes "uploading n s" "n = write_size s" "awaiting s r" "deliver r a s = Some s'"
  shows "uploading n s' \<and> x_vec s' = x_vec s \<and> write_size s' = n"
proof -
  have "on_stack s r" using assms(3) by (simp add: awaiting_def on_stack_def)
  then have "r \<in> insert OpUpload (OpUploadEntry ` {..<n})" using assms(1) by (simp add: uploading_def only_def)
  moreover have "r \<noteq> OpUpload" using assms(4) by (auto simp: deliver_def)
  ultimately obtain i where r: "r = OpUploadEntry i" and i: "i < n" by auto
  have on: "on_stack s (OpUploadEntry i)" using \<open>on_stack s r\<close> r by simp
  have f: "x_vec s' = x_vec s \<and> x_trace s' = x_trace s \<and> x_finished s' = x_finished s \<and> x_status s' = x_status s \<and>
      x_ls s' = x_ls s \<and> x_commit_ts s' = x_commit_ts s \<and> o_upload_size (x_ops s') = o_upload_size (x_ops s) \<and>
      o_base (x_ops s') = o_base (x_ops s) \<and> x_max_writers s' = x_max_writers s \<and>
      length (o_upload_entries (x_ops s')) = length (o_upload_entries (x_ops s)) \<and>
      (\<forall>j. j \<noteq> i \<longrightarrow> o_upload_entries (x_ops s') ! j = o_upload_entries (x_ops s) ! j) \<and>
      ue_slot (o_upload_entries (x_ops s') ! i) = ue_slot (o_upload_entries (x_ops s) ! i)"
    using assms(4) r by (auto simp: deliver_def upd_upload_entry_def vec_at_eq_Inr nth_update split: reply.splits)
  then have os: "on_stack s' q = on_stack s q" and mn: "move_to_next s' q = move_to_next s q" for q
    by (simp_all add: on_stack_def move_to_next_def)
  have sz: "write_size s' = write_size s" "read_size s' = read_size s"
    using f by (simp_all add: write_size_def read_size_def)
  have "upload_child s' j" if "j < n" for j
  proof -
    have c: "upload_child s j" using assms(1) that by (simp add: uploading_def)
    show ?thesis
    proof (cases "j = i")
      case True
      with c on f os mn show ?thesis by (simp add: upload_child_def upload_sent_def)
    next
      case False
      with c f os mn show ?thesis by (auto simp: upload_child_def uploaded_def upload_sent_def Let_def split: if_splits)
    qed
  qed
  moreover have "ordered 1 s'" using ordered_trace [of s' s] f assms(1) by (simp add: uploading_def)
  ultimately show ?thesis
    using assms(1,2) f sz os by (simp add: uploading_def only_def)
qed

end
