(* ===== verification/Phase_Validate.thy ===== *)
theory Phase_Validate
  imports Phase_Upload
begin

text \<open>
  The commit timestamp and validation: the re-read of every entry read and not overwritten, and the push of a transaction that overwrote it.
\<close>

lemma all_uploaded_abort_state:
  assumes "all_uploaded s" "ordered k s" "sets_ok (read_size s) (x_ls s)"
  shows "abort_state k s"
  using assms by (auto simp: abort_state_def all_uploaded_def)

lemma ordered_extend:
  assumes "x_trace s' = x_trace s @ tr" "\<forall>p \<in> set tr. stage (snd p) = n" "ordered n s"
  shows "ordered n s'"
proof -
  have "map (\<lambda>(_, c). stage c) tr = replicate (length tr) n"
    using assms(2) by (induction tr) auto
  then show ?thesis using assms(1,3) by (auto simp: ordered_def stages_def sorted_append)
qed

lemma rfold_filter:
  assumes "rfold (\<lambda>i is. rbind (vec_at xs i) (\<lambda>(_, e). Inr (if P e then is @ [i] else is))) js acc = Inr is"
  shows "is = acc @ filter (\<lambda>i. P (snd (xs ! i))) js"
  using assms
proof (induction js arbitrary: acc)
  case (Cons j js)
  then obtain a b where "vec_at xs j = Inr (a, b)" and
    r: "rfold (\<lambda>i is. rbind (vec_at xs i) (\<lambda>(_, e). Inr (if P e then is @ [i] else is))) js
      (if P b then acc @ [j] else acc) = Inr is"
    by auto
  then have "P (snd (xs ! j)) = P b" by (metis snd_conv vec_at_eq_Inr)
  with Cons.IH [OF r] show ?case by auto
qed simp

lemma validate_reset_Inr:
  assumes "validate_reset s = Inr s'"
  shows "s' = s\<lparr>x_ops := (x_ops s)\<lparr>o_read_index := unwritten_reads s\<rparr>\<rparr>"
  using assms
  by (auto simp: validate_reset_def unwritten_reads_def dest!: rfold_filter)

section \<open>The commit timestamp\<close>

lemma timestamping_popped:
  assumes "timestamping s" "stack_ok s" "popped k OpSetCommitTs s s'"
  shows "is_aborting s' \<and> abortable s'"
proof -
  have f: "x_trace s' = x_trace s" "x_finished s' = x_finished s" "x_ls s' = x_ls s"
    "o_upload_entries (x_ops s') = o_upload_entries (x_ops s)" "x_max_writers s' = x_max_writers s" "x_status s' = Aborting"
    using assms(3) by (auto simp: popped_def op_next_def set_commit_next_def base_defs Let_def validate_reset_def split: if_splits)
  have "all_uploaded s'" using assms(1) all_uploaded_frame [of s s'] f by (simp add: timestamping_def)
  moreover have "ordered 4 s'" 
    using ordered_mono [of 2 s 4] ordered_trace [OF f(1)] assms(1) by (simp add: timestamping_def running_def)
  ultimately show ?thesis
    using assms(1) f all_uploaded_abort_state [of s' 4]
    by (simp add: timestamping_def running_def abortable_def is_aborting_def read_size_def)
qed

lemma timestamping_reply:
  assumes "timestamping s" "awaiting s r" "deliver r a s = Some s'"
  shows "timestamping s' \<and> x_vec s' = x_vec s"
proof -
  have r: "r = OpSetCommitTs" using assms(1,2) by (auto simp: timestamping_def only_def awaiting_def on_stack_def)
  have f: "x_trace s' = x_trace s" "x_finished s' = x_finished s" "x_ls s' = x_ls s" "x_vec s' = x_vec s"
    "o_upload_entries (x_ops s') = o_upload_entries (x_ops s)" "x_max_writers s' = x_max_writers s" "x_status s' = x_status s"
    using assms(3) r by (auto simp: deliver_def split: reply.splits)
  have "all_uploaded s'" using assms(1) all_uploaded_frame [of s s'] f by (simp add: timestamping_def)
  moreover have "proposed s'" using assms(1) proposed_frame [of s s'] f by (simp add: timestamping_def)
  ultimately show ?thesis
    using assms(1) f ordered_trace [OF f(1)]
    by (simp add: timestamping_def running_def read_size_def only_def on_stack_def)
qed

text \<open>Starting validation \<open>i\<close> adds one re-read to the stack.\<close>

lemma validate_step:
  assumes "validating i s" "stack_ok s" "i < length (o_read_index (x_ops s))"
    and "update_max_reset i (o_read_index (x_ops s) ! i) i s = Inr s1"
      "invoke (OpUpdateMaxTs i) (update_max_call i) s1 = Inr s'"
  shows "validating (Suc i) s' \<and> stack_ok s' \<and> o_read_index (x_ops s') = o_read_index (x_ops s)"
proof -
  have ns: "\<not> on_stack s (OpUpdateMaxTs i)" "\<not> on_stack s (OpPushLowerBound i)"
    using assms(1) by (auto simp: validating_def only_def)
  have len: "i < length (o_update_max (x_ops s))" using assms(1,3) by (auto simp: validating_def)
  let ?e = "read_entries s ! (o_read_index (x_ops s) ! i)"
  have f: "\<exists>t k x. x_trace s' = x_trace s @ [(OpUpdateMaxTs i, UpdateMaxCommitTsAndReread t k (rs_version (snd ?e)) (x_commit_ts s) x)] \<and>
      keyed t k ?e \<and>
      x_vec s' = x_vec (push_stack (OpUpdateMaxTs i) s) \<and> x_finished s' = x_finished s \<and> x_status s' = x_status s \<and>
      x_ls s' = x_ls s \<and> x_commit_ts s' = x_commit_ts s \<and> o_read_index (x_ops s') = o_read_index (x_ops s) \<and>
      o_upload_entries (x_ops s') = o_upload_entries (x_ops s) \<and> x_max_writers s' = x_max_writers s \<and>
      o_set_commit (x_ops s') = o_set_commit (x_ops s) \<and> o_push (x_ops s') = o_push (x_ops s) \<and>
      length (o_update_max (x_ops s')) = length (o_update_max (x_ops s)) \<and>
      (\<forall>j. j \<noteq> i \<longrightarrow> o_update_max (x_ops s') ! j = o_update_max (x_ops s) ! j) \<and>
      um_slot (o_update_max (x_ops s') ! i) = o_read_index (x_ops s) ! i \<and> um_index (o_update_max (x_ops s') ! i) = i \<and>
      \<not> move_to_next s' (OpUpdateMaxTs i) \<and> (\<forall>q. q \<noteq> OpUpdateMaxTs i \<longrightarrow> o_base (x_ops s') q = o_base (x_ops s) q)"
    using assms(4,5) len
    by (auto simp: update_max_reset_def upd_update_max_def invoke_def update_max_call_def case_prod_beta base_defs
        move_to_next_def nth_update vec_at_eq_Inr slot_key_def keyed_def)
  then obtain t k x where c: "x_trace s' = x_trace s @ [(OpUpdateMaxTs i, UpdateMaxCommitTsAndReread t k (rs_version (snd ?e)) (x_commit_ts s) x)]"
    "keyed t k ?e" by blast
  then have tr: "set (x_trace s) \<subseteq> set (x_trace s')" by auto
  have sent_i: "reread_sent s' i"
    unfolding reread_sent_def Let_def by (intro exI [of _ t] exI [of _ k] exI [of _ x]) (use f c in auto)
  have os: "on_stack s' q \<longleftrightarrow> on_stack s q \<or> q = OpUpdateMaxTs i" for q
    using f by (auto simp: on_stack_def push_stack_def)
  have ok: "stack_ok s'" using assms(2) ns f by (auto simp: stack_ok_def push_stack_def on_stack_set)
  have mn: "move_to_next s' q = move_to_next s q" "has_next s' q = has_next s q" if "q \<noteq> OpUpdateMaxTs i" for q
    using f that by (auto simp: move_to_next_def has_next_def)
  have "validate_child s' j" if j: "j < Suc i" for j
  proof (cases "j = i")
    case True
    with f os ns sent_i show ?thesis by (auto simp: validate_child_def)
  next
    case False
    then have "validate_child s j" using assms(1) j by (simp add: validating_def)
    moreover have "reread_sent s' j" if "reread_sent s j"
      by (rule reread_sent_mono [OF that tr]) (use f in auto)
    moreover have "push_sent s' j" if "push_sent s j"
      by (rule push_sent_mono [OF that tr]) (use f False in auto)
    ultimately show ?thesis
      using False f os mn
      by (auto simp: validate_child_def validated_def reread_ok_def overwriter_def split: if_splits)
  qed
  moreover have "ordered 3 s'"
    using assms(1) f by (auto simp: validating_def ordered_def stages_def sorted_append)
  moreover have "all_uploaded s'" using assms(1) f tr all_uploaded_frame [of s s'] by (auto simp: validating_def)
  moreover have "commit_ts_ok s'" using assms(1) f tr commit_ts_ok_frame [of s s'] by (auto simp: validating_def)
  moreover have "only (insert OpValidate (OpUpdateMaxTs ` {..<Suc i} \<union> OpPushLowerBound ` {..<Suc i})) s'" "on_stack s' OpValidate"
    using assms(1) os by (auto simp: validating_def only_def)
  ultimately show ?thesis
    using assms(1) f ok unfolding validating_def by (auto simp: unwritten_reads_def read_size_def)
qed

lemma timestamping_replaced:
  assumes "timestamping s" "stack_ok s" "replaced k OpSetCommitTs q s s'"
  shows "validating (length (o_read_index (x_ops s'))) s' \<and> stack_ok s'"
proof -
  have q: "q = OpValidate"
    using assms(3) by (auto simp: replaced_def op_next_def set_commit_next_def base_defs Let_def split: if_splits)
  have "\<not> on_stack s q" using assms(1) q by (auto simp: timestamping_def only_def)
  then obtain s1 s2 where n: "op_next OpSetCommitTs s = Inr (Some q, s1)"
      and s2: "s2 = s1\<lparr>x_vec := (x_vec s1)[k := Some q]\<rparr>" and c: "op_call q s2 = Inr s'"
      and ok: "stack_ok s2" and st: "\<And>a. on_stack s2 a \<longleftrightarrow> on_stack s a \<and> a \<noteq> OpSetCommitTs \<or> a = q"
      and fin: "op_finished OpSetCommitTs s = Inr True"
    using replaced_stack [OF assms(3,2)] by blast
  have f: "x_trace s2 = x_trace s \<and> x_finished s2 = x_finished s \<and> x_ls s2 = x_ls s \<and> x_status s2 = x_status s \<and>
    o_upload_entries (x_ops s2) = o_upload_entries (x_ops s) \<and> x_max_writers s2 = x_max_writers s \<and>
    o_set_commit (x_ops s2) = o_set_commit (x_ops s) \<and> \<not> hr_error (o_set_commit (x_ops s)) \<and>
    x_commit_ts s2 = hr_result (o_set_commit (x_ops s)) \<and> 0 \<le> x_commit_ts s2 \<and>
    o_read_index (x_ops s2) = unwritten_reads s"
    using n s2 by (auto simp: op_next_def set_commit_next_def base_defs Let_def unwritten_reads_def read_size_def
        split: if_splits dest!: validate_reset_Inr)
  let ?n = "length (o_read_index (x_ops s2))"
  let ?s3 = "set_move_to_next OpValidate False s2"
  let ?s4 = "?s3\<lparr>x_ops := (x_ops ?s3)\<lparr>o_update_max := grow ?n new_update_max_op (o_update_max (x_ops ?s3)),
     o_push := grow ?n new_push_op (o_push (x_ops ?s3))\<rparr>\<rparr>"
  have fold: "rfold (\<lambda>i u. rbind (update_max_reset i (o_read_index (x_ops s2) ! i) i u)
      (invoke (OpUpdateMaxTs i) (update_max_call i))) [0..<?n] ?s4 = Inr s'"
    using c q by (simp add: op_call_def validate_call_def Let_def set_move_to_next_def upd_base_def del: upt_Suc)
  have g: "x_trace ?s4 = x_trace s" "x_finished ?s4 = x_finished s" "x_ls ?s4 = x_ls s" "x_status ?s4 = x_status s"
    "o_upload_entries (x_ops ?s4) = o_upload_entries (x_ops s)" "x_max_writers ?s4 = x_max_writers s"
    "o_set_commit (x_ops ?s4) = o_set_commit (x_ops s)" "x_commit_ts ?s4 = hr_result (o_set_commit (x_ops s))"
    "o_read_index (x_ops ?s4) = unwritten_reads s" "x_vec ?s4 = x_vec s2" "o_read_index (x_ops s2) = unwritten_reads s"
    "?n \<le> length (o_update_max (x_ops ?s4))" "?n \<le> length (o_push (x_ops ?s4))"
    using f by (auto simp: set_move_to_next_def upd_base_def)
  have "all_uploaded ?s4" using assms(1) g all_uploaded_frame [of s ?s4] by (simp add: timestamping_def)
  moreover have "ordered 3 ?s4"
    using ordered_mono [of 2 s 3] ordered_trace [OF g(1)] assms(1) by (simp add: timestamping_def running_def)
  moreover have "proposed ?s4" using assms(1) g proposed_frame [of s ?s4] by (simp add: timestamping_def)
  then have "commit_ts_ok ?s4" using f fin by (simp add: commit_ts_ok_def set_move_to_next_def upd_base_def)
  moreover have "on_stack ?s4 OpValidate" "only {OpValidate} ?s4" "stack_ok ?s4"
    using st assms(1) q ok unfolding on_stack_def only_def stack_ok_def g(10) by (auto simp: timestamping_def only_def on_stack_def)
  moreover have "unwritten_reads ?s4 = unwritten_reads s" "read_size ?s4 = read_size s"
    by (auto simp: unwritten_reads_def read_size_def g(3))
  ultimately have "validating 0 ?s4 \<and> stack_ok ?s4 \<and> o_read_index (x_ops ?s4) = unwritten_reads s"
    using assms(1) g by (simp add: validating_def timestamping_def running_def)
  then have "validating ?n s' \<and> stack_ok s' \<and> o_read_index (x_ops s') = unwritten_reads s"
    by (rule rfold_upto [OF fold]) (use validate_step g(11) in auto)
  then show ?thesis using f by simp
qed

section \<open>Validation\<close>

lemma validate_all_done:
  assumes "validating n s" "n = length (o_read_index (x_ops s))" "op_finished OpValidate s = Inr True"
  shows "only {OpValidate} s" "i < n \<Longrightarrow> \<not> on_stack s (OpUpdateMaxTs i) \<and> \<not> on_stack s (OpPushLowerBound i)"
proof -
  have c: "\<not> on_stack s (OpUpdateMaxTs i) \<and> \<not> on_stack s (OpPushLowerBound i)" if i: "i < n" for i
  proof -
    have "update_max_cascade_finished i s = Inr True"
      using assms(2,3) i by (simp add: validate_finished_def rall_True)
    then have m: "move_to_next s (OpUpdateMaxTs i)" "has_next s (OpUpdateMaxTs i) \<Longrightarrow>
        move_to_next s (OpPushLowerBound (um_index (o_update_max (x_ops s) ! i)))"
      by (auto simp: update_max_cascade_finished_def push_cascade_finished_def vec_at_eq_Inr split: if_splits)
    have c: "validate_child s i" using assms(1) i by (simp add: validating_def)
    then have u: "\<not> on_stack s (OpUpdateMaxTs i)" "um_index (o_update_max (x_ops s) ! i) = i"
      using m(1) by (auto simp: validate_child_def)
    with c m(2) show ?thesis by (auto simp: validate_child_def)
  qed
  then show "i < n \<Longrightarrow> \<not> on_stack s (OpUpdateMaxTs i) \<and> \<not> on_stack s (OpPushLowerBound i)" .
  have "r = OpValidate" if r: "on_stack s r" for r
  proof -
    have "r \<in> insert OpValidate (OpUpdateMaxTs ` {..<n} \<union> OpPushLowerBound ` {..<n})"
      using assms(1) r by (simp add: validating_def only_def)
    with c r show ?thesis by auto
  qed
  then show "only {OpValidate} s" by (simp add: only_def)
qed

lemma validate_popped:
  assumes "validating n s" "stack_ok s" "popped k OpValidate s s'"
  shows "is_aborting s' \<and> abortable s'"
proof -
  have f: "x_trace s' = x_trace s" "x_finished s' = x_finished s" "x_ls s' = x_ls s"
    "o_upload_entries (x_ops s') = o_upload_entries (x_ops s)" "x_max_writers s' = x_max_writers s" "x_status s' = Aborting"
    using assms(3) by (auto simp: popped_def op_next_def validate_next_def base_defs split: if_splits)
  have "all_uploaded s'" using assms(1) all_uploaded_frame [of s s'] f by (simp add: validating_def)
  moreover have "ordered 4 s'"
    using ordered_mono [of 3 s 4] ordered_trace [OF f(1)] assms(1) by (simp add: validating_def)
  ultimately show ?thesis
    using assms(1) f all_uploaded_abort_state [of s' 4]
    by (simp add: validating_def abortable_def is_aborting_def read_size_def)
qed

lemma validate_replaced:
  assumes "validating n s" "n = length (o_read_index (x_ops s))" "stack_ok s" "replaced k OpValidate q s s'"
  shows "logging s' \<and> stack_ok s'"
proof -
  have q: "q = OpWriteLog"
    using assms(4) by (auto simp: replaced_def op_next_def validate_next_def base_defs split: if_splits)
  have "\<not> on_stack s q" using assms(1) q by (auto simp: validating_def only_def)
  then obtain s1 s2 where nx: "op_next OpValidate s = Inr (Some q, s1)"
      and s2: "s2 = s1\<lparr>x_vec := (x_vec s1)[k := Some q]\<rparr>" and c: "op_call q s2 = Inr s'"
      and ok: "stack_ok s2" and st: "\<And>a. on_stack s2 a \<longleftrightarrow> on_stack s a \<and> a \<noteq> OpValidate \<or> a = q"
      and fin: "op_finished OpValidate s = Inr True"
    using replaced_stack [OF assms(4,3)] by blast
  note dn = validate_all_done [OF assms(1,2) fin]
  have f: "x_trace s' = x_trace s \<and> x_finished s' = x_finished s \<and> x_ls s' = x_ls s \<and> x_status s' = x_status s \<and>
    o_upload_entries (x_ops s') = o_upload_entries (x_ops s) \<and> x_max_writers s' = x_max_writers s \<and>
    o_set_commit (x_ops s') = o_set_commit (x_ops s) \<and> x_commit_ts s' = x_commit_ts s \<and>
    o_read_index (x_ops s') = o_read_index (x_ops s) \<and> o_update_max (x_ops s') = o_update_max (x_ops s) \<and>
    o_push (x_ops s') = o_push (x_ops s) \<and> x_vec s' = x_vec s2 \<and> x_status s \<noteq> WaitForAborting"
    using nx s2 c q
    by (auto simp: op_next_def op_call_def validate_next_def write_log_call_def write_log_call_at_def
        write_log_reset_def base_defs is_wait_for_aborting_def ENABLE_LOG_def split: if_splits)
  have "ordered 4 s'"
    using ordered_mono [of 3 s 4] ordered_trace [of s' s] f assms(1) by (simp add: validating_def)
  moreover have "all_uploaded s'" using assms(1) all_uploaded_frame [of s s'] f by (simp add: validating_def)
  moreover have "validated s' i = validated s i" "reread_sent s' i = reread_sent s i" for i
    using f by (simp_all add: validated_def reread_ok_def overwriter_def push_sent_def reread_sent_def)
  then have "all_validated s'"
    using assms(1,2) f dn(2)
    by (auto simp: all_validated_def validating_def validate_child_def unwritten_reads_def read_size_def)
  moreover have "only {OpWriteLog} s'" "on_stack s' OpWriteLog" "stack_ok s'"
    using dn(1) st ok q f by (auto simp: only_def on_stack_def stack_ok_def)
  moreover have "commit_ts_ok s'" using assms(1) f commit_ts_ok_frame [of s s'] by (simp add: validating_def)
  ultimately show ?thesis
    using assms(1) f by (auto simp: logging_def running_def validating_def read_size_def)
qed

text \<open>A change of one validation: what the others and the phase need of it.\<close>

lemma validating_change:
  assumes "validating n s" "stack_ok s'"
    and "x_trace s' = x_trace s @ tr" "\<forall>p \<in> set tr. stage (snd p) = 3"
    and "x_finished s' = x_finished s \<and> x_status s' \<in> {x_status s, WaitForAborting} \<and>
      x_commit_ts s' = x_commit_ts s \<and> o_read_index (x_ops s') = o_read_index (x_ops s) \<and>
      o_upload_entries (x_ops s') = o_upload_entries (x_ops s) \<and> x_max_writers s' = x_max_writers s \<and>
      o_set_commit (x_ops s') = o_set_commit (x_ops s) \<and> ls_write (x_ls s') = ls_write (x_ls s) \<and>
      same_sets (x_ls s) (x_ls s')"
    and "length (o_update_max (x_ops s')) = length (o_update_max (x_ops s))"
      "length (o_push (x_ops s')) = length (o_push (x_ops s))"
    and "\<And>j. j \<noteq> i \<Longrightarrow> o_update_max (x_ops s') ! j = o_update_max (x_ops s) ! j \<and> o_push (x_ops s') ! j = o_push (x_ops s) ! j \<and>
      (\<forall>q \<in> {OpUpdateMaxTs j, OpPushLowerBound j}. o_base (x_ops s') q = o_base (x_ops s) q \<and> on_stack s' q = on_stack s q)"
    and "\<And>j. held s' j \<Longrightarrow> held s j"
    and "on_stack s' OpValidate" "only (insert OpValidate (OpUpdateMaxTs ` {..<n} \<union> OpPushLowerBound ` {..<n})) s'"
    and "i < n \<Longrightarrow> validate_child s' i"
  shows "validating n s'"
proof -
  have sz: "read_size s' = read_size s" "write_size s' = write_size s"
    using same_sets_sizes [of s s'] assms(5) by auto
  have "validate_child s' j" if j: "j < n" for j
  proof (cases "j = i")
    case True
    with j assms(12) show ?thesis by simp
  next
    case False
    have c: "validate_child s j" using assms(1) j by (simp add: validating_def)
    note a = assms(8) [OF False]
    have r: "reread_sent s' j" using c assms(3,5) reread_sent_mono [of s j s'] by (simp add: validate_child_def)
    have p: "push_sent s' j" if "push_sent s j" using that a assms(3,5) push_sent_mono [of s j s'] by simp
    have v: "reread_ok s' j = reread_ok s j" "overwriter s' j = overwriter s j" "validated s j \<Longrightarrow> validated s' j"
      using a assms(5) p by (auto simp: validated_def reread_ok_def overwriter_def)
    have m: "move_to_next s' (OpUpdateMaxTs j) = move_to_next s (OpUpdateMaxTs j)"
      "move_to_next s' (OpPushLowerBound j) = move_to_next s (OpPushLowerBound j)"
      "has_next s' (OpUpdateMaxTs j) = has_next s (OpUpdateMaxTs j)"
      "on_stack s' (OpUpdateMaxTs j) = on_stack s (OpUpdateMaxTs j)"
      "on_stack s' (OpPushLowerBound j) = on_stack s (OpPushLowerBound j)"
      using a by (simp_all add: move_to_next_def has_next_def)
    show ?thesis
      using c a assms(5,9) r p v(3) unfolding validate_child_def v(1,2) m by (auto split: if_splits)
  qed
  moreover have "sets_ok (read_size s') (x_ls s')"
    using same_sets_ok [of "x_ls s" "x_ls s'"] assms(1,5) sz by (simp add: validating_def)
  moreover have "rs_is_updated (snd (read_entries s' ! j)) = rs_is_updated (snd (read_entries s ! j))" for j
    using assms(5) by (simp add: same_sets_def same_read_def)
  then have "unwritten_reads s' = unwritten_reads s" using sz by (simp add: unwritten_reads_def)
  moreover have "ordered 3 s'"
    using ordered_extend [OF assms(3,4)] assms(1) by (simp add: validating_def)
  moreover have "all_uploaded s'" using all_uploaded_frame [of s s'] assms(1,3,5) by (simp add: validating_def)
  moreover have "commit_ts_ok s'" using assms(1,3,5) commit_ts_ok_frame [of s s'] by (simp add: validating_def)
  moreover have "x_status s' \<in> {Ongoing, WaitForAborting}" using assms(1,5) by (auto simp: validating_def)
  moreover have "length (o_read_index (x_ops s')) \<le> length (o_update_max (x_ops s'))"
      "length (o_read_index (x_ops s')) \<le> length (o_push (x_ops s'))"
    using assms(1,5,6,7) by (auto simp: validating_def)
  ultimately show ?thesis
    using assms(1,5,10,11) by (simp add: validating_def)
qed

lemma validating_index:
  assumes "validating n s" "on_stack s r"
  obtains "r = OpValidate" | i where "r = OpUpdateMaxTs i" "i < n" | i where "r = OpPushLowerBound i" "i < n"
  using assms by (auto simp: validating_def only_def)

lemma update_max_popped:
  assumes "validating n s" "n = length (o_read_index (x_ops s))" "stack_ok s" "popped k (OpUpdateMaxTs i) s s'"
  shows "validating n s' \<and> n = length (o_read_index (x_ops s'))"
proof -
  note st = popped_stack [OF assms(4,3)]
  have i: "i < n" using validating_index [OF assms(1) st(3)] by auto
  have c: "validate_child s i" using assms(1) i by (simp add: validating_def)
  have len: "i < length (o_update_max (x_ops s))" using assms(1,2) i by (auto simp: validating_def)
  have slot: "um_slot (o_update_max (x_ops s) ! i) = o_read_index (x_ops s) ! i" using c by (simp add: validate_child_def)
  have fin: "hr_finished (um_result (o_update_max (x_ops s) ! i))"
    using assms(4) len by (auto simp: popped_def update_max_finished_def)
  have f: "x_trace s' = x_trace s \<and> x_finished s' = x_finished s \<and> x_status s' \<in> {x_status s, WaitForAborting} \<and>
      x_commit_ts s' = x_commit_ts s \<and> o_read_index (x_ops s') = o_read_index (x_ops s) \<and>
      o_upload_entries (x_ops s') = o_upload_entries (x_ops s) \<and> x_max_writers s' = x_max_writers s \<and>
      o_set_commit (x_ops s') = o_set_commit (x_ops s) \<and> ls_write (x_ls s') = ls_write (x_ls s) \<and>
      same_sets (x_ls s) (x_ls s') \<and> o_update_max (x_ops s') = o_update_max (x_ops s) \<and> o_push (x_ops s') = o_push (x_ops s) \<and>
      (\<forall>q. q \<noteq> OpUpdateMaxTs i \<longrightarrow> o_base (x_ops s') q = o_base (x_ops s) q) \<and> (\<forall>j. held s' j \<longrightarrow> held s j) \<and>
      move_to_next s' (OpUpdateMaxTs i) \<and> \<not> has_next s' (OpUpdateMaxTs i) \<and>
      (x_status s' = WaitForAborting \<or> reread_ok s i \<and> overwriter s i = kEmptyTxId \<and> \<not> held s' (o_read_index (x_ops s) ! i))"
    using assms(4) len slot fin
    by (auto simp: popped_def op_next_def update_max_next_def base_defs case_prod_beta Let_def reread_ok_def overwriter_def
        same_sets_def same_write_def same_read_def nth_update move_to_next_def has_next_def split: if_splits)
  have "\<not> on_stack s' (OpUpdateMaxTs i)" "\<not> on_stack s' (OpPushLowerBound i)" "um_index (o_update_max (x_ops s) ! i) = i"
    using c st(2,3) by (auto simp: validate_child_def)
  moreover have "validated s' i" if "reread_ok s i" "overwriter s i = kEmptyTxId"
    using f that by (simp add: validated_def reread_ok_def overwriter_def)
  moreover have "reread_sent s' i" using c f reread_sent_mono [of s i s'] by (simp add: validate_child_def)
  ultimately have "validate_child s' i"
    using f slot fin by (auto simp: validate_child_def)
  then have "validating n s'"
    by (intro validating_change [OF assms(1) st(1), where i = i and tr = "[]"])
      (use f st(2,3) assms(1) in \<open>auto simp: validating_def only_def\<close>)
  then show ?thesis using f assms(2) by simp
qed

lemma push_popped:
  assumes "validating n s" "n = length (o_read_index (x_ops s))" "stack_ok s" "popped k (OpPushLowerBound i) s s'"
  shows "validating n s' \<and> n = length (o_read_index (x_ops s'))"
proof -
  note st = popped_stack [OF assms(4,3)]
  have i: "i < n" using validating_index [OF assms(1) st(3)] by auto
  have c: "validate_child s i" using assms(1) i by (simp add: validating_def)
  have len: "i < length (o_push (x_ops s))" using assms(1,2) i by (auto simp: validating_def)
  have fin: "hr_finished (pu_result (o_push (x_ops s) ! i))"
    using assms(4) len by (auto simp: popped_def push_finished_def)
  have f: "x_trace s' = x_trace s \<and> x_finished s' = x_finished s \<and> x_status s' \<in> {x_status s, WaitForAborting} \<and>
      x_commit_ts s' = x_commit_ts s \<and> o_read_index (x_ops s') = o_read_index (x_ops s) \<and>
      o_upload_entries (x_ops s') = o_upload_entries (x_ops s) \<and> x_max_writers s' = x_max_writers s \<and>
      o_set_commit (x_ops s') = o_set_commit (x_ops s) \<and> x_ls s' = x_ls s \<and>
      o_update_max (x_ops s') = o_update_max (x_ops s) \<and> o_push (x_ops s') = o_push (x_ops s) \<and>
      (\<forall>q. q \<noteq> OpPushLowerBound i \<longrightarrow> o_base (x_ops s') q = o_base (x_ops s) q) \<and> move_to_next s' (OpPushLowerBound i) \<and>
      (x_status s' = WaitForAborting \<or> \<not> hr_error (pu_result (o_push (x_ops s) ! i)) \<and>
         \<not> push_conflicts (x_commit_ts s) (hr_result (pu_result (o_push (x_ops s) ! i))))"
    using assms(4) len
    by (auto simp: popped_def op_next_def push_next_def base_defs move_to_next_def split: if_splits)
  have o: "\<not> on_stack s (OpUpdateMaxTs i)" using c st(3) by (auto simp: validate_child_def)
  then have p: "move_to_next s (OpUpdateMaxTs i)" "reread_ok s i" "push_sent s' i" "reread_sent s' i" "pu_txn_id (o_push (x_ops s) ! i) = overwriter s i"
      "\<not> held s (o_read_index (x_ops s) ! i)" "um_slot (o_update_max (x_ops s) ! i) = o_read_index (x_ops s) ! i"
      "um_index (o_update_max (x_ops s) ! i) = i"
    using c st(3) f by (simp_all add: validate_child_def push_sent_def overwriter_def reread_sent_def)
  have r: "reread_ok s' i" "overwriter s' i = overwriter s i" using f p(2) by (simp_all add: reread_ok_def overwriter_def)
  have m: "move_to_next s' (OpUpdateMaxTs i)" using f p(1) by (simp add: move_to_next_def)
  have h: "hr_finished (um_result (o_update_max (x_ops s') ! i))" using r(1) by (simp add: reread_ok_def Let_def)
  have "x_status s' = WaitForAborting \<or> validated s' i" using f r p(3,5) fin by (auto simp: validated_def Let_def)
  then have "validate_child s' i"
    using f o m h p st(2) fin by (auto simp: validate_child_def)
  then have "validating n s'"
    by (intro validating_change [OF assms(1) st(1), where i = i and tr = "[]"])
      (use f st(2,3) assms(1) in \<open>auto simp: validating_def only_def\<close>)
  then show ?thesis using f assms(2) by simp
qed

lemma update_max_replaced:
  assumes "validating n s" "n = length (o_read_index (x_ops s))" "stack_ok s" "replaced k (OpUpdateMaxTs i) q s s'"
  shows "validating n s' \<and> n = length (o_read_index (x_ops s')) \<and> stack_ok s'"
proof -
  have on: "on_stack s (OpUpdateMaxTs i)"
    unfolding on_stack_def using assms(4) nth_mem by (fastforce simp: replaced_def)
  have i: "i < n" using validating_index [OF assms(1) on] by auto
  have c: "validate_child s i" using assms(1) i by (simp add: validating_def)
  have len: "i < length (o_update_max (x_ops s))" "i < length (o_push (x_ops s))"
    using assms(1,2) i by (auto simp: validating_def)
  have slot: "um_slot (o_update_max (x_ops s) ! i) = o_read_index (x_ops s) ! i" "um_index (o_update_max (x_ops s) ! i) = i"
    using c by (auto simp: validate_child_def)
  have fin: "hr_finished (um_result (o_update_max (x_ops s) ! i))"
    using assms(4) len by (auto simp: replaced_def update_max_finished_def)
  have q: "q = OpPushLowerBound i"
    using assms(4) len slot by (auto simp: replaced_def op_next_def update_max_next_def base_defs Let_def split: if_splits)
  have "\<not> on_stack s q" using c on q by (simp add: validate_child_def)
  then obtain s1 s2 where nx: "op_next (OpUpdateMaxTs i) s = Inr (Some q, s1)"
      and s2: "s2 = s1\<lparr>x_vec := (x_vec s1)[k := Some q]\<rparr>" and cl: "op_call q s2 = Inr s'"
      and ok: "stack_ok s2" and st: "\<And>a. on_stack s2 a \<longleftrightarrow> on_stack s a \<and> a \<noteq> OpUpdateMaxTs i \<or> a = q"
    using replaced_stack [OF assms(4,3)] by blast
  have f2: "x_trace s2 = x_trace s \<and> x_finished s2 = x_finished s \<and> x_status s2 = x_status s \<and>
      x_commit_ts s2 = x_commit_ts s \<and> o_read_index (x_ops s2) = o_read_index (x_ops s) \<and>
      o_upload_entries (x_ops s2) = o_upload_entries (x_ops s) \<and> x_max_writers s2 = x_max_writers s \<and>
      o_set_commit (x_ops s2) = o_set_commit (x_ops s) \<and> ls_write (x_ls s2) = ls_write (x_ls s) \<and>
      same_sets (x_ls s) (x_ls s2) \<and> o_update_max (x_ops s2) = o_update_max (x_ops s) \<and>
      length (o_push (x_ops s2)) = length (o_push (x_ops s)) \<and>
      (\<forall>j. j \<noteq> i \<longrightarrow> o_push (x_ops s2) ! j = o_push (x_ops s) ! j) \<and>
      (\<forall>q. q \<noteq> OpUpdateMaxTs i \<longrightarrow> o_base (x_ops s2) q = o_base (x_ops s) q) \<and> (\<forall>j. held s2 j \<longrightarrow> held s j) \<and>
      has_next s2 (OpUpdateMaxTs i) \<and> move_to_next s2 (OpUpdateMaxTs i) \<and> pu_txn_id (o_push (x_ops s2) ! i) = overwriter s i \<and>
      reread_ok s i \<and> overwriter s i \<noteq> kEmptyTxId \<and> \<not> held s2 (o_read_index (x_ops s) ! i)"
    using nx len slot fin q unfolding s2
    by (auto simp: op_next_def update_max_next_def base_defs case_prod_beta Let_def reread_ok_def overwriter_def push_reset_def
        same_sets_def same_write_def same_read_def nth_update has_next_def move_to_next_def split: if_splits)
  obtain t b where tr: "x_trace s' = x_trace s2 @ [(q, UpdateCommitLowerBound t b)]" and
    tb: "t = pu_txn_id (o_push (x_ops s2) ! i)" "b = x_commit_ts s2 + 1" and
    f3: "x_finished s' = x_finished s2 \<and> x_status s' = x_status s2 \<and> x_ls s' = x_ls s2 \<and> x_vec s' = x_vec s2 \<and>
      x_commit_ts s' = x_commit_ts s2 \<and> o_read_index (x_ops s') = o_read_index (x_ops s2) \<and>
      o_upload_entries (x_ops s') = o_upload_entries (x_ops s2) \<and> x_max_writers s' = x_max_writers s2 \<and>
      o_set_commit (x_ops s') = o_set_commit (x_ops s2) \<and> o_update_max (x_ops s') = o_update_max (x_ops s2) \<and>
      o_push (x_ops s') = o_push (x_ops s2) \<and> \<not> move_to_next s' (OpPushLowerBound i) \<and>
      (\<forall>q. q \<noteq> OpPushLowerBound i \<longrightarrow> o_base (x_ops s') q = o_base (x_ops s2) q)"
    using cl q by (auto simp: op_call_def push_call_def base_defs move_to_next_def vec_at_eq_Inr i64_add_def i64_check_def
        split: if_splits)
  have os: "on_stack s' a \<longleftrightarrow> on_stack s a \<and> a \<noteq> OpUpdateMaxTs i \<or> a = q" for a
    using st f3 by (simp add: on_stack_def)
  have "stack_ok s'" using ok f3 by (simp add: stack_ok_def)
  moreover have "reread_sent s' i"
    using c f2 f3 tr reread_sent_mono [of s i s'] by (auto simp: validate_child_def)
  moreover have "push_sent s' i" using f2 f3 tr tb q by (simp add: push_sent_def overwriter_def)
  moreover have "reread_ok s' i" "overwriter s' i = overwriter s i" "held s' = held s2"
      "move_to_next s' (OpUpdateMaxTs i)" "has_next s' (OpUpdateMaxTs i)"
    using f2 f3 by (simp_all add: reread_ok_def overwriter_def move_to_next_def has_next_def)
  ultimately have "validate_child s' i"
    using os q f2 f3 slot by (simp add: validate_child_def)
  have ok': "stack_ok s'" using ok f3 by (simp add: stack_ok_def)
  have "validating n s'"
    by (intro validating_change [OF assms(1) ok', where i = i and tr = "[(q, UpdateCommitLowerBound t b)]"])
      (use \<open>validate_child s' i\<close> f2 f3 os q i tr assms(1) in \<open>auto simp: validating_def only_def\<close>)
  then show ?thesis using ok' assms(2) f2 f3 by simp
qed

lemma validating_reply:
  assumes "validating n s" "n = length (o_read_index (x_ops s))" "stack_ok s" "awaiting s r" "deliver r a s = Some s'"
  shows "validating n s' \<and> n = length (o_read_index (x_ops s')) \<and> x_vec s' = x_vec s"
proof -
  have on: "on_stack s r" using assms(4) by (simp add: awaiting_def on_stack_def)
  show ?thesis
  proof (rule validating_index [OF assms(1) on])
    assume "r = OpValidate"
    then show ?thesis using assms(5) by (auto simp: deliver_def)
  next
    fix i assume r: "r = OpUpdateMaxTs i" and i: "i < n"
    have c: "validate_child s i" using assms(1) i by (simp add: validating_def)
    have f: "x_trace s' = x_trace s \<and> x_finished s' = x_finished s \<and> x_status s' = x_status s \<and>
      x_commit_ts s' = x_commit_ts s \<and> o_read_index (x_ops s') = o_read_index (x_ops s) \<and>
      o_upload_entries (x_ops s') = o_upload_entries (x_ops s) \<and> x_max_writers s' = x_max_writers s \<and>
      o_set_commit (x_ops s') = o_set_commit (x_ops s) \<and> x_ls s' = x_ls s \<and> x_vec s' = x_vec s \<and>
      length (o_update_max (x_ops s')) = length (o_update_max (x_ops s)) \<and> o_push (x_ops s') = o_push (x_ops s) \<and>
      (\<forall>j. j \<noteq> i \<longrightarrow> o_update_max (x_ops s') ! j = o_update_max (x_ops s) ! j) \<and> o_base (x_ops s') = o_base (x_ops s) \<and>
      um_slot (o_update_max (x_ops s') ! i) = um_slot (o_update_max (x_ops s) ! i) \<and>
      um_index (o_update_max (x_ops s') ! i) = um_index (o_update_max (x_ops s) ! i)"
      using assms(5) r by (auto simp: deliver_def upd_update_max_def vec_at_eq_Inr nth_update split: reply.splits)
    have "stack_ok s'" using assms(3) f by (simp add: stack_ok_def)
    moreover have "validate_child s' i"
      using c f on r reread_sent_mono [of s i s'] by (auto simp: validate_child_def on_stack_def move_to_next_def)
    ultimately have "validating n s'"
      by (intro validating_change [OF assms(1), where i = i and tr = "[]"])
        (use f assms(1) in \<open>auto simp: validating_def only_def on_stack_def\<close>)
    then show ?thesis using f assms(2) by simp
  next
    fix i assume r: "r = OpPushLowerBound i" and i: "i < n"
    have c: "validate_child s i" using assms(1) i by (simp add: validating_def)
    have f: "x_trace s' = x_trace s \<and> x_finished s' = x_finished s \<and> x_status s' = x_status s \<and>
      x_commit_ts s' = x_commit_ts s \<and> o_read_index (x_ops s') = o_read_index (x_ops s) \<and>
      o_upload_entries (x_ops s') = o_upload_entries (x_ops s) \<and> x_max_writers s' = x_max_writers s \<and>
      o_set_commit (x_ops s') = o_set_commit (x_ops s) \<and> x_ls s' = x_ls s \<and> x_vec s' = x_vec s \<and>
      length (o_push (x_ops s')) = length (o_push (x_ops s)) \<and> o_update_max (x_ops s') = o_update_max (x_ops s) \<and>
      (\<forall>j. j \<noteq> i \<longrightarrow> o_push (x_ops s') ! j = o_push (x_ops s) ! j) \<and> o_base (x_ops s') = o_base (x_ops s) \<and>
      pu_txn_id (o_push (x_ops s') ! i) = pu_txn_id (o_push (x_ops s) ! i)"
      using assms(5) r by (auto simp: deliver_def upd_push_def vec_at_eq_Inr nth_update split: reply.splits)
    have "stack_ok s'" using assms(3) f by (simp add: stack_ok_def)
    moreover have "validate_child s' i"
      using c f on r reread_sent_mono [of s i s'] push_sent_mono [of s i s']
      by (auto simp: validate_child_def on_stack_def move_to_next_def has_next_def reread_ok_def overwriter_def)
    ultimately have "validating n s'"
      by (intro validating_change [OF assms(1), where i = i and tr = "[]"])
        (use f assms(1) in \<open>auto simp: validating_def only_def on_stack_def\<close>)
    then show ?thesis using f assms(2) by simp
  qed
qed

end
