(* ===== verification/Phase_Commit.thy ===== *)
theory Phase_Commit
  imports Phase_Validate
begin

text \<open>
  From the log to the end of a commit: what the decision rests on, the decision, and the commit of every write.
\<close>

lemma rfold_cong:
  "(\<And>x u. x \<in> set xs \<Longrightarrow> f x u = g x u) \<Longrightarrow> rfold f xs s = rfold g xs s"
proof (induction xs arbitrary: s)
  case (Cons x xs)
  then have "rfold f xs = rfold g xs" by (intro ext) auto
  with Cons.prems show ?case by simp
qed simp

lemma post_process_slots_Inr: "post_process_slots s = Inr is \<Longrightarrow> is = accepted_writes s"
  by (auto simp: post_process_slots_def accepted_writes_def dest!: rfold_filter)

lemma all_uploaded_accepted: "all_uploaded s \<Longrightarrow> accepted_writes s = [0..<write_size s]"
  by (auto simp: all_uploaded_def accepted_writes_def filter_id_conv)

section \<open>What the commit decision rests on\<close>

text \<open>All that the decision to commit needs; later steps only release read entries.\<close>

definition certified :: "exec \<Rightarrow> bool" where
  "certified s \<longleftrightarrow> sets_ok (read_size s) (x_ls s) \<and> all_uploaded s \<and> commit_ts_ok s \<and> all_validated s"

lemma certified_frame:
  assumes "certified s"
    and "ls_write (x_ls s') = ls_write (x_ls s)" "same_sets (x_ls s) (x_ls s')" "\<And>j. held s' j \<Longrightarrow> held s j"
    and "set (x_trace s) \<subseteq> set (x_trace s')" "x_max_writers s' = x_max_writers s" "x_commit_ts s' = x_commit_ts s"
    and "o_upload_entries (x_ops s') = o_upload_entries (x_ops s)" "o_set_commit (x_ops s') = o_set_commit (x_ops s)"
      "o_read_index (x_ops s') = o_read_index (x_ops s)" "o_update_max (x_ops s') = o_update_max (x_ops s)"
      "o_push (x_ops s') = o_push (x_ops s)"
  shows "certified s'"
proof -
  have sz: "read_size s' = read_size s" using same_sets_sizes [OF assms(3)] by simp
  have "validated s' i" if "validated s i" for i
    using that assms push_sent_mono [of s i s'] by (auto simp: validated_def reread_ok_def overwriter_def)
  moreover have "reread_sent s' i" if "reread_sent s i" for i
    using that assms reread_sent_mono [of s i s'] by simp
  moreover have "rs_is_updated (snd (read_entries s' ! j)) = rs_is_updated (snd (read_entries s ! j))" for j
    using assms(3) by (simp add: same_sets_def same_read_def)
  then have "unwritten_reads s' = unwritten_reads s" using sz by (simp add: unwritten_reads_def)
  ultimately have "all_validated s'" using assms(1,4,10,11) by (auto simp: certified_def all_validated_def)
  moreover have "all_uploaded s'" using assms by (intro all_uploaded_frame [of s s']) (auto simp: certified_def)
  moreover have "sets_ok (read_size s') (x_ls s')"
    using same_sets_ok [OF assms(3)] assms(1) sz by (simp add: certified_def)
  moreover have "commit_ts_ok s'" using assms commit_ts_ok_frame [of s s'] by (simp add: certified_def)
  ultimately show ?thesis by (simp add: certified_def)
qed

lemma logging_certified: "logging s \<longleftrightarrow> certified s \<and> ordered 4 s \<and> \<not> x_finished s \<and> x_status s = Ongoing \<and>
    on_stack s OpWriteLog \<and> only {OpWriteLog} s"
  by (auto simp: logging_def certified_def running_def)

lemma deciding_certified: "deciding s \<longleftrightarrow> certified s \<and> ordered 5 s \<and> \<not> x_finished s \<and> x_status s = Ongoing \<and>
    decisions s = [Committed] \<and> on_stack s OpStatusCommit \<and> only {OpStatusCommit} s"
  by (auto simp: deciding_def certified_def running_def)

lemma decided_certified: "decided s \<longleftrightarrow> certified s \<and> ordered 6 s \<and> decisions s = [Committed] \<and>
    hr_finished (o_status_commit (x_ops s)) \<and> \<not> hr_error (o_status_commit (x_ops s))"
  by (auto simp: decided_def certified_def)

lemma logging_reply:
  assumes "logging s" "awaiting s r" "deliver r a s = Some s'"
  shows "logging s' \<and> x_vec s' = x_vec s"
proof -
  have r: "r = OpWriteLog" using assms(1,2) by (auto simp: logging_def only_def awaiting_def on_stack_def)
  then obtain b where s': "s' = s\<lparr>x_ops := (x_ops s)\<lparr>o_log_finished := b\<rparr>\<rparr>"
    using assms(3) by (auto simp: deliver_def split: reply.splits)
  have "certified s'"
    using assms(1) by (intro certified_frame [of s s']) (auto simp: logging_certified s')
  then show ?thesis
    using assms(1) by (simp add: logging_certified s' ordered_def stages_def on_stack_def only_def)
qed

lemma logging_replaced:
  assumes "logging s" "stack_ok s" "replaced k OpWriteLog q s s'"
  shows "deciding s' \<and> stack_ok s'"
proof -
  have q: "q = OpStatusCommit"
    using assms(3) by (auto simp: replaced_def op_next_def write_log_next_def)
  have "\<not> on_stack s q" using assms(1) q by (auto simp: logging_def only_def)
  then obtain s1 s2 where nx: "op_next OpWriteLog s = Inr (Some q, s1)"
      and s2: "s2 = s1\<lparr>x_vec := (x_vec s1)[k := Some q]\<rparr>" and c: "op_call q s2 = Inr s'"
      and ok: "stack_ok s2" and st: "\<And>a. on_stack s2 a \<longleftrightarrow> on_stack s a \<and> a \<noteq> OpWriteLog \<or> a = q"
    using replaced_stack [OF assms(3,2)] by blast
  have f: "x_trace s' = x_trace s @ [(q, UpdateTxnStatus (x_txn_id s) Committed (te_extension (x_txn_entry s)))] \<and>
    x_finished s' = x_finished s \<and> x_ls s' = x_ls s \<and> x_status s' = x_status s \<and>
    o_upload_entries (x_ops s') = o_upload_entries (x_ops s) \<and> x_max_writers s' = x_max_writers s \<and>
    o_set_commit (x_ops s') = o_set_commit (x_ops s) \<and> x_commit_ts s' = x_commit_ts s \<and>
    o_read_index (x_ops s') = o_read_index (x_ops s) \<and> o_update_max (x_ops s') = o_update_max (x_ops s) \<and>
    o_push (x_ops s') = o_push (x_ops s) \<and> x_vec s' = x_vec s2"
    using nx s2 c q
    by (auto simp: op_next_def op_call_def write_log_next_def status_commit_call_def status_commit_reset_def base_defs)
  have "certified s'"
    using assms(1) f by (intro certified_frame [of s s']) (auto simp: logging_certified)
  moreover have "ordered 5 s'"
    using ordered_mono [of 4 s 5] f assms(1) by (intro ordered_extend [of s' s]) (auto simp: logging_def running_def)
  moreover have "decisions s = []" using assms(1) by (intro decisions_before [of 4]) (auto simp: logging_def running_def)
  then have "decisions s' = [Committed]" using f by (simp add: decisions_def)
  moreover have "only {OpStatusCommit} s'" "on_stack s' OpStatusCommit" "stack_ok s'"
    using st ok q f assms(1) by (auto simp: only_def on_stack_def stack_ok_def logging_def)
  ultimately show ?thesis
    using assms(1) f by (auto simp: deciding_certified logging_certified)
qed

lemma deciding_reply:
  assumes "deciding s" "awaiting s r" "deliver r a s = Some s'"
  shows "deciding s' \<and> x_vec s' = x_vec s"
proof -
  have r: "r = OpStatusCommit" using assms(1,2) by (auto simp: deciding_def only_def awaiting_def on_stack_def)
  then obtain b where s': "s' = s\<lparr>x_ops := (x_ops s)\<lparr>o_status_commit := b\<rparr>\<rparr>"
    using assms(3) by (auto simp: deliver_def split: reply.splits)
  have "certified s'"
    using assms(1) by (intro certified_frame [of s s']) (auto simp: deciding_certified s')
  then show ?thesis
    using assms(1) by (simp add: deciding_certified s' ordered_def stages_def on_stack_def only_def decisions_def)
qed

section \<open>Making the writes visible\<close>

lemma finalizing_change:
  assumes "finalizing n s" "stack_ok s'"
    and "x_trace s' = x_trace s" "x_finished s' = x_finished s" "x_status s' = x_status s" "x_commit_ts s' = x_commit_ts s"
    and "x_txn_id s' = x_txn_id s" "x_max_writers s' = x_max_writers s"
    and "ls_write (x_ls s') = ls_write (x_ls s)" "same_sets (x_ls s) (x_ls s')" "\<And>j. held s' j \<Longrightarrow> held s j"
    and "o_upload_entries (x_ops s') = o_upload_entries (x_ops s)" "o_set_commit (x_ops s') = o_set_commit (x_ops s)"
      "o_read_index (x_ops s') = o_read_index (x_ops s)" "o_update_max (x_ops s') = o_update_max (x_ops s)"
      "o_push (x_ops s') = o_push (x_ops s)" "o_status_commit (x_ops s') = o_status_commit (x_ops s)"
      "o_commit_index (x_ops s') = o_commit_index (x_ops s)"
      "length (o_commit_entries (x_ops s')) = length (o_commit_entries (x_ops s))"
    and "\<And>j. j \<noteq> i \<Longrightarrow> o_commit_entries (x_ops s') ! j = o_commit_entries (x_ops s) ! j \<and>
      o_base (x_ops s') (OpPostCommitEntry j) = o_base (x_ops s) (OpPostCommitEntry j) \<and>
      on_stack s' (OpPostCommitEntry j) = on_stack s (OpPostCommitEntry j)"
    and "on_stack s' OpPostCommit" "only (insert OpPostCommit (OpPostCommitEntry ` {..<n})) s'"
    and "i < n \<Longrightarrow> commit_child s' i \<and> moved s' (OpPostCommitEntry i)"
  shows "finalizing n s'"
proof -
  have sz: "read_size s' = read_size s" "write_size s' = write_size s" using same_sets_sizes [OF assms(10)] by auto
  have "certified s'"
    using assms by (intro certified_frame [of s s']) (auto simp: finalizing_def decided_certified)
  moreover have "commit_child s' j \<and> moved s' (OpPostCommitEntry j)" if j: "j < n" for j
  proof (cases "j = i")
    case True
    with j assms(23) show ?thesis by simp
  next
    case False
    have "commit_child s j \<and> moved s (OpPostCommitEntry j)" using assms(1) j by (simp add: finalizing_def)
    with assms(20) [OF False] assms(9,11) show ?thesis
      by (auto simp: commit_child_def move_to_next_def split: if_splits)
  qed
  moreover have "commit_call_of s' = commit_call_of s"
    using assms(6,7,9) by (simp add: commit_call_of_def fun_eq_iff)
  moreover have "ordered 6 s'" "decisions s' = decisions s" "calls_at 6 s' = calls_at 6 s"
    using assms(1,3) by (simp_all add: finalizing_def decided_def ordered_def stages_def decisions_def calls_at_def)
  ultimately show ?thesis
    using assms(1,4,5,17,18,19,21,22) sz by (simp add: finalizing_def decided_certified)
qed

lemma finalizing_index:
  assumes "finalizing n s" "on_stack s r"
  obtains "r = OpPostCommit" | i where "r = OpPostCommitEntry i" "i < n"
  using assms by (auto simp: finalizing_def only_def)

lemma commit_entry_popped:
  assumes "finalizing n s" "n = write_size s" "stack_ok s" "popped k (OpPostCommitEntry i) s s'"
  shows "finalizing n s' \<and> n = write_size s'"
proof -
  note st = popped_stack [OF assms(4,3)]
  have i: "i < n" using finalizing_index [OF assms(1) st(3)] by auto
  have c: "commit_child s i" using assms(1) i by (simp add: finalizing_def)
  have len: "i < length (o_commit_entries (x_ops s))" using assms(1,2) i by (auto simp: finalizing_def)
  have slot: "en_slot (o_commit_entries (x_ops s) ! i) = i" using c by (simp add: commit_child_def)
  have fin: "hr_ref_cnt (en_result (o_commit_entries (x_ops s) ! i)) = 0"
    using assms(4) len by (auto simp: popped_def commit_entry_finished_def)
  define b where "b = o_base (x_ops s')"
  have f: "x_trace s' = x_trace s \<and> x_finished s' = x_finished s \<and> x_status s' = x_status s \<and> x_commit_ts s' = x_commit_ts s \<and>
     x_txn_id s' = x_txn_id s \<and> x_max_writers s' = x_max_writers s \<and> ls_write (x_ls s') = ls_write (x_ls s) \<and>
     same_sets (x_ls s) (x_ls s') \<and> (\<forall>j. held s' j \<longrightarrow> held s j) \<and>
     x_ops s' = (x_ops s)\<lparr>o_base := b\<rparr> \<and> (\<forall>q. q \<noteq> OpPostCommitEntry i \<longrightarrow> b q = o_base (x_ops s) q) \<and>
     ob_move_to_next (b (OpPostCommitEntry i)) \<and> \<not> hr_error (en_result (o_commit_entries (x_ops s) ! i)) \<and>
     (\<forall>j. ws_read_entry (snd (write_entries s ! i)) = Some j \<longrightarrow> \<not> held s' j)"
    using assms(4) len slot unfolding b_def
    by (auto simp: popped_def op_next_def commit_entry_next_def base_defs case_prod_beta recover_def vec_at_eq_Inr
        same_sets_def same_write_def same_read_def nth_update split: if_splits)
  have "commit_child s' i \<and> moved s' (OpPostCommitEntry i)"
    using c f st(2) fin by (auto simp: commit_child_def move_to_next_def)
  then have "finalizing n s'"
    by (intro finalizing_change [OF assms(1) st(1), where i = i])
      (use f st(2,3) assms(1) in \<open>auto simp: finalizing_def only_def\<close>)
  then show ?thesis using f assms(2) same_sets_sizes [of s s'] by simp
qed

lemma finalizing_reply:
  assumes "finalizing n s" "n = write_size s" "stack_ok s" "awaiting s r" "deliver r a s = Some s'"
  shows "finalizing n s' \<and> n = write_size s' \<and> x_vec s' = x_vec s"
proof -
  have on: "on_stack s r" using assms(4) by (simp add: awaiting_def on_stack_def)
  show ?thesis
  proof (rule finalizing_index [OF assms(1) on])
    assume "r = OpPostCommit"
    then show ?thesis using assms(5) by (auto simp: deliver_def)
  next
    fix i assume r: "r = OpPostCommitEntry i" and i: "i < n"
    have c: "commit_child s i" using assms(1) i by (simp add: finalizing_def)
    obtain x where f: "s' = s\<lparr>x_ops := (x_ops s)\<lparr>o_commit_entries := (o_commit_entries (x_ops s))[i :=
          (o_commit_entries (x_ops s) ! i)\<lparr>en_result := x\<rparr>]\<rparr>\<rparr>" "i < length (o_commit_entries (x_ops s))"
      using assms(5) r by (auto simp: deliver_def upd_commit_entry_def vec_at_eq_Inr split: reply.splits)
    have "commit_child s' i \<and> moved s' (OpPostCommitEntry i)"
      using c f(2) on r by (auto simp: commit_child_def on_stack_def move_to_next_def f(1))
    then have "finalizing n s'"
      by (intro finalizing_change [OF assms(1), where i = i])
        (use assms(1,3) f(2) in \<open>auto simp: finalizing_def only_def on_stack_def stack_ok_def nth_update f(1)\<close>)
    then show ?thesis using f assms(2) by (simp add: write_size_def)
  qed
qed

lemma finalize_step:
  assumes "finalizing i s" "stack_ok s" "i < write_size s"
    and "commit_entry_reset i i s = Inr s1" "invoke (OpPostCommitEntry i) (commit_entry_call i) s1 = Inr s'"
  shows "finalizing (Suc i) s' \<and> stack_ok s' \<and> write_size s' = write_size s"
proof -
  have ns: "\<not> on_stack s (OpPostCommitEntry i)" using assms(1) by (auto simp: finalizing_def only_def)
  have len: "i < length (o_commit_entries (x_ops s))" using assms(1,3) by (auto simp: finalizing_def)
  define b where "b = o_base (x_ops s')"
  define es where "es = o_commit_entries (x_ops s')"
  have f: "x_trace s' = x_trace s @ [(OpPostCommitEntry i, commit_call_of s i)] \<and>
      x_vec s' = x_vec (push_stack (OpPostCommitEntry i) s) \<and> x_finished s' = x_finished s \<and> x_status s' = x_status s \<and>
      x_ls s' = x_ls s \<and> x_commit_ts s' = x_commit_ts s \<and> x_txn_id s' = x_txn_id s \<and> x_max_writers s' = x_max_writers s \<and>
      x_ops s' = (x_ops s)\<lparr>o_base := b, o_commit_entries := es\<rparr> \<and> length es = length (o_commit_entries (x_ops s)) \<and>
      (\<forall>j. j \<noteq> i \<longrightarrow> es ! j = o_commit_entries (x_ops s) ! j) \<and> en_slot (es ! i) = i \<and>
      \<not> ob_move_to_next (b (OpPostCommitEntry i)) \<and> (\<forall>q. q \<noteq> OpPostCommitEntry i \<longrightarrow> b q = o_base (x_ops s) q)"
    using assms(4,5) len unfolding b_def es_def
    by (auto simp: commit_entry_reset_def upd_commit_entry_def invoke_def commit_entry_call_def case_prod_beta base_defs
        move_to_next_def nth_update vec_at_eq_Inr slot_key_def commit_call_of_def)
  then have os: "on_stack s' q \<longleftrightarrow> on_stack s q \<or> q = OpPostCommitEntry i" for q
    by (auto simp: on_stack_def push_stack_def)
  have ok: "stack_ok s'" using assms(2) ns f by (auto simp: stack_ok_def push_stack_def on_stack_set)
  have sz: "write_size s' = write_size s" "read_size s' = read_size s"
    using f by (simp_all add: write_size_def read_size_def)
  have "commit_child s' j \<and> moved s' (OpPostCommitEntry j)" if j: "j < Suc i" for j
  proof (cases "j = i")
    case True
    with f os show ?thesis by (simp add: commit_child_def move_to_next_def)
  next
    case False
    then have "commit_child s j \<and> moved s (OpPostCommitEntry j)" using assms(1) j by (simp add: finalizing_def)
    with False f os show ?thesis by (auto simp: commit_child_def move_to_next_def split: if_splits)
  qed
  moreover have "certified s'"
    using assms(1) f by (intro certified_frame [of s s']) (auto simp: finalizing_def decided_certified)
  moreover have "ordered 6 s'" using assms(1) f
    by (intro ordered_extend [of s' s]) (auto simp: finalizing_def decided_def commit_call_of_def split: prod.splits)
  moreover have "decision_of (commit_call_of s i) = []" "stage (commit_call_of s i) = 6"
    by (simp_all add: commit_call_of_def case_prod_beta)
  then have "decisions s' = decisions s" "calls_at 6 s' = calls_at 6 s @ [commit_call_of s i]"
    using f by (simp_all add: decisions_def calls_at_def)
  moreover have "commit_call_of s' = commit_call_of s" using f by (simp add: commit_call_of_def fun_eq_iff)
  moreover have "only (insert OpPostCommit (OpPostCommitEntry ` {..<Suc i})) s'" "on_stack s' OpPostCommit"
    using assms(1) os by (auto simp: finalizing_def only_def)
  ultimately have "finalizing (Suc i) s'"
    using assms(1) f sz by (simp add: finalizing_def decided_certified)
  with ok sz show ?thesis by simp
qed

lemma deciding_replaced:
  assumes "deciding s" "stack_ok s" "replaced k OpStatusCommit q s s'"
  shows "finalizing (write_size s') s' \<and> stack_ok s'"
proof -
  have q: "q = OpPostCommit"
    using assms(3) by (auto simp: replaced_def op_next_def status_commit_next_def base_defs recover_def split: if_splits)
  have "\<not> on_stack s q" using assms(1) q by (auto simp: deciding_def only_def)
  then obtain s1 s2 where nx: "op_next OpStatusCommit s = Inr (Some q, s1)"
      and s2: "s2 = s1\<lparr>x_vec := (x_vec s1)[k := Some q]\<rparr>" and c: "op_call q s2 = Inr s'"
      and ok: "stack_ok s2" and st: "\<And>a. on_stack s2 a \<longleftrightarrow> on_stack s a \<and> a \<noteq> OpStatusCommit \<or> a = q"
      and fin: "op_finished OpStatusCommit s = Inr True"
    using replaced_stack [OF assms(3,2)] by blast
  have acc: "accepted_writes s = [0..<write_size s]"
    using assms(1) by (simp add: deciding_def all_uploaded_accepted)
  let ?n = "write_size s"
  let ?s3 = "set_move_to_next OpPostCommit False s2"
  let ?s4 = "?s3\<lparr>x_ops := (x_ops ?s3)\<lparr>o_commit_entries := grow ?n new_entry_op (o_commit_entries (x_ops ?s3))\<rparr>\<rparr>"
  define b where "b = o_base (x_ops ?s4)"
  define es where "es = o_commit_entries (x_ops ?s4)"
  define b1 where "b1 = o_base (x_ops s1)"
  have s1: "x_trace s1 = x_trace s \<and> x_finished s1 = x_finished s \<and> x_status s1 = x_status s \<and> x_ls s1 = x_ls s \<and>
      x_commit_ts s1 = x_commit_ts s \<and> x_txn_id s1 = x_txn_id s \<and> x_max_writers s1 = x_max_writers s \<and>
      x_ops s1 = (x_ops s)\<lparr>o_base := b1, o_commit_index := [0..<?n]\<rparr> \<and> \<not> hr_error (o_status_commit (x_ops s))"
    using nx acc unfolding b1_def
    by (auto simp: op_next_def status_commit_next_def recover_def post_commit_reset_def base_defs accepted_writes_def
        write_size_def split: if_splits dest!: on_result_ops post_process_slots_Inr)
  have idx: "o_commit_index (x_ops s2) = [0..<?n]" using s1 s2 by simp
  have f: "x_trace ?s4 = x_trace s \<and> x_finished ?s4 = x_finished s \<and> x_status ?s4 = x_status s \<and> x_ls ?s4 = x_ls s \<and>
      x_commit_ts ?s4 = x_commit_ts s \<and> x_txn_id ?s4 = x_txn_id s \<and> x_max_writers ?s4 = x_max_writers s \<and>
      x_ops ?s4 = (x_ops s)\<lparr>o_base := b, o_commit_index := [0..<?n], o_commit_entries := es\<rparr> \<and> ?n \<le> length es"
    using s1 unfolding b_def es_def s2 by (auto simp: base_defs)
  have fold: "rfold (\<lambda>i u. rbind (commit_entry_reset i i u)
      (invoke (OpPostCommitEntry i) (commit_entry_call i))) [0..<?n] ?s4 = Inr s'"
  proof -
    have "rfold (\<lambda>i u. rbind (commit_entry_reset i ([0..<?n] ! i) u)
      (invoke (OpPostCommitEntry i) (commit_entry_call i))) [0..<?n] ?s4 = Inr s'"
      using c q idx by (simp add: op_call_def post_commit_call_def Let_def base_defs del: upt_Suc)
    moreover have "rfold (\<lambda>i u. rbind (commit_entry_reset i ([0..<?n] ! i) u)
        (invoke (OpPostCommitEntry i) (commit_entry_call i))) [0..<?n] v =
      rfold (\<lambda>i u. rbind (commit_entry_reset i i u) (invoke (OpPostCommitEntry i) (commit_entry_call i))) [0..<?n] v" for v
      by (rule rfold_cong) simp
    ultimately show ?thesis by simp
  qed
  have "certified ?s4"
    using assms(1) f by (intro certified_frame [of s ?s4]) (auto simp: deciding_certified)
  moreover have "ordered 6 ?s4" "decisions ?s4 = [Committed]" "calls_at 6 ?s4 = []"
    using ordered_mono [of 5 s 6] calls_at_above [of 5 s 6] ordered_trace [of ?s4 s] f assms(1)
    by (simp_all add: deciding_certified decisions_def calls_at_def)
  moreover have "on_stack ?s4 OpPostCommit" "only {OpPostCommit} ?s4" "stack_ok ?s4"
    using st assms(1) q ok
    by (auto simp: deciding_def only_def on_stack_def stack_ok_def base_defs)
  moreover have "write_size ?s4 = ?n" using f by (simp add: write_size_def)
  ultimately have "finalizing 0 ?s4 \<and> stack_ok ?s4 \<and> write_size ?s4 = ?n"
    using assms(1) f s1 fin by (simp add: finalizing_def decided_certified deciding_def running_def)
  then have "finalizing ?n s' \<and> stack_ok s' \<and> write_size s' = ?n"
    by (rule rfold_upto [OF fold]) (use finalize_step in auto)
  then show ?thesis by simp
qed

lemma finalizing_popped:
  assumes "finalizing n s" "n = write_size s" "stack_ok s" "popped k OpPostCommit s s'"
  shows "committed s'"
proof -
  note st = popped_stack [OF assms(4,3)]
  have fin: "op_finished OpPostCommit s = Inr True" using assms(4) by (simp add: popped_def)
  define b where "b = o_base (x_ops s')"
  have f: "x_trace s' = x_trace s \<and> x_finished s' \<and> x_status s' = Committed \<and> x_commit_ts s' = x_commit_ts s \<and>
     x_txn_id s' = x_txn_id s \<and> x_max_writers s' = x_max_writers s \<and> x_ls s' = x_ls s \<and> x_ops s' = (x_ops s)\<lparr>o_base := b\<rparr>"
    using assms(4) unfolding b_def by (auto simp: popped_def op_next_def post_commit_next_def base_defs)
  have idx: "o_commit_index (x_ops s) = [0..<n]" using assms(1,2) by (simp add: finalizing_def)
  have gone: "\<not> on_stack s (OpPostCommitEntry i)" if i: "i < n" for i
  proof -
    have "commit_entry_cascade_finished s i = Inr True"
      using fin idx i by (simp add: post_commit_finished_def rall_True)
    then have "move_to_next s (OpPostCommitEntry i)" by (auto simp: commit_entry_cascade_finished_def)
    moreover have "commit_child s i" using assms(1) i by (simp add: finalizing_def)
    ultimately show ?thesis by (auto simp: commit_child_def)
  qed
  have none: "\<not> on_stack s' q" for q
  proof
    assume "on_stack s' q"
    then have "on_stack s q" "q \<noteq> OpPostCommit" using st(2) by auto
    then show False using finalizing_index [OF assms(1)] gone by metis
  qed
  have ch: "commit_child s' i" if "i < n" for i
  proof -
    have "commit_child s i" using assms(1) that by (simp add: finalizing_def)
    with gone [OF that] none f show ?thesis by (simp add: commit_child_def)
  qed
  have cert: "certified s'" 
    using assms(1) f by (intro certified_frame [of s s']) (auto simp: finalizing_def decided_certified)
  have sz: "write_size s' = n" using f assms(2) by (simp add: write_size_def)
  have "\<not> held s' j" if j: "j < read_size s'" for j
  proof (cases "rs_is_updated (snd (read_entries s' ! j))")
    case True
    have "read_ok (x_ls s') j" using cert j by (simp add: certified_def sets_ok_def read_size_def)
    with True obtain i where "i < write_size s'" "ws_read_entry (snd (write_entries s' ! i)) = Some j"
      by (auto simp: read_ok_def write_size_def ls_write_size_def)
    with ch [of i] none sz show ?thesis by (auto simp: commit_child_def)
  next
    case False
    then have "j \<in> set (unwritten_reads s')" using j by (simp add: unwritten_reads_def)
    then obtain i where "i < length (unwritten_reads s')" "unwritten_reads s' ! i = j"
      by (auto simp: in_set_conv_nth)
    then show ?thesis using cert by (auto simp: certified_def all_validated_def)
  qed
  moreover have "ordered 6 s'" "decisions s' = [Committed]" "calls_at 6 s' = map (commit_call_of s') [0..<n]"
    using assms(1) f by (simp_all add: finalizing_def decided_def ordered_def stages_def decisions_def calls_at_def
        commit_call_of_def fun_eq_iff)
  ultimately show ?thesis
    using cert ch none sz f assms(1) by (simp add: committed_def decided_certified finalizing_def only_def)
qed

end
