(* ===== verification/Phase_Abort.thy ===== *)
theory Phase_Abort
  imports Phase_Commit
begin

text \<open>
  The abort: the decision, the deletion of the uploaded versions, and the release of the read counters.
\<close>

lemma abort_state_extend:
  assumes "abort_state k s" "x_trace s' = x_trace s @ tr" "\<forall>p \<in> set tr. stage (snd p) = n" "k \<le> n" "1 < n"
    and "ls_write (x_ls s') = ls_write (x_ls s)" "same_sets (x_ls s) (x_ls s')"
    and "o_upload_entries (x_ops s') = o_upload_entries (x_ops s)" "x_max_writers s' = x_max_writers s"
  shows "abort_state n s'"
proof -
  have sz: "read_size s' = read_size s" "write_size s' = write_size s" using same_sets_sizes [OF assms(7)] by auto
  have "ordered n s" using assms(1,4) ordered_mono by (auto simp: abort_state_def)
  then have o': "ordered n s'" by (rule ordered_extend [OF assms(2,3)])
  have "(OpUploadEntry i, UploadVersion t k v x) \<notin> set tr" for i t k v x
    using assms(3,5) by fastforce
  then have "uploaded s' i = uploaded s i" for i using assms(2,6,8,9) by (simp add: uploaded_def upload_sent_def)
  moreover have "sets_ok (read_size s') (x_ls s')" using same_sets_ok [OF assms(7)] assms(1) sz by (simp add: abort_state_def)
  ultimately show ?thesis using assms(1,6) sz o' by (simp add: abort_state_def)
qed

lemma abort_state_same:
  assumes "abort_state k s" "1 < k" "x_trace s' = x_trace s"
    and "ls_write (x_ls s') = ls_write (x_ls s)" "same_sets (x_ls s) (x_ls s')"
    and "o_upload_entries (x_ops s') = o_upload_entries (x_ops s)" "x_max_writers s' = x_max_writers s"
  shows "abort_state k s'"
  by (rule abort_state_extend [OF assms(1), where tr = "[]"]) (simp_all add: assms One_nat_def [symmetric] del: One_nat_def)

text \<open>\<^verbatim>\<open>Abort\<close> drops the stack and asks the store to mark the transaction aborted.\<close>

lemma exec_abort_rejecting:
  assumes "abort_state 4 s" "\<not> x_finished s" "x_status s \<in> {Ongoing, Aborted}" "exec_abort s = Inr s'"
  shows "rejecting s' \<and> stack_ok s'"
proof -
  define b where "b = o_base (x_ops s')"
  define c where "c = o_status_abort (x_ops s')"
  have f: "x_trace s' = x_trace s @ [(OpStatusAbort, UpdateTxnStatus (x_txn_id s) Aborted (te_extension (x_txn_entry s)))] \<and>
     x_finished s' = x_finished s \<and> x_status s' = x_status s \<and> x_ls s' = x_ls s \<and> x_max_writers s' = x_max_writers s \<and>
     x_vec s' = [Some OpStatusAbort] \<and> x_ops s' = (x_ops s)\<lparr>o_base := b, o_status_abort := c\<rparr>"
    using assms(4) unfolding b_def c_def
    by (auto simp: exec_abort_def exec_call_def op_call_def status_abort_call_def status_abort_reset_def base_defs
        clean_stack_def dest!: exec_result_reset_frame)
  have "abort_state 5 s'"
    by (rule abort_state_extend [OF assms(1), where tr = "[(OpStatusAbort, UpdateTxnStatus (x_txn_id s) Aborted (te_extension (x_txn_entry s)))]"])
      (use f in auto)
  moreover have "decisions s = []" using assms(1) by (intro decisions_before [of 4]) (auto simp: abort_state_def)
  then have "decisions s' = [Aborted]" using f by (simp add: decisions_def)
  ultimately show ?thesis using assms(2,3) f by (auto simp: rejecting_def only_def on_stack_def stack_ok_def)
qed

lemma rejecting_reply:
  assumes "rejecting s" "awaiting s r" "deliver r a s = Some s'"
  shows "rejecting s' \<and> x_vec s' = x_vec s"
proof -
  have r: "r = OpStatusAbort" using assms(1,2) by (auto simp: rejecting_def only_def awaiting_def on_stack_def)
  then obtain b where s': "s' = s\<lparr>x_ops := (x_ops s)\<lparr>o_status_abort := b\<rparr>\<rparr>"
    using assms(3) by (auto simp: deliver_def split: reply.splits)
  have "abort_state 5 s'"
    using assms(1) by - (rule abort_state_same [of 5 s]; simp add: rejecting_def s')
  then show ?thesis
    using assms(1) by (simp add: rejecting_def s' on_stack_def only_def decisions_def)
qed

section \<open>Undoing the uploaded writes\<close>

lemma undoing_change:
  assumes "undoing n s"
    and "x_trace s' = x_trace s" "x_finished s' = x_finished s" "x_status s' = x_status s" "x_ls s' = x_ls s"
    and "x_max_writers s' = x_max_writers s" "o_upload_entries (x_ops s') = o_upload_entries (x_ops s)"
      "o_status_abort (x_ops s') = o_status_abort (x_ops s)" "o_abort_index (x_ops s') = o_abort_index (x_ops s)"
      "length (o_abort_entries (x_ops s')) = length (o_abort_entries (x_ops s))"
    and "\<And>j. j \<noteq> i \<Longrightarrow> o_abort_entries (x_ops s') ! j = o_abort_entries (x_ops s) ! j \<and>
      o_base (x_ops s') (OpPostAbortEntry j) = o_base (x_ops s) (OpPostAbortEntry j) \<and>
      on_stack s' (OpPostAbortEntry j) = on_stack s (OpPostAbortEntry j)"
    and "on_stack s' OpPostAbort" "only (insert OpPostAbort (OpPostAbortEntry ` {..<n})) s'"
    and "i < n \<Longrightarrow> undo_child s' i \<and> moved s' (OpPostAbortEntry i)"
  shows "undoing n s'"
proof -
  have acc: "accepted_writes s' = accepted_writes s" using assms(5) by (simp add: accepted_writes_def write_size_def)
  have "abort_state 6 s'"
    using assms(1-7) by - (rule abort_state_same [of 6 s]; simp add: undoing_def rejected_def)
  moreover have "undo_child s' j \<and> moved s' (OpPostAbortEntry j)" if j: "j < n" for j
  proof (cases "j = i")
    case True
    with j assms(14) show ?thesis by simp
  next
    case False
    have "undo_child s j \<and> moved s (OpPostAbortEntry j)" using assms(1) j by (simp add: undoing_def)
    with assms(11) [OF False] acc show ?thesis by (auto simp: undo_child_def move_to_next_def split: if_splits)
  qed
  moreover have "delete_call_of s' = delete_call_of s" using assms(5) by (simp add: delete_call_of_def fun_eq_iff)
  ultimately show ?thesis
    using assms(1-10,12,13) acc by (simp add: undoing_def rejected_def decisions_def calls_at_def)
qed

lemma undoing_index:
  assumes "undoing n s" "on_stack s r"
  obtains "r = OpPostAbort" | i where "r = OpPostAbortEntry i" "i < n"
  using assms by (auto simp: undoing_def only_def)

lemma accepted_in_range: "i < length (accepted_writes s) \<Longrightarrow> accepted_writes s ! i < write_size s \<and> need_post s (accepted_writes s ! i)"
  using nth_mem [of i "accepted_writes s"] by (auto simp: accepted_writes_def)

text \<open>No read entry of a write set ever has \<^verbatim>\<open>need_post_processing_\<close> set, so the branch of
  \<^verbatim>\<open>PostProcessingDeleteEntryAfterAbort\<close> that clears the release flag may or may not run; either way only
  release flags change.\<close>

lemma undo_entry_popped:
  assumes "undoing n s" "n = length (accepted_writes s)" "stack_ok s" "popped k (OpPostAbortEntry i) s s'"
  shows "undoing n s' \<and> n = length (accepted_writes s')"
proof -
  note st = popped_stack [OF assms(4,3)]
  have i: "i < n" using undoing_index [OF assms(1) st(3)] by auto
  have c: "undo_child s i" using assms(1) i by (simp add: undoing_def)
  have len: "i < length (o_abort_entries (x_ops s))" using assms(1,2) i by (auto simp: undoing_def)
  have fin: "hr_finished (en_result (o_abort_entries (x_ops s) ! i))"
    using assms(4) len by (auto simp: popped_def abort_entry_finished_def)
  define b where "b = o_base (x_ops s')"
  have f: "x_trace s' = x_trace s \<and> x_finished s' = x_finished s \<and> x_status s' = x_status s \<and>
     x_max_writers s' = x_max_writers s \<and> ls_write (x_ls s') = ls_write (x_ls s) \<and> same_sets (x_ls s) (x_ls s') \<and>
     x_ops s' = (x_ops s)\<lparr>o_base := b\<rparr> \<and> (\<forall>q. q \<noteq> OpPostAbortEntry i \<longrightarrow> b q = o_base (x_ops s) q) \<and>
     ob_move_to_next (b (OpPostAbortEntry i)) \<and> \<not> hr_error (en_result (o_abort_entries (x_ops s) ! i))"
    using assms(4) len unfolding b_def
    by (auto simp: popped_def op_next_def abort_entry_next_def base_defs case_prod_beta recover_def vec_at_eq_Inr
        same_sets_def same_write_def same_read_def nth_update split: if_splits option.splits)
  have acc: "accepted_writes s' = accepted_writes s"
    using f by (simp add: accepted_writes_def write_size_def ls_write_size_def)
  have "undo_child s' i \<and> moved s' (OpPostAbortEntry i)"
    using c f st(2) fin acc by (auto simp: undo_child_def move_to_next_def)
  moreover have "undo_child s' j \<and> moved s' (OpPostAbortEntry j)" if j: "j < n" "j \<noteq> i" for j
  proof -
    have "undo_child s j \<and> moved s (OpPostAbortEntry j)" using assms(1) j by (simp add: undoing_def)
    with j f st(2) acc show ?thesis by (auto simp: undo_child_def move_to_next_def split: if_splits)
  qed
  ultimately have "\<forall>j < n. undo_child s' j \<and> moved s' (OpPostAbortEntry j)" by blast
  moreover have "abort_state 6 s'"
    using assms(1) f by - (rule abort_state_same [of 6 s]; simp add: undoing_def rejected_def)
  moreover have "delete_call_of s' = delete_call_of s" using f by (simp add: delete_call_of_def fun_eq_iff)
  moreover have "only (insert OpPostAbort (OpPostAbortEntry ` {..<n})) s'" "on_stack s' OpPostAbort"
    using assms(1) st(2) by (auto simp: undoing_def only_def)
  ultimately show ?thesis
    using assms(1,2) f acc by (simp add: undoing_def rejected_def decisions_def calls_at_def)
qed

lemma undoing_reply:
  assumes "undoing n s" "n = length (accepted_writes s)" "awaiting s r" "deliver r a s = Some s'"
  shows "undoing n s' \<and> n = length (accepted_writes s') \<and> x_vec s' = x_vec s"
proof -
  have on: "on_stack s r" using assms(3) by (simp add: awaiting_def on_stack_def)
  show ?thesis
  proof (rule undoing_index [OF assms(1) on])
    assume "r = OpPostAbort"
    then show ?thesis using assms(4) by (auto simp: deliver_def)
  next
    fix i assume r: "r = OpPostAbortEntry i" and i: "i < n"
    have c: "undo_child s i" using assms(1) i by (simp add: undoing_def)
    obtain x where f: "s' = s\<lparr>x_ops := (x_ops s)\<lparr>o_abort_entries := (o_abort_entries (x_ops s))[i :=
          (o_abort_entries (x_ops s) ! i)\<lparr>en_result := x\<rparr>]\<rparr>\<rparr>" "i < length (o_abort_entries (x_ops s))"
      using assms(4) r by (auto simp: deliver_def upd_abort_entry_def vec_at_eq_Inr split: reply.splits)
    have acc: "accepted_writes s' = accepted_writes s" by (simp add: f(1) accepted_writes_def write_size_def)
    have "undo_child s' i \<and> moved s' (OpPostAbortEntry i)"
      using c f(2) on r acc by (auto simp: undo_child_def on_stack_def move_to_next_def f(1))
    then have "undoing n s'"
      by (intro undoing_change [OF assms(1), where i = i])
        (use assms(1) f(2) in \<open>auto simp: undoing_def only_def on_stack_def nth_update f(1)\<close>)
    then show ?thesis using f assms(2) acc by simp
  qed
qed

lemma undo_step:
  assumes "undoing i s" "stack_ok s" "i < length (accepted_writes s)"
    and "abort_entry_reset i (accepted_writes s ! i) s = Inr s1" "invoke (OpPostAbortEntry i) (abort_entry_call i) s1 = Inr s'"
  shows "undoing (Suc i) s' \<and> stack_ok s' \<and> accepted_writes s' = accepted_writes s"
proof -
  have ns: "\<not> on_stack s (OpPostAbortEntry i)" using assms(1) by (auto simp: undoing_def only_def)
  have len: "i < length (o_abort_entries (x_ops s))" using assms(1,3) by (auto simp: undoing_def)
  let ?w = "accepted_writes s ! i"
  define b where "b = o_base (x_ops s')"
  define es where "es = o_abort_entries (x_ops s')"
  have f: "x_trace s' = x_trace s @ [(OpPostAbortEntry i, delete_call_of s ?w)] \<and>
      x_vec s' = x_vec (push_stack (OpPostAbortEntry i) s) \<and> x_finished s' = x_finished s \<and> x_status s' = x_status s \<and>
      x_ls s' = x_ls s \<and> x_max_writers s' = x_max_writers s \<and>
      x_ops s' = (x_ops s)\<lparr>o_base := b, o_abort_entries := es\<rparr> \<and> length es = length (o_abort_entries (x_ops s)) \<and>
      (\<forall>j. j \<noteq> i \<longrightarrow> es ! j = o_abort_entries (x_ops s) ! j) \<and> en_slot (es ! i) = ?w \<and>
      \<not> ob_move_to_next (b (OpPostAbortEntry i)) \<and> (\<forall>q. q \<noteq> OpPostAbortEntry i \<longrightarrow> b q = o_base (x_ops s) q)"
    using assms(4,5) len unfolding b_def es_def
    by (auto simp: abort_entry_reset_def upd_abort_entry_def invoke_def abort_entry_call_def case_prod_beta base_defs
        move_to_next_def nth_update vec_at_eq_Inr slot_key_def delete_call_of_def)
  then have os: "on_stack s' q \<longleftrightarrow> on_stack s q \<or> q = OpPostAbortEntry i" for q
    by (auto simp: on_stack_def push_stack_def)
  have ok: "stack_ok s'" using assms(2) ns f by (auto simp: stack_ok_def push_stack_def on_stack_set)
  have acc: "accepted_writes s' = accepted_writes s" using f by (simp add: accepted_writes_def write_size_def)
  have "undo_child s' j \<and> moved s' (OpPostAbortEntry j)" if j: "j < Suc i" for j
  proof (cases "j = i")
    case True
    with f os acc show ?thesis by (simp add: undo_child_def move_to_next_def)
  next
    case False
    then have "undo_child s j \<and> moved s (OpPostAbortEntry j)" using assms(1) j by (simp add: undoing_def)
    with False f os acc show ?thesis by (auto simp: undo_child_def move_to_next_def split: if_splits)
  qed
  moreover have "decision_of (delete_call_of s ?w) = []" "stage (delete_call_of s ?w) = 6"
    by (simp_all add: delete_call_of_def case_prod_beta)
  then have "abort_state 6 s'" "decisions s' = decisions s" "calls_at 6 s' = calls_at 6 s @ [delete_call_of s ?w]"
    using f assms(1) abort_state_extend [of 6 s s' "[(OpPostAbortEntry i, delete_call_of s ?w)]" 6]
    by (simp_all add: decisions_def calls_at_def undoing_def rejected_def)
  moreover have "delete_call_of s' = delete_call_of s" using f by (simp add: delete_call_of_def fun_eq_iff)
  moreover have "only (insert OpPostAbort (OpPostAbortEntry ` {..<Suc i})) s'" "on_stack s' OpPostAbort"
    using assms(1) os by (auto simp: undoing_def only_def)
  ultimately have "undoing (Suc i) s'"
    using assms(1,3) f acc by (simp add: undoing_def rejected_def take_Suc_conv_app_nth)
  with ok acc show ?thesis by simp
qed

lemma rejecting_replaced:
  assumes "rejecting s" "stack_ok s" "replaced k OpStatusAbort q s s'"
  shows "undoing (length (accepted_writes s')) s' \<and> stack_ok s'"
proof -
  have q: "q = OpPostAbort"
    using assms(3) by (auto simp: replaced_def op_next_def status_abort_next_def base_defs recover_def split: if_splits)
  have "\<not> on_stack s q" using assms(1) q by (auto simp: rejecting_def only_def)
  then obtain s1 s2 where nx: "op_next OpStatusAbort s = Inr (Some q, s1)"
      and s2: "s2 = s1\<lparr>x_vec := (x_vec s1)[k := Some q]\<rparr>" and c: "op_call q s2 = Inr s'"
      and ok: "stack_ok s2" and st: "\<And>a. on_stack s2 a \<longleftrightarrow> on_stack s a \<and> a \<noteq> OpStatusAbort \<or> a = q"
      and fin: "op_finished OpStatusAbort s = Inr True"
    using replaced_stack [OF assms(3,2)] by blast
  let ?as = "accepted_writes s"
  let ?n = "length ?as"
  let ?s3 = "set_move_to_next OpPostAbort False s2"
  let ?s4 = "?s3\<lparr>x_ops := (x_ops ?s3)\<lparr>o_abort_entries := grow ?n new_entry_op (o_abort_entries (x_ops ?s3))\<rparr>\<rparr>"
  define b1 where "b1 = o_base (x_ops s1)"
  define b where "b = o_base (x_ops ?s4)"
  define es where "es = o_abort_entries (x_ops ?s4)"
  have s1: "x_trace s1 = x_trace s \<and> x_finished s1 = x_finished s \<and> x_status s1 = x_status s \<and> x_ls s1 = x_ls s \<and>
      x_max_writers s1 = x_max_writers s \<and>
      x_ops s1 = (x_ops s)\<lparr>o_base := b1, o_abort_index := ?as\<rparr> \<and> \<not> hr_error (o_status_abort (x_ops s))"
    using nx unfolding b1_def
    by (auto simp: op_next_def status_abort_next_def recover_def post_abort_reset_def base_defs accepted_writes_def
        write_size_def split: if_splits dest!: on_result_ops post_process_slots_Inr)
  have idx: "o_abort_index (x_ops s2) = ?as" using s1 s2 by simp
  have f: "x_trace ?s4 = x_trace s \<and> x_finished ?s4 = x_finished s \<and> x_status ?s4 = x_status s \<and> x_ls ?s4 = x_ls s \<and>
      x_max_writers ?s4 = x_max_writers s \<and>
      x_ops ?s4 = (x_ops s)\<lparr>o_base := b, o_abort_index := ?as, o_abort_entries := es\<rparr> \<and> ?n \<le> length es"
    using s1 unfolding b_def es_def s2 by (auto simp: base_defs)
  have fold: "rfold (\<lambda>i u. rbind (abort_entry_reset i (?as ! i) u)
      (invoke (OpPostAbortEntry i) (abort_entry_call i))) [0..<?n] ?s4 = Inr s'"
    using c q idx by (simp add: op_call_def post_abort_call_def Let_def base_defs del: upt_Suc)
  have "abort_state 6 ?s4" "decisions ?s4 = [Aborted]" "calls_at 6 ?s4 = []"
    using abort_state_extend [of 5 s ?s4 "[]" 6] calls_at_above [of 5 s 6] f assms(1)
    by (auto simp: rejecting_def decisions_def calls_at_def abort_state_def)
  moreover have "on_stack ?s4 OpPostAbort" "only {OpPostAbort} ?s4" "stack_ok ?s4"
    using st assms(1) q ok
    by (auto simp: rejecting_def only_def on_stack_def stack_ok_def base_defs)
  moreover have acc: "accepted_writes ?s4 = ?as" using f by (simp add: accepted_writes_def write_size_def)
  ultimately have "undoing 0 ?s4 \<and> stack_ok ?s4 \<and> accepted_writes ?s4 = ?as"
    using assms(1) f s1 fin by (simp add: undoing_def rejected_def rejecting_def)
  then have "undoing ?n s' \<and> stack_ok s' \<and> accepted_writes s' = ?as"
  proof (rule rfold_upto [OF fold])
    fix i u v
    assume i: "i < ?n" and u: "undoing i u \<and> stack_ok u \<and> accepted_writes u = ?as"
      and "rbind (abort_entry_reset i (?as ! i) u) (invoke (OpPostAbortEntry i) (abort_entry_call i)) = Inr v"
    then obtain u1 where "abort_entry_reset i (accepted_writes u ! i) u = Inr u1"
      "invoke (OpPostAbortEntry i) (abort_entry_call i) u1 = Inr v" by auto
    from undo_step [OF _ _ _ this] i u show "undoing (Suc i) v \<and> stack_ok v \<and> accepted_writes v = ?as" by simp
  qed
  then show ?thesis by simp
qed

section \<open>Releasing the read counters\<close>

lemma releasing_index:
  assumes "releasing n s" "on_stack s r"
  obtains "r = OpReleaseCounter" | i where "r = OpReleaseEntry i" "i < n"
  using assms by (auto simp: releasing_def only_def)

lemma undone_same:
  assumes "undone s" "x_trace s' = x_trace s @ tr" "\<forall>p \<in> set tr. stage (snd p) = 7"
    and "x_max_writers s' = x_max_writers s" "ls_write (x_ls s') = ls_write (x_ls s)" "same_sets (x_ls s) (x_ls s')"
    and "o_upload_entries (x_ops s') = o_upload_entries (x_ops s)" "o_status_abort (x_ops s') = o_status_abort (x_ops s)"
      "o_abort_entries (x_ops s') = o_abort_entries (x_ops s)"
    and "\<And>i. on_stack s' (OpPostAbortEntry i) = on_stack s (OpPostAbortEntry i)"
      "\<And>i. \<not> on_stack s (OpPostAbortEntry i)"
  shows "undone s'"
proof -
  have acc: "accepted_writes s' = accepted_writes s"
    using assms(5) by (simp add: accepted_writes_def write_size_def ls_write_size_def)
  have "abort_state 7 s'"
    by (rule abort_state_extend [of 7 s]) (use assms in \<open>auto simp: undone_def rejected_def\<close>)
  moreover have "delete_call_of s' = delete_call_of s" using assms(5) by (simp add: delete_call_of_def fun_eq_iff)
  moreover have "decision_of c = []" if "stage c = 7" for c using that by (cases c) auto
  then have "concat (map (\<lambda>(_, c). decision_of c) tr) = []" using assms(3) by auto
  then have "decisions s' = decisions s" using assms(2) by (simp add: decisions_def)
  moreover have "filter (\<lambda>c. stage c = 6) (map snd tr) = []" using assms(3) by (auto simp: filter_empty_conv)
  then have "calls_at 6 s' = calls_at 6 s" using assms(2) by (simp add: calls_at_def)
  moreover have "undo_child s' i = undo_child s i" for i
    using assms(9,10,11) acc by (simp add: undo_child_def)
  ultimately show ?thesis
    using assms(1,8) acc by (simp add: undone_def rejected_def)
qed

lemma release_step:
  assumes "releasing i s" "stack_ok s" "i < length (o_release_index (x_ops s))"
    and "release_entry_reset i (o_release_index (x_ops s) ! i) s = Inr s1"
      "invoke (OpReleaseEntry i) (release_entry_call i) s1 = Inr s'"
  shows "releasing (Suc i) s' \<and> stack_ok s' \<and> o_release_index (x_ops s') = o_release_index (x_ops s)"
proof -
  have ns: "\<not> on_stack s (OpReleaseEntry i)" "\<not> on_stack s (OpPostAbortEntry j)" for j
    using assms(1) by (auto simp: releasing_def only_def)
  have len: "i < length (o_release_entries (x_ops s))" using assms(1,3) by (auto simp: releasing_def)
  let ?r = "o_release_index (x_ops s) ! i"
  have f: "x_trace s' = x_trace s @ [(OpReleaseEntry i, release_call_of s ?r)] \<and>
      x_vec s' = x_vec (push_stack (OpReleaseEntry i) s) \<and> x_finished s' = x_finished s \<and> x_status s' = x_status s \<and>
      x_ls s' = x_ls s \<and> x_max_writers s' = x_max_writers s \<and> o_release_index (x_ops s') = o_release_index (x_ops s) \<and>
      o_upload_entries (x_ops s') = o_upload_entries (x_ops s) \<and> o_status_abort (x_ops s') = o_status_abort (x_ops s) \<and>
      o_abort_entries (x_ops s') = o_abort_entries (x_ops s) \<and>
      length (o_release_entries (x_ops s')) = length (o_release_entries (x_ops s)) \<and>
      (\<forall>j. j \<noteq> i \<longrightarrow> o_release_entries (x_ops s') ! j = o_release_entries (x_ops s) ! j) \<and>
      en_slot (o_release_entries (x_ops s') ! i) = ?r \<and> \<not> move_to_next s' (OpReleaseEntry i) \<and>
      (\<forall>q. q \<noteq> OpReleaseEntry i \<longrightarrow> o_base (x_ops s') q = o_base (x_ops s) q)"
    using assms(4,5) len
    by (auto simp: release_entry_reset_def upd_release_entry_def invoke_def release_entry_call_def case_prod_beta base_defs
        move_to_next_def nth_update vec_at_eq_Inr slot_key_def release_call_of_def)
  then have os: "on_stack s' q \<longleftrightarrow> on_stack s q \<or> q = OpReleaseEntry i" for q
    by (auto simp: on_stack_def push_stack_def)
  have ok: "stack_ok s'" using assms(2) ns(1) f by (auto simp: stack_ok_def push_stack_def on_stack_set)
  have "release_child s' j \<and> moved s' (OpReleaseEntry j)" if j: "j < Suc i" for j
  proof (cases "j = i")
    case True
    with f os show ?thesis by (simp add: release_child_def)
  next
    case False
    then have "release_child s j \<and> moved s (OpReleaseEntry j)" using assms(1) j by (simp add: releasing_def)
    with False f os show ?thesis by (auto simp: release_child_def move_to_next_def split: if_splits)
  qed
  moreover have "stage (release_call_of s ?r) = 7" by (simp add: release_call_of_def case_prod_beta)
  then have "undone s'" "calls_at 7 s' = calls_at 7 s @ [release_call_of s ?r]"
    using f os assms(1) ns(2) undone_same [of s s' "[(OpReleaseEntry i, release_call_of s ?r)]"]
    by (simp_all add: calls_at_def releasing_def move_to_next_def)
  moreover have "release_call_of s' = release_call_of s" using f by (simp add: release_call_of_def fun_eq_iff)
  moreover have "only (insert OpReleaseCounter (OpReleaseEntry ` {..<Suc i})) s'" "on_stack s' OpReleaseCounter"
    using assms(1) os by (auto simp: releasing_def only_def)
  moreover have "read_size s' = read_size s" using f by (simp add: read_size_def)
  ultimately have "releasing (Suc i) s'"
    using assms(1,3) f by (simp add: releasing_def take_Suc_conv_app_nth)
  with ok f show ?thesis by simp
qed

lemma undo_all_done:
  assumes "undoing n s" "n = length (accepted_writes s)" "op_finished OpPostAbort s = Inr True"
  shows "only {OpPostAbort} s" "\<not> on_stack s (OpPostAbortEntry i)"
proof -
  have idx: "o_abort_index (x_ops s) = accepted_writes s" using assms(1) by (simp add: undoing_def)
  have c: "\<not> on_stack s (OpPostAbortEntry i)" for i
  proof
    assume on: "on_stack s (OpPostAbortEntry i)"
    have i: "i < n" using undoing_index [OF assms(1) on] by auto
    have "abort_entry_cascade_finished s i = Inr True"
      using assms(2,3) idx i by (simp add: post_abort_finished_def rall_True)
    then have "move_to_next s (OpPostAbortEntry i)" by (auto simp: abort_entry_cascade_finished_def)
    moreover have "undo_child s i" using assms(1) i by (simp add: undoing_def)
    ultimately show False using on by (auto simp: undo_child_def)
  qed
  then show "\<not> on_stack s (OpPostAbortEntry i)" .
  have "r = OpPostAbort" if r: "on_stack s r" for r
    using undoing_index [OF assms(1) r] c r by metis
  then show "only {OpPostAbort} s" by (simp add: only_def)
qed

lemma release_reset_Inr:
  assumes "release_reset s = Inr s'"
  shows "s' = s\<lparr>x_ops := (x_ops s)\<lparr>o_release_index := filter (held s) [0..<read_size s]\<rparr>\<rparr>"
  using assms by (auto simp: release_reset_def dest!: rfold_filter)

lemma undoing_replaced:
  assumes "undoing n s" "n = length (accepted_writes s)" "stack_ok s" "replaced k OpPostAbort q s s'"
  shows "releasing (length (o_release_index (x_ops s'))) s' \<and> stack_ok s'"
proof -
  have q: "q = OpReleaseCounter"
    using assms(4) by (auto simp: replaced_def op_next_def post_abort_next_def)
  have "\<not> on_stack s q" using assms(1) q by (auto simp: undoing_def only_def)
  then obtain s1 s2 where nx: "op_next OpPostAbort s = Inr (Some q, s1)"
      and s2: "s2 = s1\<lparr>x_vec := (x_vec s1)[k := Some q]\<rparr>" and c: "op_call q s2 = Inr s'"
      and ok: "stack_ok s2" and st: "\<And>a. on_stack s2 a \<longleftrightarrow> on_stack s a \<and> a \<noteq> OpPostAbort \<or> a = q"
      and fin: "op_finished OpPostAbort s = Inr True"
    using replaced_stack [OF assms(4,3)] by blast
  note dn = undo_all_done [OF assms(1,2) fin]
  let ?is = "filter (held s) [0..<read_size s]"
  let ?n = "length ?is"
  let ?s3 = "set_move_to_next OpReleaseCounter False s2"
  let ?s4 = "?s3\<lparr>x_ops := (x_ops ?s3)\<lparr>o_release_entries := grow ?n new_entry_op (o_release_entries (x_ops ?s3))\<rparr>\<rparr>"
  have s1: "s1 = s\<lparr>x_ops := (x_ops s)\<lparr>o_base := o_base (x_ops s1), o_release_index := ?is\<rparr>\<rparr>"
    using nx by (auto simp: op_next_def post_abort_next_def base_defs read_size_def dest!: release_reset_Inr)
  have g: "x_trace s1 = x_trace s" "x_finished s1 = x_finished s" "x_status s1 = x_status s" "x_ls s1 = x_ls s"
    "x_max_writers s1 = x_max_writers s" "o_release_index (x_ops s1) = ?is"
    "o_upload_entries (x_ops s1) = o_upload_entries (x_ops s)" "o_status_abort (x_ops s1) = o_status_abort (x_ops s)"
    "o_abort_entries (x_ops s1) = o_abort_entries (x_ops s)"
    by (subst s1, simp)+
  have idx: "o_release_index (x_ops s2) = ?is" using g s2 by simp
  have f: "x_trace ?s4 = x_trace s \<and> x_finished ?s4 = x_finished s \<and> x_status ?s4 = x_status s \<and> x_ls ?s4 = x_ls s \<and>
      x_max_writers ?s4 = x_max_writers s \<and> o_release_index (x_ops ?s4) = ?is \<and>
      o_upload_entries (x_ops ?s4) = o_upload_entries (x_ops s) \<and> o_status_abort (x_ops ?s4) = o_status_abort (x_ops s) \<and>
      o_abort_entries (x_ops ?s4) = o_abort_entries (x_ops s) \<and> ?n \<le> length (o_release_entries (x_ops ?s4))"
    using g unfolding s2 by (simp add: base_defs)
  have fold: "rfold (\<lambda>i u. rbind (release_entry_reset i (?is ! i) u)
      (invoke (OpReleaseEntry i) (release_entry_call i))) [0..<?n] ?s4 = Inr s'"
    using c q idx by (simp add: op_call_def release_call_def Let_def base_defs del: upt_Suc)
  have os: "on_stack ?s4 a \<longleftrightarrow> on_stack s a \<and> a \<noteq> OpPostAbort \<or> a = OpReleaseCounter" for a
    using st q by (simp add: on_stack_def base_defs)
  have acc: "accepted_writes ?s4 = accepted_writes s" using f by (simp add: accepted_writes_def write_size_def)
  have "undone s" if "abort_state 7 s"
    using that assms(1,2) by (simp add: undone_def undoing_def rejected_def)
  moreover have "abort_state 7 s"
    using assms(1) ordered_mono [of 6 s 7] by (simp add: undoing_def rejected_def abort_state_def)
  moreover have "undo_child ?s4 i = undo_child s i" for i
    using f os acc dn(2) by (simp add: undo_child_def)
  moreover have "delete_call_of ?s4 = delete_call_of s" using f by (simp add: delete_call_of_def fun_eq_iff)
  moreover have "abort_state 7 ?s4"
    by (rule abort_state_same [of 7 s]) (use f \<open>abort_state 7 s\<close> in auto)
  ultimately have "undone ?s4"
    using f acc by (simp add: undone_def rejected_def decisions_def calls_at_def)
  moreover have "calls_at 7 ?s4 = []"
    using calls_at_above [of 6 s 7] f assms(1) by (simp add: undoing_def rejected_def abort_state_def calls_at_def)
  moreover have "on_stack ?s4 OpReleaseCounter" "only {OpReleaseCounter} ?s4" "stack_ok ?s4"
    using os dn ok by (auto simp: only_def stack_ok_def base_defs)
  moreover have "sorted_wrt (<) ?is" by (intro sorted_wrt_filter) simp
  moreover have "read_size ?s4 = read_size s" using f by (simp add: read_size_def)
  ultimately have "releasing 0 ?s4 \<and> stack_ok ?s4 \<and> o_release_index (x_ops ?s4) = ?is"
    using assms(1) f by (auto simp: releasing_def undoing_def)
  then have "releasing ?n s' \<and> stack_ok s' \<and> o_release_index (x_ops s') = ?is"
  proof (rule rfold_upto [OF fold])
    fix i u v
    assume i: "i < ?n" and u: "releasing i u \<and> stack_ok u \<and> o_release_index (x_ops u) = ?is"
      and "rbind (release_entry_reset i (?is ! i) u) (invoke (OpReleaseEntry i) (release_entry_call i)) = Inr v"
    then obtain u1 where "release_entry_reset i (o_release_index (x_ops u) ! i) u = Inr u1"
      "invoke (OpReleaseEntry i) (release_entry_call i) u1 = Inr v" by auto
    from release_step [OF _ _ _ this] i u
    show "releasing (Suc i) v \<and> stack_ok v \<and> o_release_index (x_ops v) = ?is"
      by simp
  qed
  then show ?thesis by simp
qed

lemma release_entry_popped:
  assumes "releasing n s" "n = length (o_release_index (x_ops s))" "stack_ok s" "popped k (OpReleaseEntry i) s s'"
  shows "releasing n s' \<and> n = length (o_release_index (x_ops s'))"
proof -
  note st = popped_stack [OF assms(4,3)]
  have i: "i < n" using releasing_index [OF assms(1) st(3)] by auto
  have c: "release_child s i" using assms(1) i by (simp add: releasing_def)
  have len: "i < length (o_release_entries (x_ops s))" using assms(1,2) i by (auto simp: releasing_def)
  have slot: "en_slot (o_release_entries (x_ops s) ! i) = o_release_index (x_ops s) ! i" using c by (simp add: release_child_def)
  have fin: "hr_finished (en_result (o_release_entries (x_ops s) ! i))"
    using assms(4) len by (auto simp: popped_def release_entry_finished_def)
  have nab: "\<not> on_stack s (OpPostAbortEntry j)" for j using assms(1) by (auto simp: releasing_def only_def)
  have f: "x_trace s' = x_trace s \<and> x_finished s' = x_finished s \<and> x_status s' = x_status s \<and>
     x_max_writers s' = x_max_writers s \<and> ls_write (x_ls s') = ls_write (x_ls s) \<and> same_sets (x_ls s) (x_ls s') \<and>
     o_upload_entries (x_ops s') = o_upload_entries (x_ops s) \<and> o_status_abort (x_ops s') = o_status_abort (x_ops s) \<and>
     o_abort_entries (x_ops s') = o_abort_entries (x_ops s) \<and> o_release_index (x_ops s') = o_release_index (x_ops s) \<and>
     o_release_entries (x_ops s') = o_release_entries (x_ops s) \<and>
     (\<forall>q. q \<noteq> OpReleaseEntry i \<longrightarrow> o_base (x_ops s') q = o_base (x_ops s) q) \<and>
     ob_move_to_next (o_base (x_ops s') (OpReleaseEntry i)) \<and> \<not> hr_error (en_result (o_release_entries (x_ops s) ! i)) \<and>
     (\<forall>j. held s' j \<longrightarrow> held s j) \<and> \<not> held s' (o_release_index (x_ops s) ! i) \<and> 
     (\<forall>j. fst (read_entries s' ! j) = fst (read_entries s ! j) \<and>
       rs_version (snd (read_entries s' ! j)) = rs_version (snd (read_entries s ! j)) \<and>
       rs_extension (snd (read_entries s' ! j)) = rs_extension (snd (read_entries s ! j)))"
    using assms(4) len slot
    by (auto simp: popped_def op_next_def release_entry_next_def base_defs case_prod_beta recover_def vec_at_eq_Inr
        same_sets_def same_write_def same_read_def nth_update split: if_splits)
  have sz: "read_size s' = read_size s" using same_sets_sizes [of s s'] f by blast
  have "release_child s' j \<and> moved s' (OpReleaseEntry j)" if j: "j < n" for j
  proof (cases "j = i")
    case True
    with c f st(2) fin show ?thesis by (auto simp: release_child_def move_to_next_def)
  next
    case False
    have "release_child s j \<and> moved s (OpReleaseEntry j)" using assms(1) j by (simp add: releasing_def)
    with False f st(2) show ?thesis by (auto simp: release_child_def move_to_next_def split: if_splits)
  qed
  moreover have "undone s'"
    by (rule undone_same [of s s' "[]"]) (use assms(1) f st(2) nab in \<open>auto simp: releasing_def\<close>)
  moreover have "release_call_of s' = release_call_of s" using f by (simp add: release_call_of_def fun_eq_iff case_prod_beta)
  moreover have "only (insert OpReleaseCounter (OpReleaseEntry ` {..<n})) s'" "on_stack s' OpReleaseCounter"
    using assms(1) st(2) by (auto simp: releasing_def only_def)
  ultimately show ?thesis
    using assms(1,2) f sz by (auto simp: releasing_def calls_at_def)
qed

lemma releasing_reply:
  assumes "releasing n s" "n = length (o_release_index (x_ops s))" "awaiting s r" "deliver r a s = Some s'"
  shows "releasing n s' \<and> n = length (o_release_index (x_ops s')) \<and> x_vec s' = x_vec s"
proof -
  have on: "on_stack s r" using assms(3) by (simp add: awaiting_def on_stack_def)
  have nab: "\<not> on_stack s (OpPostAbortEntry j)" for j using assms(1) by (auto simp: releasing_def only_def)
  show ?thesis
  proof (rule releasing_index [OF assms(1) on])
    assume "r = OpReleaseCounter"
    then show ?thesis using assms(4) by (auto simp: deliver_def)
  next
    fix i assume r: "r = OpReleaseEntry i" and i: "i < n"
    obtain x where f: "s' = s\<lparr>x_ops := (x_ops s)\<lparr>o_release_entries := (o_release_entries (x_ops s))[i :=
          (o_release_entries (x_ops s) ! i)\<lparr>en_result := x\<rparr>]\<rparr>\<rparr>" "i < length (o_release_entries (x_ops s))"
      using assms(4) r by (auto simp: deliver_def upd_release_entry_def vec_at_eq_Inr split: reply.splits)
    have os: "on_stack s' q = on_stack s q" for q by (simp add: f(1) on_stack_def)
    have "release_child s' j \<and> moved s' (OpReleaseEntry j)" if j: "j < n" for j
    proof -
      have "release_child s j \<and> moved s (OpReleaseEntry j)" using assms(1) j by (simp add: releasing_def)
      with on r f(2) os show ?thesis by (cases "j = i") (auto simp: release_child_def move_to_next_def f(1))
    qed
    moreover have "undone s'"
      by (rule undone_same [of s s' "[]"]) (use assms(1) os nab in \<open>auto simp: releasing_def f(1)\<close>)
    moreover have "release_call_of s' = release_call_of s" by (simp add: f(1) release_call_of_def fun_eq_iff)
    moreover have "only (insert OpReleaseCounter (OpReleaseEntry ` {..<n})) s'" "on_stack s' OpReleaseCounter"
      using assms(1) os by (auto simp: releasing_def only_def)
    ultimately have "releasing n s'" using assms(1,2) by (auto simp: releasing_def calls_at_def f(1) read_size_def)
    then show ?thesis using assms(2) by (simp add: f(1))
  qed
qed

lemma releasing_popped:
  assumes "releasing n s" "n = length (o_release_index (x_ops s))" "stack_ok s" "popped k OpReleaseCounter s s'"
  shows "aborted s'"
proof -
  note st = popped_stack [OF assms(4,3)]
  have fin: "op_finished OpReleaseCounter s = Inr True" using assms(4) by (simp add: popped_def)
  have nab: "\<not> on_stack s (OpPostAbortEntry j)" for j using assms(1) by (auto simp: releasing_def only_def)
  define b where "b = o_base (x_ops s')"
  have f: "x_trace s' = x_trace s \<and> x_finished s' \<and> x_status s' = Aborted \<and> x_ls s' = x_ls s \<and>
     x_max_writers s' = x_max_writers s \<and> x_ops s' = (x_ops s)\<lparr>o_base := b\<rparr>"
    using assms(4) unfolding b_def by (auto simp: popped_def op_next_def release_next_def base_defs)
  have gone: "\<not> on_stack s (OpReleaseEntry i) \<and> \<not> held s (o_release_index (x_ops s) ! i)" if i: "i < n" for i
  proof -
    have "release_entry_cascade_finished s i = Inr True"
      using assms(2) fin i by (simp add: release_finished_def rall_True)
    then have "move_to_next s (OpReleaseEntry i)" by (auto simp: release_entry_cascade_finished_def)
    moreover have "release_child s i" using assms(1) i by (simp add: releasing_def)
    ultimately show ?thesis by (auto simp: release_child_def split: if_splits)
  qed
  have none: "\<not> on_stack s' q" for q
  proof
    assume "on_stack s' q"
    then have "on_stack s q" "q \<noteq> OpReleaseCounter" using st(2) by auto
    then show False using releasing_index [OF assms(1)] gone by metis
  qed
  have "\<not> held s' j" if j: "j < read_size s'" for j
  proof
    assume "held s' j"
    then have "held s j" "j < read_size s" using f j by (auto simp: read_size_def)
    then have "j \<in> set (o_release_index (x_ops s))" using assms(1) by (auto simp: releasing_def)
    then show False using gone \<open>held s j\<close> assms(2) by (auto simp: in_set_conv_nth)
  qed
  moreover have "undone s'"
    by (rule undone_same [of s s' "[]"]) (use assms(1) f none nab in \<open>auto simp: releasing_def\<close>)
  moreover have "release_call_of s' = release_call_of s" using f by (simp add: release_call_of_def fun_eq_iff)
  ultimately show ?thesis
    using assms(1,2) f none by (simp add: aborted_def only_def releasing_def calls_at_def)
qed

end
