(* ===== verification/Phase_Client.thy ===== *)
theory Phase_Client
  imports Phase_Abort
begin

text \<open>
  The client phases: the operations of a transaction before it commits or aborts, and the read and write sets they build.
\<close>

text \<open>Client phases depend on few fields; the rest may change freely.\<close>

lemma client_state_frame:
  assumes "client_state m s" "x_trace s' = x_trace s @ tr" "\<forall>p \<in> set tr. stage (snd p) = 0"
    and "x_finished s' = x_finished s" "x_status s' = x_status s" "x_commit_ts s' = x_commit_ts s"
    and "x_max_writers s' = x_max_writers s" "x_ls s' = x_ls s"
  shows "client_state m s'"
proof -
  have "ordered 0 s'" using assms(1) by (intro ordered_extend [OF assms(2,3)]) (simp add: client_state_def)
  with assms show ?thesis by (simp add: client_state_def write_size_def)
qed

lemma client_state_sets:
  assumes "client_state m s" "sets_ok m' (x_ls s')" "x_trace s' = x_trace s"
    and "x_finished s' = x_finished s" "x_status s' = x_status s" "x_commit_ts s' = x_commit_ts s"
    and "x_max_writers s' = x_max_writers s" "\<And>i. i < write_size s' \<Longrightarrow> \<not> need_post s' i"
  shows "client_state m' s'"
  using assms ordered_trace [OF assms(3)] by (simp add: client_state_def)

lemma read_size_ls: "read_size s = pl_pop (ls_read (x_ls s))"
  by (simp add: read_size_def ls_read_size_def)

lemma write_size_ls: "write_size s = pl_pop (ls_write (x_ls s))"
  by (simp add: write_size_def ls_write_size_def)

lemma put_read_simps [simp]:
  "ls_write (put_read j e ls) = ls_write ls"
  "pl_pop (ls_read (put_read j e ls)) = pl_pop (ls_read ls)"
  by (simp_all add: put_read_def)

section \<open>Writing over a read entry\<close>

lemma write_over_client:
  assumes "client_state (read_size s) s" "exec_find_in_read_set s t k = Inr (Some j)"
    and "write_over j t k d rec s = Inr s'"
  shows "client_state (read_size s') s' \<and> same_ctl s s'"
proof -
  have inv: "pool_inv (ls_read (x_ls s))" "pool_inv (ls_write (x_ls s))"
    using assms(1) by (auto simp: client_state_def sets_ok_def)
  have "j < read_size s \<and> keyed t k (read_entries s ! j)"
    using read_set.find_in_range [of "ls_read (x_ls s)" t k j] assms(2) inv
    by (auto simp: exec_find_in_read_set_def ls_find_in_read_set_def read_size_ls live_nth)
  moreover from write_over_Inr [OF assms(3)] obtain p where c: "same_ctl s s'"
    and w: "new_write_slot t k (rs_version (snd (read_entries s ! j)) + 1) d rec (Some j) False (ls_write (x_ls s)) = Inr p"
    and ls: "x_ls s' = (put_read j (fst (read_entries s ! j), (snd (read_entries s ! j))\<lparr>rs_is_updated := True\<rparr>) (x_ls s))\<lparr>ls_write := snd p\<rparr>"
    by blast
  obtain n q where p: "p = (n, q)" by (cases p)
  note nw = new_write_slot_entries [OF inv(2) w [unfolded p]]
  have "sets_ok (read_size s) (x_ls s')"
    using sets_ok_write_over [OF _ _ _ w [unfolded p]] assms(1) calculation ls p by (simp add: client_state_def)
  moreover have "read_size s' = read_size s" by (simp add: read_size_ls ls)
  moreover have "\<not> need_post s' i" if i: "i < write_size s'" for i
  proof (cases "i = pl_pop (ls_write (x_ls s))")
    case True
    then show ?thesis using nw(5) ls p by (cases "pl_entries q ! i") auto
  next
    case False
    then have i': "i < pl_pop (ls_write (x_ls s))" using i nw(2) ls p by (simp add: write_size_ls)
    then have "\<not> need_post s i" using assms(1) by (simp add: client_state_def write_size_ls)
    then show ?thesis using nw(4) [OF i'] ls p by simp
  qed
  ultimately show ?thesis
    using c client_state_sets [OF assms(1), of "read_size s" s'] by (simp add: same_ctl_def)
qed

lemma same_ctl_refl [simp]: "same_ctl s s" by (simp add: same_ctl_def)

lemma client_result:
  assumes "client_state m s" "s' = s\<lparr>w_heap := h, w_reqs := q, x_result := r\<rparr>"
  shows "client_state m s'" "same_ctl s s'" "read_size s' = read_size s"
  using assms by (auto simp: client_state_def same_ctl_def ordered_def stages_def read_size_def write_size_def)

lemma client_base:
  assumes "client_state m s"
  shows "client_state m (s\<lparr>x_ops := p\<rparr>)" "client_state m (s\<lparr>x_vec := v\<rparr>)" "client_state m (s\<lparr>x_current := c\<rparr>)"
  using assms by (auto simp: client_state_def ordered_def stages_def read_size_def write_size_def)

section \<open>Client operations that finish at once\<close>

lemma update_call_client:
  assumes "client_state (read_size s) s" "update_call s = Inr s'"
  shows "client_state (read_size s') s' \<and> same_ctl s s'"
proof -
  from assms(2) obtain k e where find: "exec_find_in_read_set s (kv_table (o_update (x_ops s))) k = Inr e"
    and r: "(case e of None \<Rightarrow> on_result result_set_error s
         | Some j \<Rightarrow> rbind (vec_at (read_entries s) j) (\<lambda>(_, e).
             if rs_is_deleted e \<and> rs_version e > 0 then on_result result_set_error s
             else write_over j (kv_table (o_update (x_ops s))) k False (kv_record (o_update (x_ops s))) s)) = Inr s'"
    by (auto simp: update_call_def Let_def)
  show ?thesis
  proof (cases "on_result result_set_error s = Inr s'")
    case True
    then show ?thesis using client_result [OF assms(1)] by (metis on_result_ops(3))
  next
    case False
    with r obtain j where "e = Some j" "write_over j (kv_table (o_update (x_ops s))) k False (kv_record (o_update (x_ops s))) s = Inr s'"
      by (auto split: option.splits if_splits)
    with write_over_client [OF assms(1)] find show ?thesis by blast
  qed
qed

lemma delete_call_client:
  assumes "client_state (read_size s) s" "delete_call s = Inr s'"
  shows "client_state (read_size s') s' \<and> same_ctl s s'"
proof -
  let ?a = "o_delete (x_ops s)"
  from assms(2) obtain k w e where find: "exec_find_in_read_set s (kv_table ?a) k = Inr e"
    and r: "(case w of
           Some i \<Rightarrow> rbind (vec_at (write_entries s) i) (\<lambda>(_, w).
             if ws_is_deleted w then on_result result_set_error s
             else rbind (upd_write_entry i (\<lambda>(sk, w). (sk, w\<lparr>ws_is_deleted := True, ws_record := None\<rparr>)) s)
                    on_result_finished)
         | None \<Rightarrow>
             (case e of
                None \<Rightarrow> on_result result_set_error s
              | Some j \<Rightarrow> rbind (vec_at (read_entries s) j) (\<lambda>(_, e).
                  if rs_is_deleted e then on_result result_set_error s
                  else write_over j (kv_table ?a) k True None s))) = Inr s'"
    by (auto simp: delete_call_def Let_def)
  show ?thesis
  proof (cases "on_result result_set_error s = Inr s'")
    case True
    then show ?thesis using client_result [OF assms(1)] by (metis on_result_ops(3))
  next
    case False
    show ?thesis
    proof (cases w)
      case None
      with False r obtain j where "e = Some j" "write_over j (kv_table ?a) k True None s = Inr s'"
        by (auto split: option.splits if_splits)
      with write_over_client [OF assms(1)] find show ?thesis by blast
    next
      case (Some i)
      with False r have f: "same_ctl s s' \<and> same_sets (x_ls s) (x_ls s') \<and> (\<forall>j. need_post s' j = need_post s j)"
        by (auto simp: vec_at_eq_Inr case_prod_beta same_ctl_def same_sets_def same_read_def same_write_def nth_update
            split: if_splits dest!: on_result_finished_frame)
      have "sets_ok (read_size s') (x_ls s')"
        using f same_sets_ok [of "x_ls s" "x_ls s'"] same_sets_sizes [of s s'] assms(1) by (simp add: client_state_def)
      then have "client_state (read_size s') s'"
        using f assms(1) same_sets_sizes [of s s'] by (intro client_state_sets [OF assms(1)]) (auto simp: same_ctl_def client_state_def)
      with f show ?thesis by blast
    qed
  qed
qed

lemma insert_next_client:
  assumes "client_state (read_size s) s" "insert_next s = Inr (operation, s')"
  shows "client_state (read_size s') s' \<and> operation = None"
proof -
  let ?a = "o_insert (x_ops s)"
  from assms(2) obtain k e s1 where find: "exec_find_in_read_set s (kv_table ?a) k = Inr e"
    and r: "(case e of
             None \<Rightarrow> on_result result_set_error s
           | Some j \<Rightarrow> rbind (vec_at (read_entries s) j) (\<lambda>(_, e).
               if rs_is_deleted e then write_over j (kv_table ?a) k False (kv_record ?a) s
               else on_result result_set_error s)) = Inr s1"
    and s': "op_done OpInsert s1 = Inr (operation, s')"
    by (auto simp: insert_next_def Let_def)
  have "client_state (read_size s1) s1"
  proof (cases "on_result result_set_error s = Inr s1")
    case True
    then show ?thesis using client_result [OF assms(1)] by (metis on_result_ops(3))
  next
    case False
    with r obtain j where "e = Some j" "write_over j (kv_table ?a) k False (kv_record ?a) s = Inr s1"
      by (auto split: option.splits if_splits)
    with write_over_client [OF assms(1)] find show ?thesis by blast
  qed
  then show ?thesis using s' client_base(1) by (auto simp: op_done_def set_has_next_def upd_base_def read_size_def)
qed

lemma upsert_next_client:
  assumes "client_state (read_size s) s" "upsert_next s = Inr (operation, s')"
  shows "client_state (read_size s') s' \<and> operation = None"
proof -
  let ?a = "o_upsert (x_ops s)"
  from assms(2) obtain k e s1 where find: "exec_find_in_read_set s (kv_table ?a) k = Inr e"
    and r: "(case e of
             None \<Rightarrow> Inr s
           | Some j \<Rightarrow> write_over j (kv_table ?a) k False (kv_record ?a) s) = Inr s1"
    and s': "op_done OpUpsert s1 = Inr (operation, s')"
    by (auto simp: upsert_next_def Let_def)
  have "client_state (read_size s1) s1"
    using r find assms(1) write_over_client [OF assms(1)] by (cases e) auto
  then show ?thesis using s' client_base(1) by (auto simp: op_done_def set_has_next_def upd_base_def read_size_def)
qed

section \<open>A read of the version store\<close>

lemma read_reset_client:
  assumes "client_state (read_size s) s" "read_outside_reset t k rec d s = Inr s'"
  shows "client_state (ro_slot (o_read (x_ops s'))) s' \<and> read_size s' = Suc (ro_slot (o_read (x_ops s'))) \<and> x_vec s' = x_vec s"
proof -
  note f = read_outside_reset_Inr(1) [OF assms(2)]
  obtain i p e where n: "new_read_slot (ls_read (x_ls s)) = Inr (i, p)" and slot: "ro_slot (o_read (x_ops s')) = i"
    and ls: "x_ls s' = put_read i e ((x_ls s)\<lparr>ls_read := p\<rparr>)"
    using read_outside_reset_Inr(2) [OF assms(2)] by blast
  have ok: "sets_ok (pl_pop (ls_read (x_ls s))) (x_ls s)"
    using assms(1) by (simp add: client_state_def read_size_ls)
  note s = sets_ok_new_read [OF ok n]
  have "client_state i s'"
    using s(3) ls f assms(1) by (intro client_state_sets [OF assms(1)]) (auto simp: client_state_def write_size_ls)
  moreover have "read_size s' = Suc i" using s(2) by (simp add: read_size_ls ls)
  ultimately show ?thesis using slot f by simp
qed

lemma read_next_client:
  assumes "client_state (ro_slot (o_read (x_ops s))) s" "read_size s = Suc (ro_slot (o_read (x_ops s)))"
    and "read_outside_next s = Inr (operation, s')"
  shows "client_state (read_size s') s' \<and> operation = None \<and> x_vec s' = x_vec s"
proof -
  let ?ro = "o_read (x_ops s)"
  let ?i = "ro_slot ?ro"
  have ok: "sets_ok ?i (x_ls s)" "pl_pop (ls_read (x_ls s)) = Suc ?i"
    using assms(1,2) by (auto simp: client_state_def read_size_ls)
  from assms(3) obtain s2 where s': "op_done OpReadOutside s2 = Inr (operation, s')" and
    r: "(if hr_error (ro_result ?ro)
            then rbind (vec_at (hr_result (ro_result ?ro)) 0) (\<lambda>v.
              rbind (upd_read_entry ?i (\<lambda>(sk, e). (sk, e\<lparr>rs_extension := ve_extension v\<rparr>)) (take_extension 0 s)) (\<lambda>s1.
              on_result result_set_error (release_read_set s1)))
            else internal_read s) = Inr s2"
    unfolding read_outside_next_def Let_def rbind_eq_Inr by blast
  have "client_state (read_size s2) s2 \<and> x_vec s2 = x_vec s"
  proof (cases "hr_error (ro_result ?ro)")
    case False
    with r have ir: "internal_read s = Inr s2" by simp
    from internal_read_Inr [OF ir] obtain t k e where e: "keyed t k e" "\<not> rs_is_updated (snd e)"
      and c: "same_ctl s s2" and ls: "x_ls s2 = put_read ?i e (x_ls s)" by blast
    have "sets_ok (Suc ?i) (x_ls s2)" using sets_ok_fill [OF ok e] ls by simp
    moreover have "read_size s2 = Suc ?i" using ok(2) ls by (simp add: read_size_ls)
    ultimately have "client_state (read_size s2) s2"
      using c ls assms(1) by (intro client_state_sets [OF assms(1)]) (auto simp: client_state_def write_size_ls same_ctl_def)
    with c show ?thesis by (simp add: same_ctl_def)
  next
    case True
    with r obtain v where f: "same_ctl s s2 \<and> x_ls s2 = ls_release_read_set (put_read ?i (fst (read_entries s ! ?i),
        (snd (read_entries s ! ?i))\<lparr>rs_extension := v\<rparr>) (x_ls s))"
      by (auto simp: base_defs case_prod_beta same_ctl_def put_read_def dest!: on_result_ops)
    let ?ls = "put_read ?i (fst (read_entries s ! ?i), (snd (read_entries s ! ?i))\<lparr>rs_extension := v\<rparr>) (x_ls s)"
    have "same_sets (x_ls s) ?ls" by (intro same_sets_put_read) (simp add: same_read_def)
    then have "sets_ok ?i ?ls" using same_sets_ok ok(1) by blast
    note rel = sets_ok_release [OF this]
    have "read_size s2 = ?i" using rel(2) ok(2) f by (simp add: read_size_ls)
    moreover have "sets_ok ?i (x_ls s2)" using rel(1) ok(2) f by simp
    moreover have "ls_write (x_ls s2) = ls_write (x_ls s)" using rel(3) ok(2) f by simp
    ultimately have "client_state (read_size s2) s2"
      using f assms(1) by (intro client_state_sets [OF assms(1)]) (auto simp: client_state_def write_size_ls same_ctl_def)
    with f show ?thesis by (simp add: same_ctl_def)
  qed
  then show ?thesis using s' client_base(1) by (auto simp: op_done_def set_has_next_def upd_base_def read_size_def)
qed

section \<open>Visits in the client phases\<close>

lemma only_popped: "(\<And>q. on_stack s' q \<longleftrightarrow> on_stack s q \<and> q \<noteq> r) \<Longrightarrow> only (insert r R) s \<Longrightarrow> only R s'"
  by (auto simp: only_def)

lemma client_simps [simp]:
  "client_state m (set_has_next r b s) \<longleftrightarrow> client_state m s" "read_size (set_has_next r b s) = read_size s"
  "client_state m (set_move_to_next r b s) \<longleftrightarrow> client_state m s" "read_size (set_move_to_next r b s) = read_size s"
  by (simp_all add: set_has_next_def set_move_to_next_def upd_base_def client_state_def ordered_def stages_def
      read_size_def write_size_def)

lemma client_popped:
  assumes "in_phase (Client r) s" "stack_ok s" "popped k q s s'"
  shows "in_phase Idle s' \<and> stack_ok s'"
proof -
  note st = popped_stack [OF assms(3,2)]
  have q: "q = r" using st(3) assms(1) by (auto simp: only_def)
  let ?s0 = "set_has_next r True (set_move_to_next r True s)"
  have c0: "client_state (read_size ?s0) ?s0"
    using assms(1) by simp
  obtain s1 where s1: "op_next_impl r ?s0 = Inr (None, s1)" and s': "s' = s1\<lparr>x_vec := (x_vec s1)[k := None]\<rparr>"
    using assms(3) q by (auto simp: popped_def op_next_def)
  have "client_state (read_size s1) s1"
  proof -
    consider "r = OpInsert" | "r = OpUpsert" | "r \<in> {OpUpdate, OpDelete}" | "r = OpInitTxn" | "r = OpReadDs"
      using assms(1) by auto
    then show ?thesis
    proof cases
      case 1 then show ?thesis using s1 insert_next_client [OF c0] by auto
    next
      case 2 then show ?thesis using s1 upsert_next_client [OF c0] by auto
    next
      case 3
      with s1 show ?thesis using c0 by (auto simp: op_done_def)
    next
      case 4
      with s1 c0 show ?thesis
        by (auto simp: init_txn_next_def base_defs client_state_def ordered_def stages_def read_size_def write_size_def
            split: if_splits dest!: on_result_finished_frame)
    next
      case 5
      with s1 c0 show ?thesis
        by (auto simp: read_ds_next_def base_defs client_state_def ordered_def stages_def read_size_def write_size_def Let_def
            split: if_splits dest!: on_result_ops)
    qed
  qed
  then have "client_state (read_size s') s'" using client_base(2) by (simp add: s' read_size_def)
  moreover have "only {} s'" using only_popped [OF st(2)] assms(1) q by auto
  ultimately show ?thesis using st(1) by simp
qed

lemma client_replaced:
  assumes "in_phase (Client r) s" "stack_ok s" "replaced k q q' s s'"
  shows "in_phase (Client r) s' \<and> stack_ok s'"
proof -
  have on: "on_stack s q" unfolding on_stack_def using assms(3) nth_mem by (fastforce simp: replaced_def)
  then have q: "q = r" using assms(1) by (auto simp: only_def)
  obtain s1 where "op_next_impl r (set_has_next r True (set_move_to_next r True s)) = Inr (Some q', s1)"
    using assms(3) q by (auto simp: replaced_def op_next_def)
  then have r: "r = OpInitTxn \<and> q' = OpInitTxn"
    using assms(1)
    by (auto simp: insert_next_def upsert_next_def op_done_def init_txn_next_def read_ds_next_def Let_def split: if_splits)
  then have rep: "replaced k OpInitTxn OpInitTxn s s'" using assms(3) q by simp
  obtain s1 s2 where nx: "op_next OpInitTxn s = Inr (Some OpInitTxn, s1)"
      and s2: "s2 = s1\<lparr>x_vec := (x_vec s1)[k := Some OpInitTxn]\<rparr>" and c: "op_call OpInitTxn s2 = Inr s'"
      and ok: "stack_ok s2" and st: "\<And>a. on_stack s2 a \<longleftrightarrow> on_stack s a \<and> a \<noteq> OpInitTxn \<or> a = OpInitTxn"
    using replaced_stack [OF rep assms(2)] by blast
  obtain c where f: "x_trace s' = x_trace s @ [c] \<and> stage (snd c) = 0 \<and> x_finished s' = x_finished s \<and> x_status s' = x_status s \<and>
      x_commit_ts s' = x_commit_ts s \<and> x_max_writers s' = x_max_writers s \<and> x_ls s' = x_ls s \<and> x_vec s' = x_vec s2"
    using nx s2 c
    by (auto simp: op_next_def op_call_def init_txn_next_def init_txn_call_def init_txn_reset_def base_defs
        reset_txn_id_and_time_def split: if_splits dest!: exec_get_time_frame)
  have "client_state (read_size s) s'"
    using assms(1) f by (intro client_state_frame [of _ s s' "[c]"]) auto
  moreover have "read_size s' = read_size s" using f by (simp add: read_size_def)
  ultimately show ?thesis using assms(1) f st ok r by (auto simp: only_def on_stack_def stack_ok_def)
qed

lemma reading_popped:
  assumes "in_phase (Reading q) s" "stack_ok s" "popped k r s s'"
  shows "in_phase (if q = OpReadOutside then Idle else Client q) s' \<and> stack_ok s'"
proof -
  note st = popped_stack [OF assms(3,2)]
  have r: "r = OpReadOutside"
  proof (rule ccontr)
    assume n: "r \<noteq> OpReadOutside"
    then have "r = q" "r \<in> {OpInsert, OpUpsert}" using assms(1) st(3) by (auto simp: reading_def only_def)
    moreover have "op_finished r s = Inr True" using assms(3) by (simp add: popped_def)
    ultimately show False using assms(1) by (auto simp: reading_def read_outside_cascade_finished_def)
  qed
  let ?s0 = "set_has_next r True (set_move_to_next r True s)"
  obtain s1 where s1: "read_outside_next ?s0 = Inr (None, s1)" and s': "s' = s1\<lparr>x_vec := (x_vec s1)[k := None]\<rparr>"
    using assms(3) r by (auto simp: popped_def op_next_def)
  have "client_state (ro_slot (o_read (x_ops ?s0))) ?s0" "read_size ?s0 = Suc (ro_slot (o_read (x_ops ?s0)))"
    using assms(1) client_base(1) by (auto simp: reading_def set_has_next_def set_move_to_next_def upd_base_def read_size_def)
  from read_next_client [OF this s1] have c: "client_state (read_size s') s'"
    using client_base(2) by (simp add: s' read_size_def)
  show ?thesis
  proof (cases "q = OpReadOutside")
    case True
    have "only {} s'" using only_popped [OF st(2)] assms(1) r True by (auto simp: reading_def)
    with c st(1) True show ?thesis by simp
  next
    case False
    have "only {q} s'" using only_popped [OF st(2)] assms(1) r by (auto simp: reading_def)
    moreover have "on_stack s' q" using st(2) assms(1) r False by auto
    ultimately show ?thesis using c st(1) False assms(1) by auto
  qed
qed

lemma reading_replaced:
  assumes "in_phase (Reading q) s" "replaced k r r' s s'"
  shows False
proof -
  have on: "on_stack s r" unfolding on_stack_def using assms(2) nth_mem by (fastforce simp: replaced_def)
  have "r \<in> {OpReadOutside, q}" using assms(1) on by (auto simp: reading_def only_def)
  moreover have "op_finished r s = Inr True" using assms(2) by (simp add: replaced_def)
  then have "r \<notin> {OpInsert, OpUpsert}" using assms(1) by (auto simp: reading_def read_outside_cascade_finished_def)
  ultimately have r: "r = OpReadOutside" using assms(1) by auto
  obtain u v where "read_outside_next u = Inr (Some r', v)"
    using assms(2) r by (auto simp: replaced_def op_next_def)
  then show False by (auto simp: read_outside_next_def op_done_def)
qed

section \<open>Answers in the client phases\<close>

lemma client_reply:
  assumes "in_phase (Client r) s" "awaiting s q" "deliver q a s = Some s'"
  shows "in_phase (Client r) s' \<and> x_vec s' = x_vec s"
proof -
  have q: "q = r" using assms(1,2) by (auto simp: only_def awaiting_def on_stack_def)
  have "x_trace s' = x_trace s \<and> x_finished s' = x_finished s \<and> x_status s' = x_status s \<and>
      x_commit_ts s' = x_commit_ts s \<and> x_max_writers s' = x_max_writers s \<and> x_ls s' = x_ls s \<and> x_vec s' = x_vec s"
    using assms(1,3) q by (auto simp: deliver_def split: reply.splits)
  then show ?thesis
    using assms(1) client_state_frame [of "read_size s" s s' "[]"] by (auto simp: only_def on_stack_def read_size_def)
qed

lemma reading_reply:
  assumes "in_phase (Reading q) s" "awaiting s r" "deliver r a s = Some s'"
  shows "in_phase (Reading q) s' \<and> x_vec s' = x_vec s"
proof -
  have "r \<in> {OpReadOutside, q}" using assms(1,2) by (auto simp: reading_def only_def awaiting_def on_stack_def)
  moreover have "r \<notin> {OpInsert, OpUpsert}" using assms(3) by (auto simp: deliver_def)
  ultimately have r: "r = OpReadOutside" using assms(1) by auto
  have f: "same_ctl s s' \<and> x_ls s' = x_ls s"
    using assms(3) r by (auto simp: deliver_def same_ctl_def upd_read_op_def split: reply.splits)
  then have "client_state (ro_slot (o_read (x_ops s'))) s'"
    using assms(1) client_state_frame [of "ro_slot (o_read (x_ops s))" s s' "[]"] by (auto simp: reading_def same_ctl_def)
  with f show ?thesis
    using assms(1) by (auto simp: reading_def only_def on_stack_def read_size_def same_ctl_def move_to_next_def)
qed

section \<open>Client requests\<close>

lemma read_start:
  assumes "client_state (read_size s) s" "x_vec s = [Some q]" "q \<in> {OpInsert, OpUpsert}"
    and "read_outside_reset t k rec d s = Inr s1" "invoke OpReadOutside read_outside_call s1 = Inr s'"
  shows "in_phase (Reading q) s' \<and> stack_ok s'"
proof -
  note r = read_reset_client [OF assms(1,4)]
  obtain c where f: "x_trace s' = x_trace s1 @ [c] \<and> stage (snd c) = 0 \<and> x_finished s' = x_finished s1 \<and> x_status s' = x_status s1 \<and>
      x_commit_ts s' = x_commit_ts s1 \<and> x_max_writers s' = x_max_writers s1 \<and> x_ls s' = x_ls s1 \<and>
      x_vec s' = [Some q, Some OpReadOutside] \<and> o_read (x_ops s') = o_read (x_ops s1) \<and> \<not> move_to_next s' OpReadOutside"
    using assms(2,5) r by (auto simp: invoke_def read_outside_call_def base_defs Let_def move_to_next_def)
  have "client_state (ro_slot (o_read (x_ops s'))) s'"
    using r f by (intro client_state_frame [of _ s1 s' "[c]"]) auto
  with f r assms(3) show ?thesis
    by (auto simp: reading_def only_def on_stack_def stack_ok_def read_size_def)
qed

lemma start_client:
  assumes "client_state (read_size s1) s1" "x_vec s1 = []" "r \<in> {OpUpdate, OpDelete, OpInitTxn, OpReadDs}"
    and "exec_call r s1 = Inr s'"
  shows "in_phase (Client r) s' \<and> stack_ok s' \<and> x_vec s' = [Some r]"
proof -
  let ?s2 = "set_move_to_next r False (push_stack r s1)"
  have c2: "client_state (read_size ?s2) ?s2"
    using assms(1) client_base(1,2) by (simp add: set_move_to_next_def upd_base_def push_stack_def read_size_def)
  have v: "x_vec ?s2 = [Some r]" using assms(2) by (simp add: set_move_to_next_def upd_base_def push_stack_def)
  have call: "op_call_impl r ?s2 = Inr s'" using assms(4) by (simp add: exec_call_def op_call_def)
  have "client_state (read_size s') s' \<and> x_vec s' = [Some r]"
  proof -
    consider "r = OpUpdate" | "r = OpDelete" | "r = OpInitTxn" | "r = OpReadDs" using assms(3) by auto
    then show ?thesis
    proof cases
      case 1 then show ?thesis using call update_call_client [OF c2] v by (simp add: same_ctl_def)
    next
      case 2 then show ?thesis using call delete_call_client [OF c2] v by (simp add: same_ctl_def)
    next
      case 3
      then have "s' = log_call OpInitTxn (NewTxn (x_txn_entry ?s2) (x_commit_local ?s2) kMaxTxnExecutionTimeMS) ?s2"
        using call by (simp add: init_txn_call_def)
      then show ?thesis using c2 v
        by (simp add: client_state_def read_size_def write_size_def)
          (simp add: log_call_def)
    next
      case 4
      then have "s' = log_call OpReadDs (ReadRecord (rd_table (o_read_ds (x_ops ?s2))) (rd_key (o_read_ds (x_ops ?s2)))) ?s2"
        using call by (simp add: read_ds_call_def Let_def)
      then show ?thesis using c2 v
        by (simp add: client_state_def read_size_def write_size_def)
          (simp add: log_call_def)
    qed
  qed
  then show ?thesis using assms(3) by (auto simp: only_def on_stack_def stack_ok_def)
qed

end
