(* ===== verification/Commit_Protocol.thy ===== *)
theory Commit_Protocol
  imports Phase_Client
begin

text \<open>
  The execution refines the abstract protocol: every pass of \<^verbatim>\<open>MoveForward\<close>, every request and every answer moves it along the phases.
\<close>

section \<open>The abstract protocol\<close>

inductive phase_next :: "phase \<Rightarrow> phase \<Rightarrow> bool" where
  begin_client: "phase_next Idle (Client r)"
| begin_read: "phase_next Idle (Reading q)"
| begin_commit: "phase_next Idle Uploading"
| client_abort: "phase_next Idle Rejecting"
| client_end: "phase_next (Client r) Idle"
| read_end: "phase_next (Reading OpReadOutside) Idle"
| read_then: "phase_next (Reading q) (Client q)"
| uploads_ok: "phase_next Uploading Timestamping"
| uploads_fail: "phase_next Uploading Rejecting"
| ts_ok: "phase_next Timestamping Validating"
| ts_fail: "phase_next Timestamping Rejecting"
| valid: "phase_next Validating Logging"
| invalid: "phase_next Validating Rejecting"
| logged: "phase_next Logging Deciding"
| commit_acked: "phase_next Deciding Finalizing"
| writes_visible: "phase_next Finalizing Done"
| abort_acked: "phase_next Rejecting Undoing"
| writes_deleted: "phase_next Undoing Releasing"
| reads_released: "phase_next Releasing Undone"

code_pred phase_next .

inductive_cases phase_next_from_Done: "phase_next Done p"
inductive_cases phase_next_from_Undone: "phase_next Undone p"

abbreviation phase_steps :: "phase \<Rightarrow> phase \<Rightarrow> bool" where
  "phase_steps \<equiv> phase_next\<^sup>*\<^sup>*"

text \<open>A phase is below another when the protocol goes from it to the other: a preorder, as client phases alternate with idling.\<close>

instantiation phase :: preorder
begin

definition less_eq_phase :: "phase \<Rightarrow> phase \<Rightarrow> bool" where
  "p \<le> q \<longleftrightarrow> phase_steps p q"

definition less_phase :: "phase \<Rightarrow> phase \<Rightarrow> bool" where
  "p < q \<longleftrightarrow> p \<le> q \<and> \<not> q \<le> (p :: phase)"

instance by standard (auto simp: less_eq_phase_def less_phase_def)

end

lemma phase_next_le: "phase_next p q \<Longrightarrow> p \<le> q"
  by (auto simp: less_eq_phase_def)

text \<open>What no step of the protocol undoes holds of every later phase.\<close>

lemma phase_le_keeps:
  assumes "p \<le> q" "P p" "\<And>a b. phase_next a b \<Longrightarrow> P a \<Longrightarrow> P b"
  shows "P q"
  using assms(1,2) unfolding less_eq_phase_def by (induction rule: rtranclp_induct) (use assms(3) in blast)+

section \<open>Every visit is a step of the protocol\<close>

lemma in_phase_not_aborting: "in_phase p s \<Longrightarrow> \<not> is_aborting s"
  by (cases p)
    (auto simp: is_aborting_def client_state_def reading_def uploading_def timestamping_def running_def validating_def
      logging_def deciding_def finalizing_def committed_def rejecting_def undoing_def releasing_def aborted_def)

lemma popped_on: "popped i r s s' \<Longrightarrow> on_stack s r"
  unfolding on_stack_def using nth_mem by (fastforce simp: popped_def)

lemma replaced_on: "replaced i r q s s' \<Longrightarrow> on_stack s r"
  unfolding on_stack_def using nth_mem by (fastforce simp: replaced_def)

lemma popped_phase:
  assumes "stack_ok s" "in_phase p s" "popped i r s s'"
  shows "is_aborting s' \<and> abortable s' \<and> phase_next p Rejecting \<or>
    \<not> is_aborting s' \<and> stack_ok s' \<and> (\<exists>p'. in_phase p' s' \<and> (p' = p \<or> phase_next p p'))"
proof -
  note on = popped_on [OF assms(3)]
  note ok = popped_stack(1) [OF assms(3,1)]
  have stay: ?thesis if "in_phase p s'" using that in_phase_not_aborting ok by blast
  have move: ?thesis if "in_phase p' s'" "phase_next p p'" for p'
    using that in_phase_not_aborting ok by blast
  have none: "op_next r u \<noteq> Inr (None, v)" if "r \<in> {OpWriteLog, OpStatusCommit, OpStatusAbort, OpPostAbort}" for u v
    using that
    by (auto simp: op_next_def write_log_next_def status_commit_next_def recover_def status_abort_next_def post_abort_next_def
        split: if_splits)
  have never: "r \<notin> {OpWriteLog, OpStatusCommit, OpStatusAbort, OpPostAbort}"
    using assms(3) none by (fastforce simp: popped_def)
  show ?thesis
  proof (cases p)
    case Idle
    then show ?thesis using assms(2) on by (simp add: only_def)
  next
    case (Client q)
    have "in_phase Idle s'" using client_popped [OF _ assms(1,3)] assms(2) Client by blast
    then show ?thesis using move Client client_end by blast
  next
    case (Reading q)
    have "in_phase (if q = OpReadOutside then Idle else Client q) s'"
      using reading_popped [OF _ assms(1,3)] assms(2) Reading by blast
    then show ?thesis using move [of Idle] move [of "Client q"] Reading read_end read_then by (metis (full_types))
  next
    case Uploading
    then have u: "uploading (write_size s) s" using assms(2) by simp
    then consider "r = OpUpload" | j where "r = OpUploadEntry j" using on by (auto simp: uploading_def only_def)
    then show ?thesis
    proof cases
      case 1
      then show ?thesis using upload_popped [OF u refl assms(1)] assms(3) Uploading uploads_fail by blast
    next
      case 2
      then have "popped i (OpUploadEntry j) s s'" using assms(3) by simp
      from upload_entry_popped [OF u refl assms(1) this] have "in_phase Uploading s'" by auto
      then show ?thesis using stay Uploading by blast
    qed
  next
    case Timestamping
    then have t: "timestamping s" using assms(2) by simp
    then have "r = OpSetCommitTs" using on by (auto simp: timestamping_def only_def)
    then show ?thesis using timestamping_popped [OF t assms(1)] assms(3) Timestamping ts_fail by blast
  next
    case Validating
    then have v: "validating (length (o_read_index (x_ops s))) s" using assms(2) by simp
    show ?thesis
    proof (rule validating_index [OF v on])
      assume "r = OpValidate"
      then show ?thesis using validate_popped [OF v assms(1)] assms(3) Validating invalid by blast
    next
      fix j assume "r = OpUpdateMaxTs j"
      then have "popped i (OpUpdateMaxTs j) s s'" using assms(3) by simp
      from update_max_popped [OF v refl assms(1) this] have "in_phase Validating s'" by auto
      then show ?thesis using stay Validating by blast
    next
      fix j assume "r = OpPushLowerBound j"
      then have "popped i (OpPushLowerBound j) s s'" using assms(3) by simp
      from push_popped [OF v refl assms(1) this] have "in_phase Validating s'" by auto
      then show ?thesis using stay Validating by blast
    qed
  next
    case Logging
    then have False using assms(2) on never by (auto simp: logging_def only_def)
    then show ?thesis ..
  next
    case Deciding
    then have False using assms(2) on never by (auto simp: deciding_def only_def)
    then show ?thesis ..
  next
    case Finalizing
    then have f: "finalizing (write_size s) s" using assms(2) by simp
    show ?thesis
    proof (rule finalizing_index [OF f on])
      assume "r = OpPostCommit"
      then have "in_phase Done s'" using finalizing_popped [OF f refl assms(1)] assms(3) by simp
      then show ?thesis using move Finalizing writes_visible by blast
    next
      fix j assume "r = OpPostCommitEntry j"
      then have "popped i (OpPostCommitEntry j) s s'" using assms(3) by simp
      from commit_entry_popped [OF f refl assms(1) this] have "in_phase Finalizing s'" by auto
      then show ?thesis using stay Finalizing by blast
    qed
  next
    case Done
    then show ?thesis using assms(2) on by (simp add: committed_def only_def)
  next
    case Rejecting
    then have False using assms(2) on never by (auto simp: rejecting_def only_def)
    then show ?thesis ..
  next
    case Undoing
    then have u: "undoing (length (accepted_writes s)) s" using assms(2) by simp
    show ?thesis
    proof (rule undoing_index [OF u on])
      assume "r = OpPostAbort"
      then show ?thesis using never by simp
    next
      fix j assume "r = OpPostAbortEntry j"
      then have "popped i (OpPostAbortEntry j) s s'" using assms(3) by simp
      from undo_entry_popped [OF u refl assms(1) this] have "in_phase Undoing s'" by auto
      then show ?thesis using stay Undoing by blast
    qed
  next
    case Releasing
    then have u: "releasing (length (o_release_index (x_ops s))) s" using assms(2) by simp
    show ?thesis
    proof (rule releasing_index [OF u on])
      assume "r = OpReleaseCounter"
      then have "in_phase Undone s'" using releasing_popped [OF u refl assms(1)] assms(3) by simp
      then show ?thesis using move Releasing reads_released by blast
    next
      fix j assume "r = OpReleaseEntry j"
      then have "popped i (OpReleaseEntry j) s s'" using assms(3) by simp
      from release_entry_popped [OF u refl assms(1) this] have "in_phase Releasing s'" by auto
      then show ?thesis using stay Releasing by blast
    qed
  next
    case Undone
    then show ?thesis using assms(2) on by (simp add: aborted_def only_def)
  qed
qed

lemma update_max_then: "op_next_impl (OpUpdateMaxTs j) u = Inr (Some q, v) \<Longrightarrow> \<exists>k. q = OpPushLowerBound k"
  by (auto simp: update_max_next_def op_done_def op_prepare_abort_def Let_def split: if_splits)

text \<open>A replacement moves on in the protocol, retries the registration, or continues a validation.\<close>

definition stays_within :: "phase \<Rightarrow> op_ref \<Rightarrow> op_ref \<Rightarrow> bool" where
  "stays_within p r q \<longleftrightarrow> (\<exists>c. p = Client c) \<or> (\<exists>j k. r = OpUpdateMaxTs j \<and> q = OpPushLowerBound k)"

lemma replaced_phase:
  assumes "stack_ok s" "in_phase p s" "replaced i r q s s'"
  shows "stack_ok s' \<and> (\<exists>p'. in_phase p' s' \<and> (p' = p \<and> stays_within p r q \<or> phase_next p p'))"
proof -
  note on = replaced_on [OF assms(3)]
  have rn: "\<exists>u v. op_next_impl r u = Inr (Some q, v)"
    using assms(3) by (auto simp: replaced_def op_next_def)
  have never: "r \<notin> OpUploadEntry ` UNIV \<union> OpPushLowerBound ` UNIV \<union> OpPostCommitEntry ` UNIV \<union>
      OpPostAbortEntry ` UNIV \<union> OpReleaseEntry ` UNIV \<union> {OpPostCommit, OpReleaseCounter}"
    using rn
    by (auto simp: upload_entry_next_def push_next_def commit_entry_next_def abort_entry_next_def release_entry_next_def
        post_commit_next_def release_next_def op_done_def op_prepare_abort_def recover_def Let_def split: if_splits)
  show ?thesis
  proof (cases p)
    case Idle
    then show ?thesis using assms(2) on by (simp add: only_def)
  next
    case (Client c)
    then have "stays_within p r q" by (simp add: stays_within_def)
    then show ?thesis using client_replaced [OF _ assms(1,3)] assms(2) Client by blast
  next
    case (Reading c)
    then show ?thesis using reading_replaced [OF _ assms(3)] assms(2) by blast
  next
    case Uploading
    then have u: "uploading (write_size s) s" using assms(2) by simp
    then have "r = OpUpload" using on never by (auto simp: uploading_def only_def)
    then have "in_phase Timestamping s' \<and> stack_ok s'" using upload_replaced [OF u refl assms(1)] assms(3) by simp
    then show ?thesis using Uploading uploads_ok by blast
  next
    case Timestamping
    then have t: "timestamping s" using assms(2) by simp
    then have "r = OpSetCommitTs" using on by (auto simp: timestamping_def only_def)
    then have "in_phase Validating s' \<and> stack_ok s'" using timestamping_replaced [OF t assms(1)] assms(3) by simp
    then show ?thesis using Timestamping ts_ok by blast
  next
    case Validating
    then have v: "validating (length (o_read_index (x_ops s))) s" using assms(2) by simp
    show ?thesis
    proof (rule validating_index [OF v on])
      assume "r = OpValidate"
      then have "in_phase Logging s' \<and> stack_ok s'" using validate_replaced [OF v refl assms(1)] assms(3) by simp
      then show ?thesis using Validating valid by blast
    next
      fix j assume "r = OpUpdateMaxTs j"
      then have "replaced i (OpUpdateMaxTs j) q s s'" using assms(3) by simp
      from update_max_replaced [OF v refl assms(1) this] have "in_phase Validating s' \<and> stack_ok s'" by auto
      moreover have "stays_within p r q" using rn \<open>r = OpUpdateMaxTs j\<close> update_max_then by (auto simp: stays_within_def)
      ultimately show ?thesis using Validating by blast
    next
      fix j assume "r = OpPushLowerBound j"
      then show ?thesis using never by auto
    qed
  next
    case Logging
    then have l: "logging s" using assms(2) by simp
    then have "r = OpWriteLog" using on by (auto simp: logging_def only_def)
    then have "in_phase Deciding s' \<and> stack_ok s'" using logging_replaced [OF l assms(1)] assms(3) by simp
    then show ?thesis using Logging logged by blast
  next
    case Deciding
    then have d: "deciding s" using assms(2) by simp
    then have "r = OpStatusCommit" using on by (auto simp: deciding_def only_def)
    then have "in_phase Finalizing s' \<and> stack_ok s'" using deciding_replaced [OF d assms(1)] assms(3) by simp
    then show ?thesis using Deciding commit_acked by blast
  next
    case Finalizing
    then have f: "finalizing (write_size s) s" using assms(2) by simp
    show ?thesis by (rule finalizing_index [OF f on]) (use never in auto)
  next
    case Done
    then show ?thesis using assms(2) on by (simp add: committed_def only_def)
  next
    case Rejecting
    then have j: "rejecting s" using assms(2) by simp
    then have "r = OpStatusAbort" using on by (auto simp: rejecting_def only_def)
    then have "in_phase Undoing s' \<and> stack_ok s'" using rejecting_replaced [OF j assms(1)] assms(3) by simp
    then show ?thesis using Rejecting abort_acked by blast
  next
    case Undoing
    then have u: "undoing (length (accepted_writes s)) s" using assms(2) by simp
    have "r = OpPostAbort" by (rule undoing_index [OF u on]) (use never in auto)
    then have "in_phase Releasing s' \<and> stack_ok s'" using undoing_replaced [OF u refl assms(1)] assms(3) by simp
    then show ?thesis using Undoing writes_deleted by blast
  next
    case Releasing
    then have u: "releasing (length (o_release_index (x_ops s))) s" using assms(2) by simp
    show ?thesis by (rule releasing_index [OF u on]) (use never in auto)
  next
    case Undone
    then show ?thesis using assms(2) on by (simp add: aborted_def only_def)
  qed
qed

section \<open>The execution refines the protocol\<close>

text \<open>Between steps the stack has no trailing empty slot.\<close>

definition trimmed :: "exec \<Rightarrow> bool" where
  "trimmed s \<longleftrightarrow> trim_stack (x_vec s) = x_vec s"

lemma trim_stack_idem [simp]: "trim_stack (trim_stack v) = trim_stack v"
  by (simp add: trim_stack_def dropWhile_idem)

lemma trim_stack_snoc [simp]: "trim_stack (v @ [Some r]) = v @ [Some r]" "trim_stack [] = []" "trim_stack [Some r] = [Some r]"
  by (simp_all add: trim_stack_def)

lemma trimmed_only_none:
  assumes "trimmed s" "only {} s"
  shows "x_vec s = []"
proof -
  have "x = None" if "x \<in> set (x_vec s)" for x
    using assms(2) that by (cases x) (auto simp: only_def on_stack_def)
  then have "trim_stack (x_vec s) = []" by (simp add: trim_stack_def)
  with assms(1) show ?thesis by (simp add: trimmed_def)
qed

lemma in_phase_vec:
  assumes "in_phase p s" "\<And>r. Some r \<in> set v \<longleftrightarrow> Some r \<in> set (x_vec s)"
  shows "in_phase p (s\<lparr>x_vec := v\<rparr>)"
proof -
  let ?s = "s\<lparr>x_vec := v\<rparr>"
  have os: "on_stack ?s r \<longleftrightarrow> on_stack s r" for r using assms(2) by (simp add: on_stack_def)
  have o: "only R ?s \<longleftrightarrow> only R s" for R using os by (simp add: only_def)
  have m: "move_to_next ?s = move_to_next s" "has_next ?s = has_next s" by (simp_all add: move_to_next_def has_next_def fun_eq_iff)
  have c: "ordered k ?s = ordered k s" "decisions ?s = decisions s" "calls_at k ?s = calls_at k s" for k
    by (simp_all add: ordered_def stages_def decisions_def calls_at_def)
  have z: "write_size ?s = write_size s" "read_size ?s = read_size s" by (simp_all add: write_size_def read_size_def)
  have u: "uploaded ?s i = uploaded s i" "validated ?s i = validated s i" "reread_ok ?s i = reread_ok s i"
    "overwriter ?s i = overwriter s i" "upload_sent ?s i = upload_sent s i" "reread_sent ?s i = reread_sent s i"
    "push_sent ?s i = push_sent s i" for i
    by (simp_all add: uploaded_def validated_def reread_ok_def overwriter_def upload_sent_def reread_sent_def push_sent_def)
  have w: "all_uploaded ?s = all_uploaded s" "commit_ts_ok ?s = commit_ts_ok s" "unwritten_reads ?s = unwritten_reads s"
    "all_validated ?s = all_validated s" "accepted_writes ?s = accepted_writes s" "proposed ?s = proposed s"
    by (simp_all add: all_uploaded_def commit_ts_ok_def unwritten_reads_def all_validated_def accepted_writes_def u z
        proposed_def)
  have d: "commit_call_of ?s = commit_call_of s" "delete_call_of ?s = delete_call_of s" "release_call_of ?s = release_call_of s"
    by (simp_all add: commit_call_of_def delete_call_of_def release_call_of_def fun_eq_iff)
  have ch: "upload_child ?s i = upload_child s i" "validate_child ?s i = validate_child s i" "commit_child ?s i = commit_child s i"
    "undo_child ?s i = undo_child s i" "release_child ?s i = release_child s i" for i
    by (simp_all add: upload_child_def validate_child_def commit_child_def undo_child_def release_child_def os m u w)
  have r: "running k ?s = running k s" "client_state k ?s = client_state k s" "abort_state k ?s = abort_state k s" for k
    by (simp_all add: running_def client_state_def abort_state_def c z u)
  have q: "decided ?s = decided s" "rejected k ?s = rejected k s" "undone ?s = undone s" for k
    by (simp_all add: decided_def rejected_def undone_def c z w d ch r)
  show ?thesis using assms(1)
    by (cases p)
      (auto simp: os o r z w q c d ch m reading_def uploading_def timestamping_def validating_def logging_def deciding_def
        finalizing_def committed_def rejecting_def undoing_def releasing_def aborted_def)
qed

definition protocol_ok :: "exec \<Rightarrow> bool" where
  "protocol_ok s \<longleftrightarrow> stack_ok s \<and> trimmed s \<and> (\<exists>p. in_phase p s)"

lemma mf_loop_phase:
  assumes "mf_loop n s = Inr s'" "stack_ok s" "in_phase p s"
  shows "is_aborting s' \<and> abortable s' \<and> phase_steps p Rejecting \<or>
    stack_ok s' \<and> \<not> is_aborting s' \<and> (\<exists>p'. in_phase p' s' \<and> phase_steps p p')"
proof -
  let ?P = "\<lambda>s. stack_ok s \<and> (\<exists>p'. in_phase p' s \<and> phase_steps p p')"
  have "is_aborting s' \<and> (abortable s' \<and> phase_steps p Rejecting) \<or> ?P s'"
  proof (rule mf_loop_induct [OF assms(1)])
    show "?P s" using assms(2,3) by blast
  next
    fix i r u u' assume u: "?P u" and pop: "popped i r u u'"
    then obtain q where q: "stack_ok u" "in_phase q u" "phase_steps p q" by blast
    from popped_phase [OF q(1,2) pop] q(3)
    show "is_aborting u' \<and> (abortable u' \<and> phase_steps p Rejecting) \<or> \<not> is_aborting u' \<and> ?P u'"
      by (metis rtranclp.rtrancl_into_rtrancl)
  next
    fix i r a u u' assume u: "?P u" and rep: "replaced i r a u u'"
    then obtain q where q: "stack_ok u" "in_phase q u" "phase_steps p q" by blast
    from replaced_phase [OF q(1,2) rep] q(3) show "?P u'" by (metis rtranclp.rtrancl_into_rtrancl)
  qed
  then show ?thesis using in_phase_not_aborting by blast
qed

lemma exec_abort_trimmed: "exec_abort s = Inr s' \<Longrightarrow> trimmed s'"
  by (auto simp: trimmed_def exec_abort_def exec_call_def op_call_def status_abort_call_def status_abort_reset_def base_defs
      clean_stack_def dest!: exec_result_reset_frame)

lemma aborting_end:
  assumes "is_aborting s1" "abortable s1" "(if is_aborting s1 then exec_abort (set_txn_status Aborted s1) else q) = Inr s'"
  shows "rejecting s' \<and> stack_ok s' \<and> trimmed s'"
proof -
  have e: "exec_abort (set_txn_status Aborted s1) = Inr s'" using assms(1,3) by simp
  have "abort_state 4 (set_txn_status Aborted s1)"
    by (rule abort_state_same [of 4 s1]) (use assms(2) in \<open>simp_all add: abortable_def set_txn_status_def\<close>)
  then have "rejecting s' \<and> stack_ok s'"
    using assms(2) by (intro exec_abort_rejecting [OF _ _ _ e]) (simp_all add: set_txn_status_def abortable_def)
  then show ?thesis using exec_abort_trimmed [OF e] by simp
qed

lemma advance_phase:
  assumes "move_forward s = Inr (idle, s')" "stack_ok s" "in_phase p s" "trimmed s"
  shows "stack_ok s' \<and> trimmed s' \<and> (\<exists>p'. in_phase p' s' \<and> phase_steps p p')"
proof (cases "x_vec s = []")
  case True
  then show ?thesis using assms by (auto simp: move_forward_def)
next
  case False
  then obtain s1 where loop: "mf_loop (length (x_vec s)) s = Inr s1" and
    e: "(if is_aborting s1 then exec_abort (set_txn_status Aborted s1)
         else Inr (s1\<lparr>x_vec := trim_stack (x_vec s1)\<rparr>)) = Inr s'"
    using assms(1) by (auto simp: move_forward_def)
  from mf_loop_phase [OF loop assms(2,3)] show ?thesis
  proof (elim disjE conjE)
    assume a: "is_aborting s1" "abortable s1" "phase_steps p Rejecting"
    with aborting_end [OF a(1,2) e] show ?thesis by (metis in_phase.simps(11))
  next
    assume a: "stack_ok s1" "\<not> is_aborting s1" "\<exists>p'. in_phase p' s1 \<and> phase_steps p p'"
    then obtain p' where p': "in_phase p' s1" "phase_steps p p'" by blast
    have s': "s' = s1\<lparr>x_vec := trim_stack (x_vec s1)\<rparr>" using a(2) e by simp
    have "in_phase p' s'" unfolding s'
      by (rule in_phase_vec [OF p'(1)]) (metis set_stack_ops stack_ops_trim)
    moreover have "stack_ok s'" using a(1) by (simp add: s' stack_ok_def)
    ultimately show ?thesis using p' by (auto simp: s' trimmed_def)
  qed
qed

section \<open>Requests, answers and the other executions\<close>

lemma in_phase_world: "in_phase p (same_world w s) \<longleftrightarrow> in_phase p s"
proof -
  let ?s = "same_world w s"
  have x: "x_vec ?s = x_vec s" "x_trace ?s = x_trace s" "x_ls ?s = x_ls s" "x_ops ?s = x_ops s" "x_finished ?s = x_finished s"
    "x_status ?s = x_status s" "x_commit_ts ?s = x_commit_ts s" "x_max_writers ?s = x_max_writers s" "x_txn_id ?s = x_txn_id s"
    by (simp_all add: same_world_def)
  have os: "on_stack ?s = on_stack s" by (simp add: on_stack_def fun_eq_iff x)
  have o: "only R ?s = only R s" for R by (simp add: only_def os)
  have m: "move_to_next ?s = move_to_next s" "has_next ?s = has_next s" by (simp_all add: move_to_next_def has_next_def fun_eq_iff x)
  have c: "ordered k ?s = ordered k s" "decisions ?s = decisions s" "calls_at k ?s = calls_at k s" for k
    by (simp_all add: ordered_def stages_def decisions_def calls_at_def x)
  have z: "write_size ?s = write_size s" "read_size ?s = read_size s" by (simp_all add: write_size_def read_size_def x)
  have u: "uploaded ?s i = uploaded s i" "validated ?s i = validated s i" "reread_ok ?s i = reread_ok s i"
    "overwriter ?s i = overwriter s i" "upload_sent ?s i = upload_sent s i" "reread_sent ?s i = reread_sent s i"
    "push_sent ?s i = push_sent s i" for i
    by (simp_all add: uploaded_def validated_def reread_ok_def overwriter_def upload_sent_def reread_sent_def push_sent_def x)
  have w: "all_uploaded ?s = all_uploaded s" "commit_ts_ok ?s = commit_ts_ok s" "unwritten_reads ?s = unwritten_reads s"
    "all_validated ?s = all_validated s" "accepted_writes ?s = accepted_writes s" "proposed ?s = proposed s"
    by (simp_all add: all_uploaded_def commit_ts_ok_def unwritten_reads_def all_validated_def accepted_writes_def u z x
        proposed_def)
  have d: "commit_call_of ?s = commit_call_of s" "delete_call_of ?s = delete_call_of s" "release_call_of ?s = release_call_of s"
    by (simp_all add: commit_call_of_def delete_call_of_def release_call_of_def fun_eq_iff x)
  have ch: "upload_child ?s i = upload_child s i" "validate_child ?s i = validate_child s i" "commit_child ?s i = commit_child s i"
    "undo_child ?s i = undo_child s i" "release_child ?s i = release_child s i" for i
    by (simp_all add: upload_child_def validate_child_def commit_child_def undo_child_def release_child_def os m u w x)
  have r: "running k ?s = running k s" "client_state k ?s = client_state k s" "abort_state k ?s = abort_state k s" for k
    by (simp_all add: running_def client_state_def abort_state_def c z u x)
  have q: "decided ?s = decided s" "rejected k ?s = rejected k s" "undone ?s = undone s" for k
    by (simp_all add: decided_def rejected_def undone_def c z w d ch r x)
  show ?thesis
    by (cases p)
      (simp_all add: os o r z w q c d ch m x reading_def uploading_def timestamping_def validating_def logging_def deciding_def
        finalizing_def committed_def rejecting_def undoing_def releasing_def aborted_def)
qed

lemma stack_world: "stack_ok (same_world w s) \<longleftrightarrow> stack_ok s" "trimmed (same_world w s) \<longleftrightarrow> trimmed s"
  by (simp_all add: stack_ok_def trimmed_def same_world_def)

lemma no_ops_idle:
  assumes "in_phase p s" "x_vec s = []"
  shows "p \<in> {Idle, Done, Undone}"
  using assms
  by (cases p)
    (auto simp: on_stack_def reading_def uploading_def timestamping_def validating_def
      logging_def deciding_def finalizing_def rejecting_def undoing_def releasing_def)

lemma idle_client: "in_phase Idle s \<Longrightarrow> client_state (read_size s) s"
  by simp

lemma invoke_trimmed: "x_vec s' = v @ [Some r] \<Longrightarrow> trimmed s'"
  by (simp add: trimmed_def)

text \<open>Every operation a call pushes is on top, so the stack stays trimmed.\<close>

lemma on_top:
  assumes "\<And>i u v. i < n \<Longrightarrow> f i u = Inr v \<Longrightarrow> \<exists>w r. x_vec v = w @ [Some r]"
    and "rfold f [0..<n] s = Inr s'" "\<exists>w r. x_vec s = w @ [Some r]"
  shows "\<exists>w r. x_vec s' = w @ [Some r]"
  by (rule rfold_upto [OF assms(2), where P = "\<lambda>_ u. \<exists>w r. x_vec u = w @ [Some r]"]) (use assms(1,3) in auto)

lemma commit_trimmed:
  assumes "exec_commit s = Inr s'"
  shows "trimmed s'"
proof -
  obtain s1 where c: "upload_call (set_move_to_next OpUpload False (push_stack OpUpload s1)) = Inr s'"
    using assms by (auto simp: exec_commit_def exec_call_def op_call_def)
  let ?s2 = "set_move_to_next OpUpload False (push_stack OpUpload s1)"
  let ?n = "o_upload_size (x_ops ?s2)"
  have top: "\<exists>w r. x_vec v = w @ [Some r]"
    if "rbind (upload_entry_reset i i u) (invoke (OpUploadEntry i) (upload_entry_call i)) = Inr v" for i u v
    using that by (auto simp: invoke_def upload_entry_call_def base_defs)
  have "\<exists>w r. x_vec s' = w @ [Some r]"
    by (rule on_top [OF _ c [unfolded upload_call_def Let_def]]) (use top in \<open>auto simp: base_defs\<close>)
  then show ?thesis by (auto simp: trimmed_def)
qed

lemma idle_abort:
  assumes "in_phase Idle s" "exec_abort s = Inr s'"
  shows "rejecting s' \<and> stack_ok s' \<and> trimmed s'"
proof -
  have c0: "client_state (read_size s) s" using assms(1) by simp
  have "\<not> uploaded s i" for i
    using c0 by (fastforce simp: uploaded_def upload_sent_def client_state_def ordered_def stages_def)
  then have "abort_state 4 s" using c0 ordered_mono [of 0 s 4] by (simp add: abort_state_def client_state_def)
  then have "rejecting s' \<and> stack_ok s'"
    using c0 by (intro exec_abort_rejecting [OF _ _ _ assms(2)]) (simp_all add: client_state_def)
  then show ?thesis using exec_abort_trimmed [OF assms(2)] by simp
qed

lemma idle_request:
  assumes "in_phase Idle s" "x_vec s = []" "run_request ds q s = Inr s'"
  shows "stack_ok s' \<and> trimmed s' \<and> (\<exists>p'. in_phase p' s' \<and> phase_steps Idle p')"
proof -
  have c0: "client_state (read_size s) s" using assms(1) by simp
  have reset: "client_state (read_size s1) s1 \<and> x_vec s1 = [] \<and> in_phase Idle s1" if "exec_result_reset p s = Inr s1" for p s1
    using exec_result_reset_frame [OF that] c0 assms(2) client_result [OF c0] by (auto simp: only_def on_stack_def)
  have cl: "stack_ok s' \<and> trimmed s' \<and> (\<exists>p'. in_phase p' s' \<and> phase_steps Idle p')"
    if "exec_call r s1 = Inr s'" "client_state (read_size s1) s1" "x_vec s1 = []" "r \<in> {OpUpdate, OpDelete, OpInitTxn, OpReadDs}"
    for r s1
  proof -
    have "in_phase (Client r) s' \<and> stack_ok s' \<and> x_vec s' = [Some r]" by (rule start_client [OF that(2,3,4,1)])
    then show ?thesis using begin_client [of r] by (metis r_into_rtranclp trim_stack_snoc(3) trimmed_def)
  qed
  have rd: "stack_ok s' \<and> trimmed s' \<and> (\<exists>p'. in_phase p' s' \<and> phase_steps Idle p')"
    if "read_outside_reset t k rec d s1 = Inr s2" "invoke OpReadOutside read_outside_call s2 = Inr s'"
      "client_state (read_size s1) s1" "x_vec s1 = [Some r]" "r \<in> {OpInsert, OpUpsert}" for t k rec d r s1 s2
  proof -
    have "in_phase (Reading r) s' \<and> stack_ok s'" by (rule read_start [OF that(3,4,5,1,2)])
    moreover have "trimmed s'"
      using that(2) by (auto simp: invoke_def read_outside_call_def base_defs Let_def trimmed_def)
    ultimately show ?thesis using begin_read by blast
  qed
  have push: "client_state (read_size (push_stack r u)) (push_stack r u) \<and> x_vec (push_stack r u) = x_vec u @ [Some r]"
    if "client_state (read_size u) u" for r u
    using that client_base(2) by (simp add: push_stack_def read_size_def)
  have ro: "stack_ok s' \<and> trimmed s' \<and> (\<exists>p'. in_phase p' s' \<and> phase_steps Idle p')"
    if "exec_read t k rec d s = Inr s'" for t k rec d
  proof -
    from that obtain s1 s2 where s1: "exec_result_reset rec s = Inr s1" and s2: "read_outside_reset t k rec d s1 = Inr s2"
      and c: "exec_call OpReadOutside s2 = Inr s'" by (auto simp: exec_read_def)
    note r = read_reset_client [OF conjunct1 [OF reset [OF s1]] s2]
    obtain c where f: "x_trace s' = x_trace s2 @ [c] \<and> stage (snd c) = 0 \<and> x_finished s' = x_finished s2 \<and> x_status s' = x_status s2 \<and>
        x_commit_ts s' = x_commit_ts s2 \<and> x_max_writers s' = x_max_writers s2 \<and> x_ls s' = x_ls s2 \<and>
        x_vec s' = [Some OpReadOutside] \<and> o_read (x_ops s') = o_read (x_ops s2) \<and> \<not> move_to_next s' OpReadOutside"
      using c r reset [OF s1] by (auto simp: exec_call_def op_call_def read_outside_call_def base_defs Let_def move_to_next_def)
    have "client_state (ro_slot (o_read (x_ops s'))) s'"
      using r f by (intro client_state_frame [of _ s2 s' "[c]"]) auto
    then have "in_phase (Reading OpReadOutside) s'"
      using f r by (auto simp: reading_def only_def on_stack_def read_size_def)
    moreover have "stack_ok s'" "trimmed s'" using f by (auto simp: stack_ok_def trimmed_def)
    ultimately show ?thesis using begin_read by blast
  qed
  show ?thesis
  proof (cases "rq_op q")
    case Begin
    with assms(3) obtain s1 where s1: "exec_result_reset None s = Inr s1" and
      e: "exec_call OpInitTxn (init_txn_reset (s1\<lparr>x_type := rq_type q\<rparr>)) = Inr s'"
      by (auto simp: run_request_def exec_begin_def)
    show ?thesis
      by (rule cl [OF e]) (use reset [OF s1] in \<open>auto simp: init_txn_reset_def client_state_def ordered_def stages_def read_size_def write_size_def\<close>)
  next
    case Insert
    with assms(3) obtain s1 s2 where s1: "exec_result_reset (rq_record q) s = Inr s1"
      and s2: "read_outside_reset (rq_table q) (rq_key q) (rq_record q) True
        (set_move_to_next OpInsert False (push_stack OpInsert (insert_reset (rq_table q) (rq_key q) (rq_record q) s1))) = Inr s2"
      and i: "invoke OpReadOutside read_outside_call s2 = Inr s'"
      by (auto simp: run_request_def exec_insert_def exec_call_def op_call_def insert_call_def Let_def base_defs insert_reset_def kv_reset_def)
    show ?thesis
      by (rule rd [OF s2 i]) (use reset [OF s1] push client_base(1) in \<open>auto simp: set_move_to_next_def upd_base_def insert_reset_def push_stack_def read_size_def client_base\<close>)
  next
    case Upsert
    with assms(3) obtain s1 s2 where s1: "exec_result_reset (rq_record q) s = Inr s1"
      and s2: "read_outside_reset (rq_table q) (rq_key q) (rq_record q) True
        (set_move_to_next OpUpsert False (push_stack OpUpsert (upsert_reset (rq_table q) (rq_key q) (rq_record q) s1))) = Inr s2"
      and i: "invoke OpReadOutside read_outside_call s2 = Inr s'"
      by (auto simp: run_request_def exec_upsert_def exec_call_def op_call_def upsert_call_def Let_def base_defs upsert_reset_def kv_reset_def)
    show ?thesis
      by (rule rd [OF s2 i]) (use reset [OF s1] push client_base(1) in \<open>auto simp: set_move_to_next_def upd_base_def upsert_reset_def push_stack_def read_size_def client_base\<close>)
  next
    case Update
    with assms(3) obtain s1 where s1: "exec_result_reset None s = Inr s1" and
      e: "exec_call OpUpdate (update_reset (rq_table q) (rq_key q) (rq_record q) s1) = Inr s'"
      by (auto simp: run_request_def exec_update_def)
    show ?thesis
      by (rule cl [OF e]) (use reset [OF s1] client_base(1) in \<open>auto simp: update_reset_def read_size_def\<close>)
  next
    case Delete
    with assms(3) obtain s1 where s1: "exec_result_reset None s = Inr s1" and
      e: "exec_call OpDelete (delete_reset (rq_table q) (rq_key q) s1) = Inr s'"
      by (auto simp: run_request_def exec_delete_def)
    show ?thesis
      by (rule cl [OF e]) (use reset [OF s1] client_base(1) in \<open>auto simp: delete_reset_def read_size_def\<close>)
  next
    case Read
    then show ?thesis using assms(3) ro by (simp add: run_request_def)
  next
    case ReadOutside
    then show ?thesis using assms(3) ro by (simp add: run_request_def)
  next
    case ReadDataStore
    have idle: ?thesis if "in_phase Idle s'" "x_vec s' = []"
      using that by (auto simp: stack_ok_def trimmed_def intro: exI [of _ Idle])
    consider "ds = None" | "ds = Some False" | "ds = Some True" by (cases ds) auto
    then show ?thesis
    proof cases
      case 1
      then show ?thesis using ReadDataStore assms idle by (simp add: run_request_def)
    next
      case 2
      then have "exec_result_reset (rq_record q) s = Inr s'" using ReadDataStore assms(3) by (simp add: run_request_def)
      then show ?thesis using reset idle by blast
    next
      case 3
      then obtain s1 where s1: "exec_result_reset (rq_record q) s = Inr s1" and
        e: "(if rq_need_to_read_outside q then exec_call OpReadDs (read_ds_reset (rq_table q) (rq_key q) (rq_record q) s1)
             else result_set_finished (x_result s1) s1) = Inr s'"
        using ReadDataStore assms(3) by (auto simp: run_request_def exec_read_data_store_def)
      show ?thesis
      proof (cases "rq_need_to_read_outside q")
        case True
        then have e: "exec_call OpReadDs (read_ds_reset (rq_table q) (rq_key q) (rq_record q) s1) = Inr s'" using e by simp
        show ?thesis
          by (rule cl [OF e]) (use reset [OF s1] client_base(1) in \<open>auto simp: read_ds_reset_def read_size_def\<close>)
      next
        case False
        then obtain h rq where s': "s' = s1\<lparr>w_heap := h, w_reqs := rq\<rparr>"
          using e result_set_finished_frame [of "x_result s1" s1 s'] by auto
        then have "s' = s1\<lparr>w_heap := h, w_reqs := rq, x_result := x_result s1\<rparr>" by simp
        then have "client_state (read_size s') s'" using client_result(1,3) reset [OF s1] by metis
        then have "in_phase Idle s'" "x_vec s' = []" using reset [OF s1] s' by (auto simp: only_def on_stack_def)
        then show ?thesis by (rule idle)
      qed
    qed
  next
    case Commit
    then have e: "exec_commit s = Inr s'" using assms(3) by (simp add: run_request_def)
    then show ?thesis using commit_uploading [OF assms(1,2) e] commit_trimmed [OF e] begin_commit by blast
  next
    case Abort
    then have e: "exec_abort s = Inr s'" using assms(3) by (simp add: run_request_def)
    from idle_abort [OF assms(1) e] show ?thesis using client_abort by (metis in_phase.simps(11) r_into_rtranclp)
  qed
qed

lemma request_phase:
  assumes "in_phase p s" "x_vec s = []" "\<not> x_finished s" "handle_request process ds r s = Inr s'"
  shows "stack_ok s' \<and> trimmed s' \<and> (\<exists>p'. in_phase p' s' \<and> phase_steps p p')"
proof -
  have p: "p = Idle"
    using no_ops_idle [OF assms(1,2)] assms(1,3) by (auto simp: committed_def aborted_def)
  obtain s1 q where s1: "upd_request r (rq_set_up process) s = Inr s1" and
    run: "run_request ds q (s1\<lparr>x_current := Some r\<rparr>) = Inr s'"
    using assms(4) by (auto simp: handle_request_def)
  obtain rq where "s1 = s\<lparr>w_reqs := rq\<rparr>" using s1 by (auto simp: upd_request_Inr)
  then have "client_state (read_size s) (s1\<lparr>x_current := Some r\<rparr>)" "read_size (s1\<lparr>x_current := Some r\<rparr>) = read_size s"
    "x_vec (s1\<lparr>x_current := Some r\<rparr>) = []"
    using assms(1,2) p by (auto simp: client_state_def ordered_def stages_def read_size_def write_size_def)
  then show ?thesis
    using idle_request [OF _ _ run] p by (auto simp: only_def on_stack_def)
qed

lemma reply_phase:
  assumes "stack_ok s" "in_phase p s" "awaiting s r" "deliver r a s = Some s'"
  shows "in_phase p s' \<and> x_vec s' = x_vec s"
proof (cases p)
  case Idle
  then show ?thesis using assms(2,3) by (simp add: only_def on_stack_def awaiting_def)
next
  case (Client q)
  then show ?thesis using client_reply [OF _ assms(3,4)] assms(2) by blast
next
  case (Reading q)
  then show ?thesis using reading_reply [OF _ assms(3,4)] assms(2) by blast
next
  case Uploading
  then have u: "uploading (write_size s) s" using assms(2) by simp
  show ?thesis using upload_reply [OF u refl assms(3,4)] Uploading by auto
next
  case Timestamping
  then show ?thesis using timestamping_reply [OF _ assms(3,4)] assms(2) by simp
next
  case Validating
  then have v: "validating (length (o_read_index (x_ops s))) s" using assms(2) by simp
  show ?thesis using validating_reply [OF v refl assms(1,3,4)] Validating by auto
next
  case Logging
  then show ?thesis using logging_reply [OF _ assms(3,4)] assms(2) by simp
next
  case Deciding
  then show ?thesis using deciding_reply [OF _ assms(3,4)] assms(2) by simp
next
  case Finalizing
  then have f: "finalizing (write_size s) s" using assms(2) by simp
  show ?thesis using finalizing_reply [OF f refl assms(1,3,4)] Finalizing by auto
next
  case Done
  then show ?thesis using assms(2,3) by (simp add: committed_def only_def on_stack_def awaiting_def)
next
  case Rejecting
  then show ?thesis using rejecting_reply [OF _ assms(3,4)] assms(2) by simp
next
  case Undoing
  then have u: "undoing (length (accepted_writes s)) s" using assms(2) by simp
  show ?thesis using undoing_reply [OF u refl assms(3,4)] Undoing by auto
next
  case Releasing
  then have u: "releasing (length (o_release_index (x_ops s))) s" using assms(2) by simp
  show ?thesis using releasing_reply [OF u refl assms(3,4)] Releasing by auto
next
  case Undone
  then show ?thesis using assms(2,3) by (simp add: aborted_def only_def on_stack_def awaiting_def)
qed

text \<open>The simulation: whatever the execution does, the protocol allows.\<close>

lemma step_phase:
  assumes "exec_step s s'" "stack_ok s" "trimmed s" "in_phase p s"
  shows "stack_ok s' \<and> trimmed s' \<and> (\<exists>p'. in_phase p' s' \<and> phase_steps p p')"
  using assms(1)
proof cases
  case (advance idle)
  then show ?thesis using advance_phase assms(2-4) by blast
next
  case (request process ds r)
  then show ?thesis using request_phase assms(4) by blast
next
  case (reply r a)
  from reply_phase [OF assms(2,4) reply] assms(2,3) show ?thesis
    by (auto simp: stack_ok_def trimmed_def)
next
  case (interfere w)
  then show ?thesis using assms(2-4) in_phase_world stack_world by auto
qed

lemma fresh_idle:
  assumes "fresh_exec s"
  shows "stack_ok s \<and> trimmed s \<and> in_phase Idle s"
  using assms
  by (auto simp: fresh_exec_def stack_ok_def trimmed_def client_state_def ordered_def stages_def only_def on_stack_def
      sets_ok_def write_size_ls read_size_ls)

lemma reach_phase:
  assumes "exec_reach s0 s"
  shows "stack_ok s \<and> trimmed s \<and> (\<exists>p. in_phase p s \<and> phase_steps Idle p)"
  using assms
proof induction
  case start
  then show ?case using fresh_idle by blast
next
  case (step s s')
  then show ?case using step_phase by (meson rtranclp_trans)
qed

lemma reach_protocol_ok: "exec_reach s0 s \<Longrightarrow> protocol_ok s"
  using reach_phase by (auto simp: protocol_ok_def)

end
