(* ===== verification/Sample_Runs.thy ===== *)
theory Sample_Runs
  imports Commit_Protocol
begin

text \<open>
  Two complete runs of one transaction against a handler that answers: it writes key 4, reads key 5 whose
  newest version another transaction is overwriting, and commits; in the first run the store accepts
  everything, in the second it refuses the commit timestamp and the transaction is undone.  The runs
  are evaluated by rewriting with the definitions of the model.
\<close>

section \<open>Evaluating a run\<close>

lemmas run_simps =
  new_result_def res_is_committed_def res_is_abort_def new_op_request_def new_control_request_def
  rq_set_result_def rq_add_dependent_def rq_set_up_def rq_pull_result_def rq_notify_def
  rq_wait_returns_def new_txn_request_def push_request_def current_request_def reset_txn_request_def
  upd_request_def result_set_finished_def result_reset_def result_set_record_def result_set_null_def
  result_set_deleted_def result_set_error_def result_set_status_def blank_result_def
  new_upload_entry_op_def new_update_max_op_def new_push_op_def new_entry_op_def grow_def
  kMaxTxnExecutionTimeMS_def log_call_def upd_base_def set_move_to_next_def set_has_next_def
  move_to_next_def has_next_def exec_get_time_def reset_txn_id_and_time_def reset_time_def
  exec_reset_def enable_log_def set_max_commit_ts_of_writers_def set_commit_ts_def recover_def
  set_finished_def set_txn_status_def exec_prepare_abort_def wait_for_abort_def is_aborting_def
  is_wait_for_aborting_def clean_stack_def read_size_def write_size_def exec_insert_read_set_def
  exec_insert_write_set_def exec_find_in_read_set_def exec_find_in_write_set_def
  release_read_set_def release_write_set_def upd_read_entry_def upd_write_entry_def slot_key_def
  current_result_def on_result_def on_result_finished_def exec_result_reset_def op_prepare_abort_def
  op_abort_def op_done_def push_stack_def upd_read_op_def read_outside_reset_def
  read_outside_call_def read_outside_finished_def read_outside_cascade_finished_def
  internal_pick_visible_def pick_visible_version_def take_extension_def internal_read_def
  read_outside_next_def upd_upload_entry_def upload_entry_reset_def upload_entry_call_def
  upload_entry_finished_def upload_entry_next_def set_commit_reset_def propose_step_def
  proposed_commit_ts_def set_commit_call_def validate_reset_def set_commit_next_def
  upd_update_max_def upd_push_def update_max_reset_def update_max_call_def push_reset_def
  push_call_def push_finished_def push_cascade_finished_def update_max_finished_def
  update_max_cascade_finished_def update_max_next_def push_conflicts_def push_next_def
  write_log_reset_def write_log_call_at_def write_log_call_def status_commit_reset_def
  write_log_next_def validate_next_def status_commit_call_def post_process_slots_def
  post_commit_reset_def status_commit_next_def post_commit_next_def upd_commit_entry_def
  commit_entry_reset_def commit_entry_call_def commit_entry_finished_def commit_entry_next_def
  post_abort_reset_def upd_abort_entry_def abort_entry_reset_def abort_entry_call_def
  abort_entry_finished_def abort_entry_next_def release_reset_def post_abort_next_def
  release_next_def upd_release_entry_def release_entry_reset_def release_entry_call_def
  release_entry_finished_def release_entry_next_def status_abort_reset_def status_abort_call_def
  status_abort_next_def invoke_def upload_reset_def upload_call_def
  upload_entry_cascade_finished_def upload_finished_def upload_next_def validate_call_def
  validate_finished_def post_commit_call_def commit_entry_cascade_finished_def
  post_commit_finished_def post_abort_call_def abort_entry_cascade_finished_def
  post_abort_finished_def release_call_def release_entry_cascade_finished_def release_finished_def
  kv_reset_def insert_reset_def insert_call_def write_over_def insert_next_def upsert_reset_def
  upsert_call_def upsert_next_def update_reset_def update_call_def delete_reset_def delete_call_def
  init_txn_reset_def init_txn_call_def init_txn_next_def read_ds_reset_def read_ds_call_def
  read_ds_next_def op_call_def op_next_def exec_call_def exec_abort_def trim_stack_def
  move_forward_def exec_begin_def exec_insert_def exec_upsert_def exec_update_def exec_delete_def
  exec_read_def exec_read_data_store_def exec_commit_def run_request_def handle_request_def
  answer_def deliver_def awaiting_def same_world_def run_events_def new_set_key_def
  set_key_reset_def set_key_eq_def set_key_hash_def set_key_serialize_length_def
  set_key_serialize_def new_pool_def pool_resize_def pool_reserve_def pool_release_def
  pool_reset_def slot_matches_def new_read_slot_def new_write_slot_def find_in_read_set_def
  find_in_write_set_def copy_read_pool_def copy_write_pool_def new_local_state_def
  ls_insert_read_set_def ls_insert_write_set_def ls_find_in_write_set_def ls_find_in_read_set_def
  ls_read_size_def ls_write_size_def ls_reset_def ls_release_read_set_def ls_release_write_set_def
  kDefaultBeginTs_def kDefaultEndTs_def kDefaultMaxTs_def kUnSetCommitTs_def kMaxTimeStamp_def
  kDefaultVersion_def kFirstVersion_def kEmptyTxId_def kMaxVersionKeyStartIndex_def
  new_version_entry_def version_less_def version_reset_def version_reset_to_def version_copy_def
  version_assign_def new_read_set_entry_def read_entry_reset_def read_entry_copy_def
  new_write_set_entry_def write_entry_reset_def write_entry_copy_def
  write_entry_serialize_length_def write_entry_serialize_def kDefaultCommitTs_def new_txn_entry_def
  txn_entry_reset_def txn_entry_reset_bound_def txn_entry_serialize_length_def
  txn_entry_serialize_def hr_set_finished_def hr_set_error_def hr_reset_def new_id_gen_factory_def
  new_id_gen_def get_txn_id_generator_def generate_id_def new_local_time_provider_def get_time_def
  set_time_def key_like_def ENABLE_LOG_def vec_at_def grow_def i64_defs i64_add_def i64_mul_def
  i64_check_def rassert_def

section \<open>The initial state\<close>

definition idle_ops :: ops where
  "idle_ops =
     \<lparr>o_base = (\<lambda>_. \<lparr>ob_move_to_next = False, ob_has_next = False\<rparr>),
      o_read = \<lparr>ro_table = '''', ro_key = None, ro_record = None, ro_is_deleted = False, ro_slot = 0,
        ro_result = blank_result []\<rparr>,
      o_upload_size = 0, o_upload_entries = [], o_set_commit = blank_result 0, o_read_index = [],
      o_update_max = [], o_push = [], o_log_finished = False, o_status_commit = blank_result (),
      o_commit_index = [], o_commit_entries = [], o_abort_index = [], o_abort_entries = [],
      o_release_index = [], o_release_entries = [], o_status_abort = blank_result (),
      o_insert = kv_reset '''' None None, o_update = kv_reset '''' None None,
      o_upsert = kv_reset '''' None None, o_delete = kv_reset '''' None None, o_init = blank_result (),
      o_read_ds = \<lparr>rd_table = '''', rd_key = None, rd_record = None, rd_result = blank_result None\<rparr>\<rparr>"

text \<open>The client's requests: write key 4, read key 5, commit.\<close>

definition q_write :: op_request where
  "q_write = new_op_request 1 ''t'' (Some (IntKey 4)) None Upsert False False"

definition q_read :: op_request where
  "q_read = new_op_request 1 ''t'' (Some (IntKey 5)) None Read False False"

definition q_commit :: op_request where
  "q_commit = new_control_request 1 Commit False"

definition run0 :: exec where
  "run0 =
     \<lparr>w_heap = (\<lambda>_. None), w_reqs = (\<lambda>r. if r = 0 then Some q_write else if r = 1 then Some q_read else Some q_commit),
      w_now = 100, w_time = new_local_time_provider 100, w_ids = \<lparr>ig_id = 1, ig_start = 1, ig_end = 1000\<rparr>,
      x_vec = [], x_ls = new_local_state 0, x_ops = idle_ops, x_max_writers = - 1, x_commit_ts = - 1,
      x_finished = False, x_status = Ongoing, x_txn_id = 1, x_txn_entry = new_txn_entry, x_commit_local = 100,
      x_type = 0, x_result = new_result, x_current = None, x_tx_log = False, x_executor_id = 0, x_trace = []\<rparr>"

text \<open>A version of a record: number, writer, begin and end timestamps.\<close>

definition version_of :: "int \<Rightarrow> int \<Rightarrow> int \<Rightarrow> int \<Rightarrow> version_entry" where
  "version_of n tx b e = new_version_entry\<lparr>ve_version := n, ve_tx_id := tx, ve_begin_ts := b, ve_end_ts := e,
     ve_max_commit_ts := 1000, ve_is_deleted := False\<rparr>"

lemma run0_simps [simp]:
  "x_vec run0 = []" "x_finished run0 = False" "w_reqs run0 0 = Some q_write" "w_reqs run0 (Suc 0) = Some q_read"
  "w_reqs run0 2 = Some q_commit" "x_ops run0 = idle_ops" "x_ls run0 = new_local_state 0" "x_trace run0 = []"
  "x_result run0 = new_result" "x_status run0 = Ongoing" "x_txn_id run0 = 1" "x_commit_local run0 = 100"
  "x_max_writers run0 = - 1" "x_commit_ts run0 = - 1" "w_now run0 = 100" "w_time run0 = new_local_time_provider 100"
  "x_txn_entry run0 = new_txn_entry" "w_heap run0 = (\<lambda>_. None)" "x_current run0 = None"
  by (simp_all add: run0_def)

lemma idle_ops_simps [simp]:
  "o_base idle_ops r = \<lparr>ob_move_to_next = False, ob_has_next = False\<rparr>"
  "o_read idle_ops = \<lparr>ro_table = [], ro_key = None, ro_record = None, ro_is_deleted = False, ro_slot = 0,
     ro_result = blank_result []\<rparr>"
  "o_upload_size idle_ops = 0" "o_upload_entries idle_ops = []" "o_set_commit idle_ops = blank_result 0"
  "o_read_index idle_ops = []" "o_update_max idle_ops = []" "o_push idle_ops = []"
  "o_status_commit idle_ops = blank_result ()" "o_commit_index idle_ops = []" "o_commit_entries idle_ops = []"
  "o_abort_index idle_ops = []" "o_abort_entries idle_ops = []" "o_release_index idle_ops = []"
  "o_release_entries idle_ops = []" "o_status_abort idle_ops = blank_result ()"
  by (simp_all add: idle_ops_def)

lemmas run_steps = run_simps q_write_def q_read_def q_commit_def version_of_def Let_def

section \<open>The runs\<close>

definition until_commit :: "event list" where
  "until_commit =
     [Request 0,
      Reply OpReadOutside (ReplyVersions [version_of 7 kEmptyTxId 20 kMaxTimeStamp, new_version_entry]), Pass,
      Request 1,
      Reply OpReadOutside (ReplyVersions [version_of 3 kEmptyTxId 10 kMaxTimeStamp, new_version_entry]), Pass,
      Request 2, Reply (OpUploadEntry 0) (ReplyUpload new_version_entry 50), Pass]"

definition commit_run :: "event list" where
  "commit_run = until_commit @
     [Reply OpSetCommitTs (ReplyTs 120), Pass,
      Reply (OpUpdateMaxTs 0) (ReplyVersion (version_of 3 77 10 kMaxTimeStamp)), Pass,
      Reply (OpPushLowerBound 0) (ReplyTxn new_txn_entry), Pass, Pass,
      Reply OpStatusCommit ReplyVoid, Pass, Reply (OpPostCommitEntry 0) (ReplyCount 0 False), Pass]"

definition abort_run :: "event list" where
  "abort_run = until_commit @
     [Reply OpSetCommitTs ReplyError, Pass, Reply OpStatusAbort ReplyVoid, Pass,
      Reply (OpPostAbortEntry 0) ReplyVoid, Pass,
      Reply (OpReleaseEntry 0) ReplyVoid, Reply (OpReleaseEntry 1) ReplyVoid, Pass]"

lemma run0_fresh: "fresh_exec run0"
  by (simp add: fresh_exec_def new_local_state_def read_size_def write_size_def ls_read_size_def
      ls_write_size_def new_pool_def pool_inv_def)

lemma commit_run_ok:
  "\<exists>s. run_events None commit_run run0 = Inr s \<and> x_finished s \<and> decisions s = [Committed] \<and> write_size s = 1 \<and>
     (\<exists>t k v tx b e n x p. (OpPostCommitEntry 0, CommitVersion t k v tx b e n x p) \<in> set (x_trace s))"
  by (simp add: commit_run_def until_commit_def run_events_def run_steps decisions_def
      del: rbind_eq_Inr upd_read_entry_Inr upd_write_entry_Inr)

lemma abort_run_ok:
  "\<exists>s. run_events None abort_run run0 = Inr s \<and> x_finished s \<and> decisions s = [Aborted] \<and> accepted_writes s = [0]"
  by (simp add: abort_run_def until_commit_def run_events_def run_steps decisions_def accepted_writes_def
      del: rbind_eq_Inr upd_read_entry_Inr upd_write_entry_Inr)

lemma commit_run_reach:
  "\<exists>s. exec_reach run0 s \<and> x_finished s \<and> decisions s = [Committed] \<and> write_size s = 1"
  using commit_run_ok run_events_reach exec_reach.start [OF run0_fresh] by meson

lemma abort_run_reach:
  "\<exists>s. exec_reach run0 s \<and> x_finished s \<and> decisions s = [Aborted] \<and> accepted_writes s = [0]"
  using abort_run_ok run_events_reach exec_reach.start [OF run0_fresh] by meson

lemma commit_run_commits:
  "\<exists>s. exec_reach run0 s \<and>
     (\<exists>t k v tx b e n x p. (OpPostCommitEntry 0, CommitVersion t k v tx b e n x p) \<in> set (x_trace s))"
  using commit_run_ok run_events_reach exec_reach.start [OF run0_fresh] by meson

end
