(* ===== verification/Progress.thy ===== *)
theory Progress
  imports Commit_Protocol
begin

text \<open>
  Liveness of the commit and abort protocol: a pass of \<^verbatim>\<open>MoveForward\<close> over a stack on which some operation is
  finished moves the protocol on or leaves less work on the stack, and from the request that ends the
  transaction on there is always an operation that is finished or that an answer of the handler finishes.
\<close>

section \<open>Rank of a phase, weight of a stack\<close>

fun rank :: "phase \<Rightarrow> nat" where
  "rank Uploading = 8"
| "rank Timestamping = 7"
| "rank Validating = 6"
| "rank Logging = 5"
| "rank Deciding = 4"
| "rank Finalizing = 3"
| "rank Rejecting = 3"
| "rank Undoing = 2"
| "rank Releasing = 1"
| "rank _ = 0"

text \<open>The phases from the commit or abort request on.\<close>

definition ending :: "phase \<Rightarrow> bool" where
  "ending p \<longleftrightarrow> p \<notin> {Idle} \<union> range Client \<union> range Reading"

inductive_cases phase_nextE: "phase_next p p'"

lemma phase_next_rank: "phase_next p p' \<Longrightarrow> ending p \<Longrightarrow> ending p' \<and> rank p' < rank p"
  by (erule phase_nextE) (auto simp: ending_def)

fun op_weight :: "op_ref \<Rightarrow> nat" where
  "op_weight (OpUpdateMaxTs _) = 2"
| "op_weight _ = 1"

definition weight :: "exec \<Rightarrow> nat" where
  "weight s = (\<Sum>x\<leftarrow>x_vec s. case x of None \<Rightarrow> 0 | Some r \<Rightarrow> op_weight r)"

lemma weight_put:
  "i < length v \<Longrightarrow> (\<Sum>x\<leftarrow>v[i := y]. f x) + (f (v ! i) :: nat) = (\<Sum>x\<leftarrow>v. f x) + f y"
proof (induction v arbitrary: i)
  case (Cons a v)
  show ?case
  proof (cases i)
    case (Suc j)
    with Cons.prems have "(\<Sum>x\<leftarrow>v[j := y]. f x) + f (v ! j) = (\<Sum>x\<leftarrow>v. f x) + f y" by (intro Cons.IH) simp
    with Suc show ?thesis by simp
  qed simp
qed simp

lemma op_weight_pos: "0 < op_weight r"
  by (cases r) auto

lemma popped_weight:
  assumes "popped i r s s'"
  shows "weight s' < weight s"
proof -
  from assms have i: "i < length (x_vec s)" "x_vec s ! i = Some r" and v: "x_vec s' = (x_vec s)[i := None]"
    by (auto simp: popped_def op_next_vec)
  let ?f = "\<lambda>x. case x of None \<Rightarrow> 0 | Some r \<Rightarrow> op_weight r"
  from weight_put [OF i(1), where y = None and f = ?f] i(2) op_weight_pos [of r] show ?thesis by (simp add: weight_def v)
qed

lemma push_call_vec: "op_call (OpPushLowerBound k) s = Inr s' \<Longrightarrow> x_vec s' = x_vec s"
  by (auto simp: op_call_def push_call_def base_defs log_call_def)

lemma replaced_weight:
  assumes "replaced i (OpUpdateMaxTs j) (OpPushLowerBound k) s s'"
  shows "weight s' < weight s"
proof -
  from assms obtain s1 where i: "i < length (x_vec s)" "x_vec s ! i = Some (OpUpdateMaxTs j)"
    and n: "op_next (OpUpdateMaxTs j) s = Inr (Some (OpPushLowerBound k), s1)"
    and c: "op_call (OpPushLowerBound k) (s1\<lparr>x_vec := (x_vec s1)[i := Some (OpPushLowerBound k)]\<rparr>) = Inr s'"
    by (auto simp: replaced_def)
  have v: "x_vec s' = (x_vec s)[i := Some (OpPushLowerBound k)]" using push_call_vec [OF c] op_next_vec [OF n] by simp
  let ?f = "\<lambda>x. case x of None \<Rightarrow> 0 | Some r \<Rightarrow> op_weight r"
  from weight_put [OF i(1), where y = "Some (OpPushLowerBound k)" and f = ?f] i(2) show ?thesis by (simp add: weight_def v)
qed

section \<open>Every visit makes progress\<close>

text \<open>The protocol has moved on, or the work on the stack has become less.\<close>

definition nearer :: "(phase \<times> exec) \<Rightarrow> (phase \<times> exec) \<Rightarrow> bool" where
  "nearer a b \<longleftrightarrow> ((rank (fst a), weight (snd a)), (rank (fst b), weight (snd b))) \<in> less_than <*lex*> less_than"

lemma nearer_iff: "nearer (p', s') (p, s) \<longleftrightarrow> rank p' < rank p \<or> rank p' = rank p \<and> weight s' < weight s"
  by (auto simp: nearer_def)

lemma nearer_trans: "nearer a b \<Longrightarrow> nearer b c \<Longrightarrow> nearer a c"
  by (auto simp: nearer_def)

lemma wf_nearer: "wf {(a, b). nearer a b}"
proof -
  have "wf (inv_image (less_than <*lex*> less_than) (\<lambda>a. (rank (fst a), weight (snd a))))" by auto
  moreover have "{(a, b). nearer a b} = inv_image (less_than <*lex*> less_than) (\<lambda>a. (rank (fst a), weight (snd a)))"
    by (auto simp: nearer_def inv_image_def)
  ultimately show ?thesis by simp
qed

lemma visit_nearer:
  assumes "stack_ok s" "in_phase p s" "ending p" "popped i r s s' \<or> replaced i r q s s'"
  shows "is_aborting s' \<and> abortable s' \<and> rank Rejecting < rank p \<or>
    \<not> is_aborting s' \<and> stack_ok s' \<and> (\<exists>p'. in_phase p' s' \<and> ending p' \<and> nearer (p', s') (p, s))"
  using assms(4)
proof
  assume pop: "popped i r s s'"
  from popped_phase [OF assms(1,2) pop] show ?thesis
  proof
    assume "is_aborting s' \<and> abortable s' \<and> phase_next p Rejecting"
    with phase_next_rank [OF _ assms(3)] show ?thesis by blast
  next
    assume "\<not> is_aborting s' \<and> stack_ok s' \<and> (\<exists>p'. in_phase p' s' \<and> (p' = p \<or> phase_next p p'))"
    then obtain p' where a: "\<not> is_aborting s'" "stack_ok s'" "in_phase p' s'" and p': "p' = p \<or> phase_next p p'" by blast
    then have "ending p' \<and> nearer (p', s') (p, s)"
      using popped_weight [OF pop] phase_next_rank [OF _ assms(3)] assms(3) by (auto simp: nearer_iff)
    with a show ?thesis by blast
  qed
next
  assume rep: "replaced i r q s s'"
  from replaced_phase [OF assms(1,2) rep] obtain p' where p': "stack_ok s'" "in_phase p' s'"
      "p' = p \<and> stays_within p r q \<or> phase_next p p'" by blast
  have "weight s' < weight s" if "stays_within p r q"
    using that assms(3) rep replaced_weight by (auto simp: stays_within_def ending_def)
  then have "ending p' \<and> nearer (p', s') (p, s)"
    using p'(3) assms(3) phase_next_rank [OF _ assms(3)] by (auto simp: nearer_iff)
  then show ?thesis using p' in_phase_not_aborting by blast
qed

section \<open>A pass with something to do makes progress\<close>

lemma mf_loop_first_visit:
  assumes "mf_loop n s = Inr s'" "j < n" "j < length (x_vec s)" "x_vec s ! j = Some r" "op_finished r s = Inr True"
  shows "\<exists>i a q u. (popped i a s u \<and> is_aborting u \<and> s' = u) \<or>
    (\<exists>m. (popped i a s u \<and> \<not> is_aborting u \<or> replaced i a q s u) \<and> mf_loop m u = Inr s')"
  using assms(1,2)
proof (induction n)
  case (Suc i)
  from Suc.prems(1) have len: "i < length (x_vec s)" by (auto simp: vec_at_eq_Inr)
  show ?case
  proof (cases "x_vec s ! i = None \<or> (\<exists>a. x_vec s ! i = Some a \<and> op_finished a s = Inr False)")
    case True
    then have "j \<noteq> i" using assms(4,5) by auto
    moreover have "mf_loop i s = Inr s'" using Suc.prems(1) True len by auto
    ultimately show ?thesis using Suc by simp
  next
    case False
    then obtain a where a: "x_vec s ! i = Some a" by auto
    obtain fin where fin: "op_finished a s = Inr fin" using Suc.prems(1) len a by auto
    with False a have f: fin by auto
    obtain operation s1 where nxt: "op_next a s = Inr (operation, s1)"
      using Suc.prems(1) len a fin f by auto
    show ?thesis
    proof (cases operation)
      case None
      let ?u = "s1\<lparr>x_vec := (x_vec s1)[i := None]\<rparr>"
      have "popped i a s ?u" using len a fin f nxt None by (auto simp: popped_def)
      moreover have "is_aborting ?u \<and> s' = ?u \<or> \<not> is_aborting ?u \<and> mf_loop i ?u = Inr s'"
        using Suc.prems(1) len a fin f nxt None by (auto simp: Let_def split: if_splits)
      ultimately show ?thesis by blast
    next
      case (Some q)
      then obtain u where u: "op_call q (s1\<lparr>x_vec := (x_vec s1)[i := Some q]\<rparr>) = Inr u" "mf_loop i u = Inr s'"
        using Suc.prems(1) len a fin f nxt by (auto simp: Let_def)
      have "replaced i a q s u" using len a fin f nxt Some u(1) by (auto simp: replaced_def)
      with u(2) show ?thesis by blast
    qed
  qed
qed simp

lemma mf_loop_nearer:
  assumes "mf_loop n s = Inr s'" "stack_ok s" "in_phase p s" "ending p"
  shows "is_aborting s' \<and> abortable s' \<and> rank Rejecting < rank p \<or>
    \<not> is_aborting s' \<and> stack_ok s' \<and> (\<exists>p'. in_phase p' s' \<and> ending p' \<and> ((p', s') = (p, s) \<or> nearer (p', s') (p, s)))"
proof -
  let ?P = "\<lambda>u. stack_ok u \<and> (\<exists>p'. in_phase p' u \<and> ending p' \<and> ((p', u) = (p, s) \<or> nearer (p', u) (p, s)))"
  have v: "is_aborting v \<and> (abortable v \<and> rank Rejecting < rank p) \<or> \<not> is_aborting v \<and> ?P v"
    if u: "?P u" and vis: "popped i r u v \<or> replaced i r q u v" for u v i r q
  proof -
    from u obtain p1 where p1: "stack_ok u" "in_phase p1 u" "ending p1" "(p1, u) = (p, s) \<or> nearer (p1, u) (p, s)" by blast
    then have le: "rank p1 \<le> rank p" by (auto simp: nearer_iff)
    from visit_nearer [OF p1(1-3) vis] show ?thesis
    proof (elim disjE conjE exE)
      assume "is_aborting v" "abortable v" "rank Rejecting < rank p1"
      with le show ?thesis by simp
    next
      fix p' assume a: "\<not> is_aborting v" "stack_ok v" "in_phase p' v" "ending p'" and n: "nearer (p', v) (p1, u)"
      from n p1(4) have "nearer (p', v) (p, s)" using nearer_trans by blast
      with a show ?thesis by blast
    qed
  qed
  have "is_aborting s' \<and> (abortable s' \<and> rank Rejecting < rank p) \<or> ?P s'"
  proof (rule mf_loop_induct [OF assms(1)])
    show "?P s" using assms(2-4) by blast
  next
    fix i r u u' assume "?P u" "popped i r u u'"
    with v show "is_aborting u' \<and> (abortable u' \<and> rank Rejecting < rank p) \<or> \<not> is_aborting u' \<and> ?P u'" by blast
  next
    fix i r a u u' assume u: "?P u" and rep: "replaced i r a u u'"
    then obtain p1 where "stack_ok u" "in_phase p1 u" by blast
    from replaced_phase [OF this rep] have "\<not> is_aborting u'" using in_phase_not_aborting by blast
    with v [OF u] rep show "?P u'" by blast
  qed
  then show ?thesis using in_phase_not_aborting by blast
qed

lemma ending_Rejecting: "ending Rejecting"
  by (auto simp: ending_def)

lemma weight_trim: "weight (s\<lparr>x_vec := trim_stack v\<rparr>) = weight (s\<lparr>x_vec := v\<rparr>)"
proof -
  let ?f = "\<lambda>x. case x of None \<Rightarrow> 0 | Some r \<Rightarrow> op_weight r"
  have "(\<Sum>x\<leftarrow>dropWhile (\<lambda>x. x = None) v. ?f x) = (\<Sum>x\<leftarrow>v. ?f x)" for v by (induction v) auto
  from this [of "rev v"] show ?thesis by (simp add: weight_def trim_stack_def rev_map [symmetric])
qed

lemma advance_nearer:
  assumes "move_forward s = Inr (idle, s')" "stack_ok s" "in_phase p s" "trimmed s" "ending p"
    and "on_stack s r" "op_finished r s = Inr True"
  shows "stack_ok s' \<and> trimmed s' \<and> (\<exists>p'. in_phase p' s' \<and> ending p' \<and> nearer (p', s') (p, s))"
proof -
  from assms(6) obtain j where j: "j < length (x_vec s)" "x_vec s ! j = Some r" by (auto simp: on_stack_def in_set_conv_nth)
  then have "x_vec s \<noteq> []" by auto
  then obtain s1 where loop: "mf_loop (length (x_vec s)) s = Inr s1" and
    e: "(if is_aborting s1 then exec_abort (set_txn_status Aborted s1)
         else Inr (s1\<lparr>x_vec := trim_stack (x_vec s1)\<rparr>)) = Inr s'"
    using assms(1) by (auto simp: move_forward_def)
  have "is_aborting s1 \<and> abortable s1 \<and> rank Rejecting < rank p \<or>
    \<not> is_aborting s1 \<and> stack_ok s1 \<and> (\<exists>p'. in_phase p' s1 \<and> ending p' \<and> nearer (p', s1) (p, s))"
  proof -
    from mf_loop_first_visit [OF loop j(1) j assms(7)] obtain i a q u where
      "popped i a s u \<and> is_aborting u \<and> s1 = u \<or> (\<exists>m. (popped i a s u \<and> \<not> is_aborting u \<or> replaced i a q s u) \<and> mf_loop m u = Inr s1)" by blast
    then consider "popped i a s u" "is_aborting u" "s1 = u"
      | m where "popped i a s u \<or> replaced i a q s u" "\<not> is_aborting u" "mf_loop m u = Inr s1"
      using replaced_phase [OF assms(2,3), of i a q u] in_phase_not_aborting by blast
    then show ?thesis
    proof cases
      case 1
      from visit_nearer [OF assms(2,3,5) disjI1 [OF 1(1)]] 1(2,3) show ?thesis by blast
    next
      case (2 m)
      from visit_nearer [OF assms(2,3,5) 2(1)] show ?thesis
      proof (elim disjE conjE exE)
        assume "is_aborting u"
        with 2(2) show ?thesis by simp
      next
        fix p1 assume p1: "\<not> is_aborting u" "stack_ok u" "in_phase p1 u" "ending p1" and n: "nearer (p1, u) (p, s)"
        then have le: "rank p1 \<le> rank p" by (auto simp: nearer_iff)
        from mf_loop_nearer [OF 2(3) p1(2-4)] show ?thesis
        proof
          assume "is_aborting s1 \<and> abortable s1 \<and> rank Rejecting < rank p1"
          with le show ?thesis by simp
        next
          assume "\<not> is_aborting s1 \<and> stack_ok s1 \<and> (\<exists>p'. in_phase p' s1 \<and> ending p' \<and> ((p', s1) = (p1, u) \<or> nearer (p', s1) (p1, u)))"
          then obtain p' where a: "\<not> is_aborting s1" "stack_ok s1" "in_phase p' s1" "ending p'" "(p', s1) = (p1, u) \<or> nearer (p', s1) (p1, u)" by blast
          then have "nearer (p', s1) (p, s)" using n nearer_trans by blast
          with a show ?thesis by blast
        qed
      qed
    qed
  qed
  then show ?thesis
  proof (elim disjE conjE exE)
    assume a: "is_aborting s1" "abortable s1" "rank Rejecting < rank p"
    note r = aborting_end [OF a(1,2) e]
    moreover have "nearer (Rejecting, s') (p, s)" using a(3) by (simp add: nearer_iff)
    ultimately show ?thesis by (metis in_phase.simps(11) ending_Rejecting)
  next
    fix p' assume a: "\<not> is_aborting s1" "stack_ok s1" "in_phase p' s1" "ending p'" and n: "nearer (p', s1) (p, s)"
    have s': "s' = s1\<lparr>x_vec := trim_stack (x_vec s1)\<rparr>" using a(1) e by simp
    have "in_phase p' s'" unfolding s'
      by (rule in_phase_vec [OF a(3)]) (metis set_stack_ops stack_ops_trim)
    moreover have "stack_ok s'" using a(2) by (simp add: s' stack_ok_def)
    moreover have "nearer (p', s') (p, s)" using n by (simp add: nearer_iff s' weight_trim)
    ultimately show ?thesis using a(4) by (auto simp: s' trimmed_def)
  qed
qed

section \<open>Rounds\<close>

text \<open>What happens between two passes: answers of the handler, and steps of the other executions.\<close>

inductive replied :: "exec \<Rightarrow> exec \<Rightarrow> bool" for s where
  nothing: "replied s s"
| reply: "replied s u \<Longrightarrow> awaiting u r \<Longrightarrow> deliver r a u = Some v \<Longrightarrow> replied s v"
| world: "replied s u \<Longrightarrow> replied s (same_world w u)"

text \<open>A round that some answer reached: a pass over a stack on which some operation is finished.\<close>

inductive answered_round :: "exec \<Rightarrow> exec \<Rightarrow> bool" where
  "replied s u \<Longrightarrow> on_stack u r \<Longrightarrow> op_finished r u = Inr True \<Longrightarrow> move_forward u = Inr (b, s') \<Longrightarrow> answered_round s s'"

lemma weight_vec: "x_vec s = x_vec s' \<Longrightarrow> weight s = weight s'"
  by (simp add: weight_def)

lemma replied_phase:
  assumes "replied s u" "stack_ok s" "trimmed s" "in_phase p s"
  shows "stack_ok u \<and> trimmed u \<and> in_phase p u \<and> x_vec u = x_vec s"
  using assms(1)
proof induction
  case nothing
  show ?case using assms(2-) by simp
next
  case (reply u r a v)
  then have u: "stack_ok u" "in_phase p u" "trimmed u" "x_vec u = x_vec s" by simp_all
  from reply_phase [OF u(1,2) reply(2,3)] u show ?case by (simp add: stack_ok_def trimmed_def)
next
  case (world u w)
  then show ?case by (simp add: in_phase_world stack_world) (simp add: same_world_def)
qed

lemma answered_round_nearer:
  assumes "answered_round s s'" "stack_ok s" "trimmed s" "in_phase p s" "ending p"
  shows "stack_ok s' \<and> trimmed s' \<and> (\<exists>p'. in_phase p' s' \<and> ending p' \<and> nearer (p', s') (p, s))"
  using assms(1)
proof cases
  case (1 u r b)
  note u = replied_phase [OF 1(1) assms(2-4)]
  then have w: "weight u = weight s" by (intro weight_vec) blast
  from u have "stack_ok u" "in_phase p u" "trimmed u" by blast+
  from advance_nearer [OF 1(4) this assms(5) 1(2,3)] show ?thesis unfolding nearer_iff w .
qed

lemma answered_rounds_end:
  fixes f :: "nat \<Rightarrow> exec"
  assumes "stack_ok (f 0)" "trimmed (f 0)" "in_phase p (f 0)" "ending p"
  shows "\<exists>n. \<not> answered_round (f n) (f (Suc n))"
proof -
  have "\<forall>f :: nat \<Rightarrow> exec. stack_ok (f 0) \<and> trimmed (f 0) \<and> in_phase (fst a) (f 0) \<and> ending (fst a) \<and> snd a = f 0 \<longrightarrow>
      (\<exists>n. \<not> answered_round (f n) (f (Suc n)))" for a
  proof (induction a rule: wf_induct_rule [OF wf_nearer])
    case (1 a)
    show ?case
    proof (intro allI impI, elim conjE)
      fix f :: "nat \<Rightarrow> exec" assume f: "stack_ok (f 0)" "trimmed (f 0)" "in_phase (fst a) (f 0)" "ending (fst a)" "snd a = f 0"
      show "\<exists>n. \<not> answered_round (f n) (f (Suc n))"
      proof (cases "answered_round (f 0) (f 1)")
        case True
        from answered_round_nearer [OF True f(1-4)] obtain p' where p': "stack_ok (f 1)" "trimmed (f 1)" "in_phase p' (f 1)" "ending p'"
            "nearer (p', f 1) (fst a, f 0)" by blast
        have "((p', f 1), a) \<in> {(a, b). nearer a b}" using p'(5) f(5) by (cases a) simp
        from 1 [rule_format, OF this, of "\<lambda>n. f (Suc n)"] p' obtain n where "\<not> answered_round (f (Suc n)) (f (Suc (Suc n)))"
          by auto
        then show ?thesis by blast
      next
        case False
        then show ?thesis by (intro exI [of _ 0]) simp
      qed
    qed
  qed
  from this [of "(p, f 0)", rule_format, of f] assms show ?thesis by simp
qed

lemma answered_rounds_ending:
  assumes "answered_round\<^sup>*\<^sup>* s s'" "stack_ok s" "trimmed s" "in_phase p s" "ending p"
  shows "stack_ok s' \<and> trimmed s' \<and> (\<exists>p'. in_phase p' s' \<and> ending p')"
  using assms(1)
proof (induction rule: rtranclp_induct)
  case base
  show ?case using assms(2-) by blast
next
  case (step u v)
  then obtain q where "stack_ok u" "trimmed u" "in_phase q u" "ending q" by blast
  from answered_round_nearer [OF step(2) this] show ?case by blast
qed

section \<open>The request that ends the transaction\<close>

definition end_request :: "(op_request \<Rightarrow> op_request) \<Rightarrow> req_id \<Rightarrow> exec \<Rightarrow> bool" where
  "end_request process r s \<longleftrightarrow> (\<exists>q. w_reqs s r = Some q \<and> rq_op (rq_set_up process q) \<in> {Commit, Abort})"

lemma end_request_ending:
  assumes "exec_reach s0 s" "x_vec s = []" "\<not> x_finished s" "end_request process r s" "handle_request process ds r s = Inr s1"
  shows "stack_ok s1 \<and> trimmed s1 \<and> (\<exists>p. in_phase p s1 \<and> ending p)"
proof -
  obtain p where "in_phase p s" using reach_phase [OF assms(1)] by blast
  with no_ops_idle [OF this assms(2)] assms(3) have i: "in_phase Idle s" by (auto simp: committed_def aborted_def)
  obtain q where q: "w_reqs s r = Some q" "rq_op (rq_set_up process q) \<in> {Commit, Abort}"
    using assms(4) by (auto simp: end_request_def)
  let ?u = "s\<lparr>w_reqs := (w_reqs s)(r \<mapsto> rq_set_up process q), x_current := Some r\<rparr>"
  have run: "run_request ds (rq_set_up process q) ?u = Inr s1"
    using assms(5) q(1) by (auto simp: handle_request_def upd_request_Inr)
  have u: "in_phase Idle ?u" "x_vec ?u = []"
    using i assms(2) by (simp_all add: client_state_def ordered_def stages_def read_size_def write_size_def only_def on_stack_def)
  from q(2) consider "exec_commit ?u = Inr s1" | "exec_abort ?u = Inr s1" using run by (auto simp: run_request_def)
  then show ?thesis
  proof cases
    case 1
    from commit_uploading [OF u 1] commit_trimmed [OF 1] show ?thesis by (auto simp: ending_def intro!: exI [of _ Uploading])
  next
    case 2
    from idle_abort [OF u(1) 2] show ?thesis by (auto simp: ending_def intro!: exI [of _ Rejecting])
  qed
qed

section \<open>No deadlock\<close>

text \<open>Some operation is finished, or one answer of the handler finishes one: the next pass makes progress.\<close>

definition can_go_on :: "exec \<Rightarrow> bool" where
  "can_go_on s \<longleftrightarrow> (\<exists>r. on_stack s r \<and> (op_finished r s = Inr True \<or>
     awaiting s r \<and> (\<exists>a u. deliver r a s = Some u \<and> x_vec u = x_vec s \<and> op_finished r u = Inr True)))"

lemma can_go_on_finished: "on_stack s r \<Longrightarrow> op_finished r s = Inr True \<Longrightarrow> can_go_on s"
  unfolding can_go_on_def by blast

lemma can_go_on_answer:
  assumes "on_stack s r" "op_finished r s = Inr b" "deliver r a s = Some u" "op_finished r u = Inr True" "x_vec u = x_vec s"
  shows "can_go_on s"
proof (cases b)
  case True
  with can_go_on_finished assms(1,2) show ?thesis by simp
next
  case False
  with assms(1,2) have "awaiting s r" by (simp add: awaiting_def on_stack_def)
  with assms show ?thesis unfolding can_go_on_def by blast
qed

text \<open>An operation that waits for one answer of the handler, with its place among the operations.\<close>

fun answerable :: "exec \<Rightarrow> op_ref \<Rightarrow> bool" where
  "answerable s (OpUploadEntry i) = (i < length (o_upload_entries (x_ops s)))"
| "answerable s (OpUpdateMaxTs i) = (i < length (o_update_max (x_ops s)))"
| "answerable s (OpPushLowerBound i) = (i < length (o_push (x_ops s)))"
| "answerable s (OpPostCommitEntry i) = (i < length (o_commit_entries (x_ops s)))"
| "answerable s (OpPostAbortEntry i) = (i < length (o_abort_entries (x_ops s)))"
| "answerable s (OpReleaseEntry i) = (i < length (o_release_entries (x_ops s)))"
| "answerable s r = (r \<in> {OpSetCommitTs, OpWriteLog, OpStatusCommit, OpStatusAbort})"

fun good_answer :: "op_ref \<Rightarrow> reply" where
  "good_answer (OpUploadEntry i) = ReplyUpload new_version_entry 0"
| "good_answer (OpUpdateMaxTs i) = ReplyVersion new_version_entry"
| "good_answer (OpPushLowerBound i) = ReplyTxn new_txn_entry"
| "good_answer (OpPostCommitEntry i) = ReplyCount 0 False"
| "good_answer OpSetCommitTs = ReplyTs 0"
| "good_answer r = ReplyVoid"

lemmas finished_defs = upload_entry_finished_def update_max_finished_def push_finished_def commit_entry_finished_def
  abort_entry_finished_def release_entry_finished_def

lemmas update_defs = upd_upload_entry_def upd_update_max_def upd_push_def upd_commit_entry_def upd_abort_entry_def
  upd_release_entry_def

lemma answerable_finishes:
  assumes "answerable s r"
  shows "\<exists>b u. op_finished r s = Inr b \<and> deliver r (good_answer r) s = Some u \<and> op_finished r u = Inr True \<and> x_vec u = x_vec s"
  using assms
  by (cases r) (simp_all add: deliver_def finished_defs update_defs answer_def hr_set_finished_def)

lemma answerable_goes_on: "on_stack s r \<Longrightarrow> answerable s r \<Longrightarrow> can_go_on s"
  using answerable_finishes can_go_on_answer by blast

lemma uploading_goes_on:
  assumes "uploading n s" "n = write_size s"
  shows "can_go_on s"
proof (cases "\<exists>i < n. on_stack s (OpUploadEntry i)")
  case True
  then obtain i where "i < n" "on_stack s (OpUploadEntry i)" by blast
  with answerable_goes_on [of s "OpUploadEntry i"] assms show ?thesis by (simp add: uploading_def)
next
  case False
  have "upload_entry_cascade_finished s i = Inr True" if i: "i < n" for i
  proof -
    have "upload_child s i" using assms(1) i by (simp add: uploading_def)
    with False i assms show ?thesis
      by (simp add: upload_child_def upload_entry_cascade_finished_def finished_defs uploading_def del: rbind_eq_Inr)
  qed
  then have "op_finished OpUpload s = Inr True"
    using assms by (simp add: upload_finished_def rall_True uploading_def)
  moreover have "on_stack s OpUpload" using assms(1) by (simp add: uploading_def)
  ultimately show ?thesis by (rule can_go_on_finished [rotated])
qed

lemma validating_goes_on:
  assumes "validating n s" "n = length (o_read_index (x_ops s))"
  shows "can_go_on s"
proof (cases "\<exists>i < n. on_stack s (OpUpdateMaxTs i) \<or> on_stack s (OpPushLowerBound i)")
  case True
  then obtain i where "i < n" "on_stack s (OpUpdateMaxTs i) \<or> on_stack s (OpPushLowerBound i)" by blast
  with answerable_goes_on [of s "OpUpdateMaxTs i"] answerable_goes_on [of s "OpPushLowerBound i"] assms
  show ?thesis by (auto simp: validating_def)
next
  case False
  have "update_max_cascade_finished i s = Inr True" if i: "i < n" for i
  proof -
    have "validate_child s i" using assms(1) i by (simp add: validating_def)
    with False i have c: "hr_finished (um_result (o_update_max (x_ops s) ! i))" "move_to_next s (OpUpdateMaxTs i)"
        "has_next s (OpUpdateMaxTs i) \<longrightarrow> hr_finished (pu_result (o_push (x_ops s) ! i)) \<and> move_to_next s (OpPushLowerBound i)"
        "um_index (o_update_max (x_ops s) ! i) = i"
      by (auto simp: validate_child_def)
    have "i < length (o_update_max (x_ops s))" "i < length (o_push (x_ops s))" using assms i by (auto simp: validating_def)
    with c show ?thesis
      by (simp add: update_max_cascade_finished_def push_cascade_finished_def finished_defs del: rbind_eq_Inr)
  qed
  then have "op_finished OpValidate s = Inr True" using assms(2) by (simp add: validate_finished_def rall_True)
  moreover have "on_stack s OpValidate" using assms(1) by (simp add: validating_def)
  ultimately show ?thesis by (rule can_go_on_finished [rotated])
qed

lemma finalizing_goes_on:
  assumes "finalizing n s" "n = write_size s"
  shows "can_go_on s"
proof (cases "\<exists>i < n. on_stack s (OpPostCommitEntry i)")
  case True
  then obtain i where "i < n" "on_stack s (OpPostCommitEntry i)" by blast
  with answerable_goes_on [of s "OpPostCommitEntry i"] assms show ?thesis by (simp add: finalizing_def)
next
  case False
  have "commit_entry_cascade_finished s i = Inr True" if i: "i < n" for i
  proof -
    have "commit_child s i" "moved s (OpPostCommitEntry i)" using assms(1) i by (simp_all add: finalizing_def)
    with False i assms show ?thesis
      by (simp add: commit_child_def commit_entry_cascade_finished_def finished_defs finalizing_def del: rbind_eq_Inr)
  qed
  then have "op_finished OpPostCommit s = Inr True"
    using assms by (simp add: post_commit_finished_def rall_True finalizing_def)
  moreover have "on_stack s OpPostCommit" using assms(1) by (simp add: finalizing_def)
  ultimately show ?thesis by (rule can_go_on_finished [rotated])
qed

lemma undoing_goes_on:
  assumes "undoing n s" "n = length (accepted_writes s)"
  shows "can_go_on s"
proof (cases "\<exists>i < n. on_stack s (OpPostAbortEntry i)")
  case True
  then obtain i where "i < n" "on_stack s (OpPostAbortEntry i)" by blast
  with answerable_goes_on [of s "OpPostAbortEntry i"] assms show ?thesis by (simp add: undoing_def)
next
  case False
  have "abort_entry_cascade_finished s i = Inr True" if i: "i < n" for i
  proof -
    have "undo_child s i" "moved s (OpPostAbortEntry i)" using assms(1) i by (simp_all add: undoing_def)
    with False i assms show ?thesis
      by (simp add: undo_child_def abort_entry_cascade_finished_def finished_defs undoing_def del: rbind_eq_Inr)
  qed
  then have "op_finished OpPostAbort s = Inr True"
    using assms by (simp add: post_abort_finished_def rall_True undoing_def)
  moreover have "on_stack s OpPostAbort" using assms(1) by (simp add: undoing_def)
  ultimately show ?thesis by (rule can_go_on_finished [rotated])
qed

lemma releasing_goes_on:
  assumes "releasing n s" "n = length (o_release_index (x_ops s))"
  shows "can_go_on s"
proof (cases "\<exists>i < n. on_stack s (OpReleaseEntry i)")
  case True
  then obtain i where "i < n" "on_stack s (OpReleaseEntry i)" by blast
  with answerable_goes_on [of s "OpReleaseEntry i"] assms show ?thesis by (simp add: releasing_def)
next
  case False
  have "release_entry_cascade_finished s i = Inr True" if i: "i < n" for i
  proof -
    have "release_child s i" "moved s (OpReleaseEntry i)" using assms(1) i by (simp_all add: releasing_def)
    with False i assms show ?thesis
      by (simp add: release_child_def release_entry_cascade_finished_def finished_defs releasing_def del: rbind_eq_Inr)
  qed
  then have "op_finished OpReleaseCounter s = Inr True"
    using assms by (simp add: release_finished_def rall_True releasing_def)
  moreover have "on_stack s OpReleaseCounter" using assms(1) by (simp add: releasing_def)
  ultimately show ?thesis by (rule can_go_on_finished [rotated])
qed

lemma ending_goes_on:
  assumes "in_phase p s" "ending p"
  shows "x_finished s \<and> x_status s \<in> {Committed, Aborted} \<or> \<not> x_finished s \<and> can_go_on s"
proof (cases "p \<in> {Done, Undone}")
  case True
  with assms(1) show ?thesis by (auto simp: committed_def aborted_def)
next
  case False
  have open_: "\<not> x_finished s"
    using assms False
    by (cases p) (auto simp: ending_def uploading_def timestamping_def running_def validating_def logging_def deciding_def
        finalizing_def rejecting_def undoing_def releasing_def)
  have "can_go_on s"
    using assms False
    by (cases p)
      (auto simp: ending_def timestamping_def logging_def deciding_def rejecting_def
        dest: uploading_goes_on [OF _ refl] validating_goes_on [OF _ refl] finalizing_goes_on [OF _ refl] undoing_goes_on [OF _ refl]
          releasing_goes_on [OF _ refl] answerable_goes_on [of _ OpSetCommitTs] answerable_goes_on [of _ OpWriteLog]
          answerable_goes_on [of _ OpStatusCommit] answerable_goes_on [of _ OpStatusAbort])
  with open_ show ?thesis by simp
qed

end
