(* ===== verification/Transaction_Properties.thy ===== *)
theory Transaction_Properties
  imports Sample_Runs Progress
begin

text \<open>
  What the phases give for whole transactions: one decision, taken on a certified transaction, carried
  out completely, and the order of the calls on the store.  The statements are about every state the
  step relation reaches from a freshly reset execution.
\<close>

section \<open>Consequences of the phases\<close>

fun decision_in :: "phase \<Rightarrow> txn_status list" where
  "decision_in Deciding = [Committed]"
| "decision_in Finalizing = [Committed]"
| "decision_in Done = [Committed]"
| "decision_in Rejecting = [Aborted]"
| "decision_in Undoing = [Aborted]"
| "decision_in Releasing = [Aborted]"
| "decision_in Undone = [Aborted]"
| "decision_in _ = []"

lemma in_phase_decisions:
  assumes "in_phase p s"
  shows "decisions s = decision_in p"
proof (cases p)
  case (Client r) then show ?thesis using assms decisions_before [of 0 s] by (auto simp: client_state_def)
next
  case (Reading q) then show ?thesis using assms decisions_before [of 0 s] by (auto simp: reading_def client_state_def)
qed (use assms decisions_before [of 0 s] decisions_before [of 1 s] decisions_before [of 2 s] decisions_before [of 3 s]
    decisions_before [of 4 s] in
  \<open>auto simp: client_state_def uploading_def timestamping_def running_def validating_def logging_def deciding_def
    finalizing_def decided_def committed_def rejecting_def undoing_def rejected_def releasing_def undone_def aborted_def\<close>)

lemma in_phase_ordered:
  assumes "in_phase p s"
  shows "sorted (stages s)"
  using assms
  by (cases p)
    (auto simp: client_state_def reading_def uploading_def timestamping_def running_def validating_def logging_def deciding_def
      finalizing_def decided_def committed_def rejecting_def undoing_def rejected_def releasing_def undone_def aborted_def
      abort_state_def ordered_def)

lemma in_phase_certified:
  assumes "in_phase p s" "decisions s = [Committed]"
  shows "certified s"
  using assms in_phase_decisions [OF assms(1)]
  by (cases p) (auto simp: deciding_certified finalizing_def committed_def decided_certified)

lemma in_phase_finished:
  assumes "in_phase p s" "x_finished s"
  shows "p = Done \<or> p = Undone"
  using assms
  by (cases p)
    (auto simp: client_state_def reading_def uploading_def timestamping_def running_def validating_def logging_def deciding_def
      finalizing_def rejecting_def undoing_def releasing_def)

lemma write_ok_mono: "write_ok m ls i \<Longrightarrow> m \<le> n \<Longrightarrow> write_ok n ls i"
  unfolding write_ok_def by (meson order_less_le_trans)

lemma in_phase_writes:
  assumes "in_phase p s" "i < write_size s"
  shows "write_ok (read_size s) (x_ls s) i"
proof -
  obtain m where "sets_ok m (x_ls s)"
    using assms(1)
    by (cases p)
      (auto simp: client_state_def reading_def uploading_def timestamping_def running_def validating_def logging_def deciding_def
        finalizing_def decided_def committed_def rejecting_def undoing_def rejected_def releasing_def undone_def aborted_def
        abort_state_def)
  then have "write_ok m (x_ls s) i" "m \<le> read_size s" using assms(2) by (auto simp: sets_ok_def write_size_ls read_size_ls)
  then show ?thesis by (rule write_ok_mono)
qed

lemma decision_stable:
  assumes "p \<le> q" "decision_in p \<noteq> []"
  shows "decision_in q = decision_in p"
proof -
  have "decision_in b = decision_in p" if "phase_next a b" "decision_in a = decision_in p" for a b
    using assms(2) that(2) by (cases rule: phase_next.cases [OF that(1)]) auto
  then show ?thesis by (rule phase_le_keeps [OF assms(1) refl])
qed

lemma steps_phase:
  assumes "exec_step\<^sup>*\<^sup>* s t" "stack_ok s" "trimmed s" "in_phase p s"
  shows "stack_ok t \<and> trimmed t \<and> (\<exists>q. in_phase q t \<and> p \<le> q)"
  using assms(1)
proof (induction rule: rtranclp_induct)
  case base
  then show ?case using assms(2-4) order_refl by blast
next
  case (step t u)
  then obtain q where q: "stack_ok t" "trimmed t" "in_phase q t" "p \<le> q" by blast
  from step_phase [OF step.hyps(2) q(1-3)] order_trans [OF q(4)] show ?case by (auto simp: less_eq_phase_def)
qed

lemma stage_6: "stage c = 6 \<longleftrightarrow> (\<exists>t k v a b e x y z. c = CommitVersion t k v a b e x y z) \<or> (\<exists>t k v x. c = DeleteVersion t k v x)"
  by (cases c) auto

lemma in_phase_stage6:
  assumes "in_phase p s" "c \<in> set (map snd (x_trace s))" "stage c = 6"
  shows "p \<in> {Finalizing, Done} \<and> (\<exists>i < write_size s. c = commit_call_of s i) \<and> decided s \<or>
    p \<in> {Undoing, Releasing, Undone} \<and> (\<exists>i \<in> set (accepted_writes s). c = delete_call_of s i) \<and> (\<exists>k. rejected k s)"
proof -
  have c: "c \<in> set (calls_at 6 s)" using assms(2,3) by (simp add: calls_at_def)
  have no: "\<not> ordered k s" if "k < 6" for k using calls_at_above [of k s 6] that c by auto
  show ?thesis
  proof (cases p)
    case Finalizing
    with assms(1) have f: "finalizing (write_size s) s" by simp
    with c have "c \<in> commit_call_of s ` {..<write_size s}" by (auto simp: finalizing_def)
    with f Finalizing show ?thesis by (auto simp: finalizing_def)
  next
    case Done
    with assms(1) have f: "committed s" by simp
    with c have "c \<in> commit_call_of s ` {..<write_size s}" by (auto simp: committed_def)
    with f Done show ?thesis by (auto simp: committed_def)
  next
    case Undoing
    with assms(1) have f: "undoing (length (accepted_writes s)) s" by simp
    with c have "c \<in> delete_call_of s ` set (accepted_writes s)" by (auto simp: undoing_def)
    with f Undoing show ?thesis by (auto simp: undoing_def)
  next
    case Releasing
    with assms(1) have f: "undone s" by (simp add: releasing_def)
    with c have "c \<in> delete_call_of s ` set (accepted_writes s)" by (auto simp: undone_def)
    with f Releasing show ?thesis by (auto simp: undone_def)
  next
    case Undone
    with assms(1) have f: "undone s" by (simp add: aborted_def)
    with c have "c \<in> delete_call_of s ` set (accepted_writes s)" by (auto simp: undone_def)
    with f Undone show ?thesis by (auto simp: undone_def)
  qed (use assms(1) no in
    \<open>auto simp: client_state_def reading_def uploading_def timestamping_def running_def validating_def logging_def deciding_def
      rejecting_def abort_state_def\<close>)
qed

section \<open>The outcome of a transaction\<close>

text \<open>
  C2: A transaction that finished has an empty operation stack and one of two outcomes: the status is
  committed and the one decision sent to the store is commit, or both are abort.\<close>

theorem finished_outcome:
  assumes "exec_reach s0 s" "x_finished s"
  shows "x_vec s = [] \<and> (x_status s = Committed \<and> decisions s = [Committed] \<or>
    x_status s = Aborted \<and> decisions s = [Aborted])"
proof -
  obtain p where p: "in_phase p s" and t: "trimmed s" using reach_phase [OF assms(1)] by blast
  from in_phase_finished [OF p assms(2)] p in_phase_decisions [OF p] trimmed_only_none [OF t]
  show ?thesis by (auto simp: committed_def aborted_def)
qed

theorem finished_outcome_witness:
  "\<exists>s. exec_reach run0 s \<and> x_vec s = [] \<and> x_status s = Committed"
proof -
  obtain s where s: "exec_reach run0 s" "x_finished s" "decisions s = [Committed]" using commit_run_reach by blast
  from finished_outcome [OF s(1,2)] s show ?thesis by auto
qed

text \<open>
  C7: A decision sent to the store stands: whatever happens later, no second decision is sent.\<close>

theorem decision_final:
  assumes "exec_reach s0 s" "decisions s \<noteq> []" "exec_step\<^sup>*\<^sup>* s t"
  shows "decisions t = decisions s \<and> length (decisions s) = 1"
proof -
  obtain p where p: "stack_ok s" "trimmed s" "in_phase p s" using reach_phase [OF assms(1)] by blast
  obtain q where q: "in_phase q t" "p \<le> q" using steps_phase [OF assms(3) p] by blast
  have "decision_in p \<noteq> []" using in_phase_decisions [OF p(3)] assms(2) by simp
  then have "decision_in q = decision_in p \<and> length (decision_in p) = 1"
    using decision_stable [OF q(2)] by (cases p) auto
  then show ?thesis using in_phase_decisions p(3) q(1) by simp
qed

theorem decision_final_witness:
  "\<exists>s. exec_reach run0 s \<and> length (decisions s) = 1 \<and> decisions (same_world run0 s) = [Aborted]"
proof -
  obtain s where s: "exec_reach run0 s" "decisions s = [Aborted]" using abort_run_reach by blast
  have "exec_step\<^sup>*\<^sup>* s (same_world run0 s)" using exec_step.interfere by blast
  from decision_final [OF s(1) _ this] s show ?thesis by auto
qed

text \<open>
  C3: Commit is decided only on a certified transaction: every write of the write set was uploaded and
  accepted, the store accepted the commit timestamp, and every entry read and not overwritten was
  validated at that timestamp and its counter given back.\<close>

theorem commit_is_certified:
  assumes "exec_reach s0 s" "Committed \<in> set (decisions s)"
  shows "all_uploaded s \<and> commit_ts_ok s \<and> all_validated s"
proof -
  obtain p where p: "in_phase p s" using reach_phase [OF assms(1)] by blast
  have "decisions s = [Committed]"
    using in_phase_decisions [OF p] assms(2) by (cases p) auto
  from in_phase_certified [OF p this] show ?thesis by (simp add: certified_def)
qed

theorem commit_is_certified_witness:
  "\<exists>s. exec_reach run0 s \<and> write_size s = 1 \<and> all_uploaded s \<and> commit_ts_ok s \<and> all_validated s"
proof -
  obtain s where s: "exec_reach run0 s" "decisions s = [Committed]" "write_size s = 1" using commit_run_reach by blast
  from commit_is_certified [OF s(1)] s show ?thesis by auto
qed

text \<open>
  C4: No write is made visible before the decision: a version is committed only after the store
  acknowledged the commit of the transaction, and only versions of the write set, with the transaction's
  commit timestamp, an open end and no owner.\<close>

theorem commit_version_after_decision:
  assumes "exec_reach s0 s" "(r, CommitVersion t k v tx b e n x p) \<in> set (x_trace s)"
  shows "decisions s = [Committed] \<and> hr_finished (o_status_commit (x_ops s)) \<and> \<not> hr_error (o_status_commit (x_ops s)) \<and>
    tx = x_txn_id s \<and> b = x_commit_ts s \<and> e = kMaxTimeStamp \<and> n = kEmptyTxId \<and>
    (\<exists>i < write_size s. keyed t k (write_entries s ! i) \<and> v = ws_version (snd (write_entries s ! i)) \<and>
       p = ws_record (snd (write_entries s ! i)))"
proof -
  obtain q where q: "in_phase q s" using reach_phase [OF assms(1)] by blast
  let ?c = "CommitVersion t k v tx b e n x p"
  have "?c \<in> set (map snd (x_trace s))" using assms(2) by force
  from in_phase_stage6 [OF q this] obtain i where i: "i < write_size s" "?c = commit_call_of s i" and d: "decided s"
    by (auto simp: delete_call_of_def split: prod.splits)
  from in_phase_writes [OF q i(1)] have "\<exists>t k. keyed t k (write_entries s ! i)" by (auto simp: write_ok_def)
  with i have "keyed t k (write_entries s ! i)"
    by (auto simp: commit_call_of_def keyed_def split: prod.splits)
  with i d show ?thesis
    by (auto simp: commit_call_of_def decided_def split: prod.splits intro!: exI [of _ i])
qed

theorem commit_version_after_decision_witness:
  "\<exists>s t k v tx b e n x p. exec_reach run0 s \<and> (OpPostCommitEntry 0, CommitVersion t k v tx b e n x p) \<in> set (x_trace s) \<and>
     b = x_commit_ts s \<and> e = kMaxTimeStamp"
proof -
  obtain s where s: "\<exists>t k v tx b e n x p. (OpPostCommitEntry 0, CommitVersion t k v tx b e n x p) \<in> set (x_trace s)"
    and r: "exec_reach run0 s" using commit_run_commits by blast
  then obtain t k v tx b e n x p where c: "(OpPostCommitEntry 0, CommitVersion t k v tx b e n x p) \<in> set (x_trace s)" by blast
  from commit_version_after_decision [OF r c] r c show ?thesis by blast
qed

text \<open>
  C5: A committed transaction has committed each of its writes exactly once, in the order of the write
  set, every one acknowledged, and holds no read counter any more.\<close>

theorem committed_complete:
  assumes "exec_reach s0 s" "x_finished s" "x_status s = Committed"
  shows "calls_at 6 s = map (commit_call_of s) [0..<write_size s] \<and>
    (\<forall>i < write_size s. hr_ref_cnt (en_result (o_commit_entries (x_ops s) ! i)) = 0) \<and>
    (\<forall>j < read_size s. \<not> rs_need_release (snd (read_entries s ! j)))"
proof -
  obtain p where p: "in_phase p s" using reach_phase [OF assms(1)] by blast
  have "p = Done" using in_phase_finished [OF p assms(2)] p assms(3) by (auto simp: aborted_def)
  with p show ?thesis by (auto simp: committed_def only_def commit_child_def)
qed

theorem committed_complete_witness:
  "\<exists>s. exec_reach run0 s \<and> calls_at 6 s = [commit_call_of s 0] \<and> \<not> rs_need_release (snd (read_entries s ! 0))"
proof -
  obtain s where s: "exec_reach run0 s" "x_finished s" "decisions s = [Committed]" "write_size s = 1"
    using commit_run_reach by blast
  obtain p where p: "in_phase p s" using reach_phase [OF s(1)] by blast
  have st: "x_status s = Committed"
    using in_phase_finished [OF p s(2)] in_phase_decisions [OF p] s(3) p by (auto simp: committed_def)
  note c = committed_complete [OF s(1,2) st]
  have "0 < read_size s" using in_phase_writes [OF p, of 0] s(4) by (auto simp: write_ok_def)
  with c s show ?thesis by auto
qed

text \<open>
  C6: An aborted transaction has deleted exactly the versions whose upload was accepted, has committed
  none, and holds no read counter any more.\<close>

theorem aborted_complete:
  assumes "exec_reach s0 s" "x_finished s" "x_status s = Aborted"
  shows "calls_at 6 s = map (delete_call_of s) (filter (uploaded s) [0..<write_size s]) \<and>
    (\<forall>j < read_size s. \<not> rs_need_release (snd (read_entries s ! j)))"
proof -
  obtain p where p: "in_phase p s" using reach_phase [OF assms(1)] by blast
  have "p = Undone" using in_phase_finished [OF p assms(2)] p assms(3) by (auto simp: committed_def)
  with p have a: "aborted s" by simp
  have "accepted_writes s = filter (uploaded s) [0..<write_size s]"
    using a by (auto simp: accepted_writes_def aborted_def undone_def rejected_def abort_state_def intro!: filter_cong)
  with a show ?thesis by (simp add: aborted_def undone_def)
qed

theorem aborted_complete_witness:
  "\<exists>s. exec_reach run0 s \<and> x_status s = Aborted \<and> (\<forall>j < read_size s. \<not> rs_need_release (snd (read_entries s ! j)))"
proof -
  obtain s where s: "exec_reach run0 s" "x_finished s" "decisions s = [Aborted]" using abort_run_reach by blast
  obtain p where p: "in_phase p s" using reach_phase [OF s(1)] by blast
  have st: "x_status s = Aborted"
    using in_phase_finished [OF p s(2)] in_phase_decisions [OF p] s(3) p by (auto simp: aborted_def)
  from aborted_complete [OF s(1,2) st] s st show ?thesis by auto
qed

text \<open>
  C8: The calls of a transaction on the store come in the order of the protocol: reads, uploads, commit
  timestamp, validation, log, decision, post processing, release of read counters.\<close>

theorem calls_in_protocol_order:
  assumes "exec_reach s0 s"
  shows "sorted (stages s)"
  using reach_phase [OF assms] in_phase_ordered by blast

theorem calls_in_protocol_order_witness:
  "\<exists>s. exec_reach run0 s \<and> decisions s = [Committed] \<and> sorted (stages s)"
proof -
  obtain s where s: "exec_reach run0 s" "decisions s = [Committed]" using commit_run_reach by blast
  from calls_in_protocol_order [OF s(1)] s show ?thesis by auto
qed

text \<open>
  C11: Every entry of the write set is the next version of the read entry it points to, for the same key
  of the same table, and that read entry is marked updated.\<close>

theorem write_set_well_formed:
  assumes "exec_reach s0 s" "i < write_size s"
  shows "\<exists>j t k. ws_read_entry (snd (write_entries s ! i)) = Some j \<and> j < read_size s \<and>
     keyed t k (write_entries s ! i) \<and> keyed t k (read_entries s ! j) \<and> rs_is_updated (snd (read_entries s ! j)) \<and>
     ws_version (snd (write_entries s ! i)) = rs_version (snd (read_entries s ! j)) + 1"
  using reach_phase [OF assms(1)] in_phase_writes assms(2) by (fastforce simp: write_ok_def)

theorem write_set_well_formed_witness:
  "\<exists>s j. exec_reach run0 s \<and> ws_read_entry (snd (write_entries s ! 0)) = Some j \<and>
     ws_version (snd (write_entries s ! 0)) = rs_version (snd (read_entries s ! j)) + 1"
proof -
  obtain s where s: "exec_reach run0 s" "write_size s = 1" using commit_run_reach by blast
  from write_set_well_formed [OF s(1), of 0] s show ?thesis by auto
qed

text \<open>
  C10: The execution refines the protocol: a step of the execution, a pass of \<^verbatim>\<open>MoveForward\<close>, a request
  or an answer, takes its phase to one the protocol reaches.\<close>

theorem execution_refines_protocol:
  assumes "exec_reach s0 s" "in_phase p s" "exec_step s t"
  shows "\<exists>q. in_phase q t \<and> phase_next\<^sup>*\<^sup>* p q"
  using reach_phase [OF assms(1)] step_phase [OF assms(3) _ _ assms(2)] by blast

theorem execution_refines_protocol_witness:
  "\<exists>s q. exec_reach run0 s \<and> in_phase Done s \<and> in_phase q (same_world run0 s) \<and> phase_next\<^sup>*\<^sup>* Done q"
proof -
  obtain s where s: "exec_reach run0 s" "x_finished s" "decisions s = [Committed]" using commit_run_reach by blast
  obtain p where p: "in_phase p s" using reach_phase [OF s(1)] by blast
  have "p = Done" using in_phase_finished [OF p s(2)] in_phase_decisions [OF p] s(3) by auto
  with p have d: "in_phase Done s" by simp
  from execution_refines_protocol [OF s(1) d exec_step.interfere [of s run0]] s(1) d show ?thesis by blast
qed

text \<open>
  C9: After the client's commit or abort request the transaction ends.  As long as each pass of \<^verbatim>\<open>MoveForward\<close> finds
  some outstanding operation answered there are only finitely many passes, whatever the answers are and
  whatever other executions do in between; and after any number of such passes the transaction is
  either finished, as committed or as aborted, or some operation of it is finished or becomes finished with
  one answer of the handler: it never waits for itself.
\<close>

theorem end_request_finishes:
  assumes "exec_reach s0 s" "x_vec s = []" "\<not> x_finished s" "end_request process r s" "handle_request process ds r s = Inr (f 0)"
  shows "(\<exists>n. \<not> answered_round (f n) (f (Suc n))) \<and>
    (\<forall>s'. answered_round\<^sup>*\<^sup>* (f 0) s' \<longrightarrow>
       x_finished s' \<and> x_vec s' = [] \<and> x_status s' \<in> {Committed, Aborted} \<or> \<not> x_finished s' \<and> can_go_on s')"
proof -
  from end_request_ending [OF assms] obtain p where p: "stack_ok (f 0)" "trimmed (f 0)" "in_phase p (f 0)" "ending p" by blast
  have "x_finished s' \<and> x_vec s' = [] \<and> x_status s' \<in> {Committed, Aborted} \<or> \<not> x_finished s' \<and> can_go_on s'"
    if s': "answered_round\<^sup>*\<^sup>* (f 0) s'" for s'
  proof -
    obtain q where q: "trimmed s'" "in_phase q s'" "ending q" using answered_rounds_ending [OF s' p] by blast
    have "only {} s'" if "x_finished s'"
      using q(2,3) that
      by (cases q) (auto simp: ending_def uploading_def timestamping_def running_def validating_def logging_def deciding_def
          finalizing_def rejecting_def undoing_def releasing_def committed_def aborted_def)
    with trimmed_only_none [OF q(1)] ending_goes_on [OF q(2,3)] show ?thesis by blast
  qed
  with answered_rounds_end [where f = f, OF p] show ?thesis by blast
qed

theorem end_request_finishes_witness:
  "\<exists>s1. handle_request id None 2 run0 = Inr s1 \<and> can_go_on s1 \<and> (\<exists>n :: nat. \<not> answered_round s1 s1)"
proof -
  have r: "exec_reach run0 run0" by (rule exec_reach.start [OF run0_fresh])
  have e: "end_request id 2 run0" by (simp add: end_request_def q_commit_def new_control_request_def new_op_request_def rq_set_up_def)
  obtain s1 where s1: "handle_request id None 2 run0 = Inr s1" "\<not> x_finished s1"
    by (simp add: run_steps rq_set_up_def del: rbind_eq_Inr upd_read_entry_Inr upd_write_entry_Inr)
  from end_request_finishes [OF r _ _ e, of None "\<lambda>_. s1"] s1 show ?thesis by auto
qed

section \<open>The operation stack\<close>

text \<open>
  The operation object a stack slot points to exists, and the set entries it points to are live.
\<close>

fun live_op :: "exec \<Rightarrow> op_ref \<Rightarrow> bool" where
  "live_op s OpReadOutside \<longleftrightarrow> ro_slot (o_read (x_ops s)) < read_size s"
| "live_op s (OpUploadEntry i) \<longleftrightarrow>
     i < length (o_upload_entries (x_ops s)) \<and> ue_slot (o_upload_entries (x_ops s) ! i) < write_size s"
| "live_op s (OpUpdateMaxTs i) \<longleftrightarrow> i < length (o_update_max (x_ops s)) \<and>
     um_slot (o_update_max (x_ops s) ! i) < read_size s \<and> um_index (o_update_max (x_ops s) ! i) < length (o_push (x_ops s))"
| "live_op s (OpPushLowerBound i) \<longleftrightarrow> i < length (o_push (x_ops s))"
| "live_op s (OpPostCommitEntry i) \<longleftrightarrow>
     i < length (o_commit_entries (x_ops s)) \<and> en_slot (o_commit_entries (x_ops s) ! i) < write_size s"
| "live_op s (OpPostAbortEntry i) \<longleftrightarrow>
     i < length (o_abort_entries (x_ops s)) \<and> en_slot (o_abort_entries (x_ops s) ! i) < write_size s"
| "live_op s (OpReleaseEntry i) \<longleftrightarrow>
     i < length (o_release_entries (x_ops s)) \<and> en_slot (o_release_entries (x_ops s) ! i) < read_size s"
| "live_op s _ \<longleftrightarrow> True"

lemma accepted_write: "i < length (accepted_writes s) \<Longrightarrow> accepted_writes s ! i < write_size s"
  using nth_mem [of i "accepted_writes s"] by (auto simp: accepted_writes_def)

lemma in_phase_live:
  assumes "in_phase p s" "on_stack s r"
  shows "live_op s r"
proof (cases p)
  case (Reading q)
  with assms show ?thesis by (cases r) (auto simp: reading_def only_def)
next
  case Uploading
  with assms have "r = OpUpload \<or> (\<exists>i < write_size s. r = OpUploadEntry i \<and> upload_child s i)"
    by (auto simp: uploading_def only_def)
  with assms Uploading show ?thesis by (auto simp: upload_child_def uploading_def)
next
  case Validating
  let ?n = "length (o_read_index (x_ops s))"
  have v: "validating ?n s" using assms(1) Validating by simp
  have u: "o_read_index (x_ops s) ! i < read_size s" if "i < ?n" for i
    using v that nth_mem [of i "o_read_index (x_ops s)"] by (auto simp: validating_def unwritten_reads_def)
  show ?thesis
  proof (rule validating_index [OF v assms(2)])
    fix i assume "r = OpUpdateMaxTs i" and i: "i < ?n"
    moreover have "validate_child s i" using v i by (simp add: validating_def)
    ultimately show ?thesis using v u [OF i] i by (auto simp: validating_def validate_child_def)
  qed (use v in \<open>auto simp: validating_def\<close>)
next
  case Finalizing
  with assms have "r = OpPostCommit \<or> (\<exists>i < write_size s. r = OpPostCommitEntry i \<and> commit_child s i)"
    by (auto simp: finalizing_def only_def)
  with assms Finalizing show ?thesis by (auto simp: commit_child_def finalizing_def)
next
  case Undoing
  with assms have "r = OpPostAbort \<or> (\<exists>i < length (accepted_writes s). r = OpPostAbortEntry i \<and> undo_child s i)"
    by (auto simp: undoing_def only_def)
  with assms Undoing accepted_write [of _ s] show ?thesis by (auto simp: undo_child_def undoing_def)
next
  case Releasing
  let ?n = "length (o_release_index (x_ops s))"
  have "o_release_index (x_ops s) ! i < read_size s" if "i < ?n" for i
    using assms(1) Releasing nth_mem [OF that] by (auto simp: releasing_def simp del: nth_mem)
  moreover from Releasing assms have "r = OpReleaseCounter \<or> (\<exists>i < ?n. r = OpReleaseEntry i \<and> release_child s i)"
    by (auto simp: releasing_def only_def)
  ultimately show ?thesis using assms Releasing by (auto simp: release_child_def releasing_def)
qed (use assms in \<open>auto simp: only_def timestamping_def logging_def deciding_def committed_def rejecting_def aborted_def\<close>)

text \<open>\<^verbatim>\<open>IsFinished\<close> of an operation on the stack reads only operation objects that exist.\<close>

lemma rall_total:
  assumes "\<And>x. x \<in> set xs \<Longrightarrow> \<exists>b. p x = Inr b"
  shows "\<exists>b. rall p xs = Inr b"
proof (rule exI, rule rall_pure)
  fix x assume "x \<in> set xs"
  then obtain b where "p x = Inr b" using assms by blast
  then show "p x = Inr (projr (p x))" by simp
qed

text \<open>The operations a phase can have on the stack.\<close>

fun phase_ops :: "phase \<Rightarrow> op_ref set" where
  "phase_ops (Client r) = {r}"
| "phase_ops (Reading q) = {OpReadOutside, q}"
| "phase_ops Uploading = insert OpUpload (range OpUploadEntry)"
| "phase_ops Timestamping = {OpSetCommitTs}"
| "phase_ops Validating = insert OpValidate (range OpUpdateMaxTs \<union> range OpPushLowerBound)"
| "phase_ops Logging = {OpWriteLog}"
| "phase_ops Deciding = {OpStatusCommit}"
| "phase_ops Finalizing = insert OpPostCommit (range OpPostCommitEntry)"
| "phase_ops Rejecting = {OpStatusAbort}"
| "phase_ops Undoing = insert OpPostAbort (range OpPostAbortEntry)"
| "phase_ops Releasing = insert OpReleaseCounter (range OpReleaseEntry)"
| "phase_ops _ = {}"

lemma in_phase_only:
  assumes "in_phase p s"
  shows "only (phase_ops p) s"
proof -
  have "\<exists>R. only R s \<and> R \<subseteq> phase_ops p"
  proof (cases p)
    case Uploading then show ?thesis using assms by (auto simp: uploading_def intro!: exI conjI)
  next
    case Validating then show ?thesis using assms by (auto simp: validating_def intro!: exI conjI)
  next
    case Finalizing then show ?thesis using assms by (auto simp: finalizing_def intro!: exI conjI)
  next
    case Undoing then show ?thesis using assms by (auto simp: undoing_def intro!: exI conjI)
  next
    case Releasing then show ?thesis using assms by (auto simp: releasing_def intro!: exI conjI)
  qed (use assms in \<open>auto simp: reading_def timestamping_def logging_def deciding_def committed_def rejecting_def aborted_def\<close>)
  then show ?thesis using only_mono by blast
qed

lemma in_phase_ops: "in_phase p s \<Longrightarrow> on_stack s r \<Longrightarrow> r \<in> phase_ops p"
  using in_phase_only by (auto simp: only_def)

lemma in_phase_group:
  assumes "in_phase p s" "on_stack s r"
  shows "r = OpUpload \<Longrightarrow> p = Uploading" "r = OpValidate \<Longrightarrow> p = Validating" "r = OpPostCommit \<Longrightarrow> p = Finalizing"
    "r = OpPostAbort \<Longrightarrow> p = Undoing" "r = OpReleaseCounter \<Longrightarrow> p = Releasing"
proof -
  have "r \<in> phase_ops p" by (rule in_phase_ops [OF assms])
  moreover have "p \<noteq> Client r \<and> p \<noteq> Reading r" if "r \<in> {OpUpload, OpValidate, OpPostCommit, OpPostAbort, OpReleaseCounter}"
    using assms(1) that by auto
  ultimately show "r = OpUpload \<Longrightarrow> p = Uploading" "r = OpValidate \<Longrightarrow> p = Validating" "r = OpPostCommit \<Longrightarrow> p = Finalizing"
    "r = OpPostAbort \<Longrightarrow> p = Undoing" "r = OpReleaseCounter \<Longrightarrow> p = Releasing"
    by (cases p; auto)+
qed

lemma finished_total:
  assumes "in_phase p s" "on_stack s r"
  shows "\<exists>b. op_finished r s = Inr b"
proof (cases r)
  case OpUpload
  then have "uploading (write_size s) s" using assms in_phase_group(1) [OF assms] by fastforce
  with OpUpload show ?thesis
    by (auto simp: upload_finished_def upload_entry_cascade_finished_def finished_defs uploading_def vec_at_def intro!: rall_total)
next
  case OpValidate
  then have v: "validating (length (o_read_index (x_ops s))) s" using assms in_phase_group(2) [OF assms] by fastforce
  then have "um_index (o_update_max (x_ops s) ! i) = i" if "i < length (o_read_index (x_ops s))" for i
    using that by (auto simp: validating_def validate_child_def)
  with v OpValidate show ?thesis
    by (auto simp: validate_finished_def update_max_cascade_finished_def push_cascade_finished_def finished_defs
        validating_def vec_at_def intro!: rall_total)
next
  case OpPostCommit
  then have "finalizing (write_size s) s" using assms in_phase_group(3) [OF assms] by fastforce
  with OpPostCommit show ?thesis
    by (auto simp: post_commit_finished_def commit_entry_cascade_finished_def finished_defs finalizing_def vec_at_def intro!: rall_total)
next
  case OpPostAbort
  then have "undoing (length (accepted_writes s)) s" using assms in_phase_group(4) [OF assms] by fastforce
  with OpPostAbort show ?thesis
    by (auto simp: post_abort_finished_def abort_entry_cascade_finished_def finished_defs undoing_def vec_at_def intro!: rall_total)
next
  case OpReleaseCounter
  then have "releasing (length (o_release_index (x_ops s))) s" using assms in_phase_group(5) [OF assms] by fastforce
  with OpReleaseCounter show ?thesis
    by (auto simp: release_finished_def release_entry_cascade_finished_def finished_defs releasing_def vec_at_def intro!: rall_total)
qed (use in_phase_live [OF assms] in \<open>auto simp: finished_defs vec_at_def\<close>)

text \<open>So does its \<^verbatim>\<open>IsCascadeFinished\<close>, and never before it is finished.\<close>

lemmas cascade_defs = read_outside_cascade_finished_def upload_cascade_finished_def validate_cascade_finished_def
  post_commit_cascade_finished_def post_abort_cascade_finished_def release_cascade_finished_def
  upload_entry_cascade_finished_def update_max_cascade_finished_def push_cascade_finished_def
  commit_entry_cascade_finished_def abort_entry_cascade_finished_def release_entry_cascade_finished_def
  set_commit_cascade_finished_def write_log_cascade_finished_def status_commit_cascade_finished_def
  status_abort_cascade_finished_def insert_cascade_finished_def upsert_cascade_finished_def
  update_cascade_finished_def delete_cascade_finished_def init_txn_cascade_finished_def read_ds_cascade_finished_def

lemma cascade_total:
  assumes "op_finished r s = Inr b" "live_op s r"
  shows "\<exists>c. op_cascade_finished r s = Inr c \<and> (c \<longrightarrow> b)"
  using assms by (cases r) (auto simp: cascade_defs finished_defs vec_at_def)

lemma stack_ops_once:
  assumes "distinct (stack_ops v)" "i < j" "j < length v" "v ! i = Some r"
  shows "v ! j \<noteq> Some r"
  using assms
proof (induction v arbitrary: i j)
  case (Cons a v)
  then obtain j' where j: "j = Suc j'" "j' < length v" by (cases j) auto
  show ?case
  proof (cases i)
    case 0
    with Cons.prems j have "r \<notin> set (stack_ops v)" by auto
    with j show ?thesis using nth_mem [OF j(2)] by (metis nth_Cons_Suc set_stack_ops)
  next
    case (Suc i')
    with Cons.prems j Cons.IH [of i' j'] show ?thesis by (auto split: option.splits)
  qed
qed simp

text \<open>
  C13: The operation stack is well typed: no operation is on it twice, the operation object each slot points
  to exists, the read and write entries the object points to are live, and its \<^verbatim>\<open>IsFinished\<close> and
  \<^verbatim>\<open>IsCascadeFinished\<close> return, the second never true before the first.
\<close>

theorem stack_well_typed:
  assumes "exec_reach s0 s" "i < length (x_vec s)" "x_vec s ! i = Some r"
  shows "live_op s r \<and> (\<exists>b c. op_finished r s = Inr b \<and> op_cascade_finished r s = Inr c \<and> (c \<longrightarrow> b)) \<and> (\<forall>j < length (x_vec s). x_vec s ! j = Some r \<longrightarrow> j = i)"
proof -
  obtain p where p: "in_phase p s" "stack_ok s" using reach_phase [OF assms(1)] by blast
  have on: "on_stack s r" unfolding on_stack_def using assms(2,3) nth_mem by metis
  have "j = i" if "j < length (x_vec s)" "x_vec s ! j = Some r" for j
    using stack_ops_once [of "x_vec s"] p(2) assms(2,3) that unfolding stack_ok_def by (metis linorder_neqE_nat)
  moreover obtain b where b: "op_finished r s = Inr b" using finished_total [OF p(1) on] by blast
  ultimately show ?thesis using in_phase_live [OF p(1) on] cascade_total [OF b] by blast
qed

theorem stack_well_typed_witness:
  "\<exists>s. exec_reach run0 s \<and> x_vec s ! 1 = Some OpReadOutside \<and> live_op s OpReadOutside"
proof -
  have "\<exists>s. run_events None [Request 0] run0 = Inr s \<and> length (x_vec s) = 2 \<and> x_vec s ! 1 = Some OpReadOutside"
    by (simp add: run_events_def run_steps del: rbind_eq_Inr upd_read_entry_Inr upd_write_entry_Inr)
  then obtain s where s: "exec_reach run0 s" "length (x_vec s) = 2" "x_vec s ! 1 = Some OpReadOutside"
    using run_events_reach exec_reach.start [OF run0_fresh] by meson
  from stack_well_typed [OF s(1) _ s(3)] s show ?thesis by auto
qed

end
