(* ===== verification/Serial_Order.thy ===== *)
theory Serial_Order
  imports Transaction_Properties
begin

text \<open>
  Several transactions and the store they share.  The store is the handler behind the interface
  \<^verbatim>\<open>include/versiondb/request/handler.h\<close>; what is used of it is stated as laws about the history of the calls
  it performed, taken from the comments of that file.  With them the commit timestamps are a serial order.
\<close>

section \<open>The history of the store\<close>






section \<open>What the store promises\<close>













section \<open>A committed transaction in the history\<close>











section \<open>Readers and writers\<close>













section \<open>Serial order\<close>


section \<open>Two transactions\<close>










section \<open>A transaction at the end of a version\<close>






end
