(* ===== verification/Memory_Safety.thy ===== *)
theory Memory_Safety
  imports Transaction_Properties
begin

text \<open>
  Memory safety of the commit and abort protocol: a weakest-precondition calculus for the error monad that allows the errors
  the code raises on purpose and excludes null dereferences and out-of-range accesses, applied to every operation from the
  request that ends the transaction on.
\<close>

section \<open>Errors that are not undefined behaviour of memory\<close>

text \<open>
  The errors a pass may stop with: a failed assertion, an overflow, keys of two classes compared, and the
  exceptions of the code.  What is left are null dereferences and accesses past the end of a vector.
\<close>

definition soft :: "exec_error \<Rightarrow> bool" where
  "soft e \<longleftrightarrow> e \<in> {AssertFailed, SignedOverflow, BadCast} \<union> range RuntimeError"

text \<open>The weakest precondition: the result satisfies \<open>P\<close>, or the error is soft.\<close>

definition wp :: "('a \<Rightarrow> bool) \<Rightarrow> 'a res \<Rightarrow> bool" where
  "wp P m \<longleftrightarrow> (case m of Inl e \<Rightarrow> soft e | Inr x \<Rightarrow> P x)"

named_theorems wp_simps \<open>weakest preconditions of the error monad\<close>

lemma wp_Inr [wp_simps]: "wp P (Inr x) = P x"
  by (simp add: wp_def)

lemma wp_Inl [wp_simps]: "wp P (Inl e) = soft e"
  by (simp add: wp_def)

lemma wp_rbind [wp_simps]: "wp P (rbind m f) = wp (\<lambda>x. wp P (f x)) m"
  by (auto simp: wp_def split: sum.splits)

lemma wp_vec_at [wp_simps]: "wp P (vec_at xs i) \<longleftrightarrow> i < length xs \<and> P (xs ! i)"
  by (auto simp: wp_def vec_at_def soft_def)

lemma wp_deref [wp_simps]: "wp P (deref p) \<longleftrightarrow> (\<exists>x. p = Some x \<and> P x)"
  by (auto simp: wp_def deref_def soft_def split: option.splits)

lemma wp_rassert [wp_simps]: "wp P (rassert b) \<longleftrightarrow> (b \<longrightarrow> P ())"
  by (auto simp: wp_def rassert_def soft_def)

lemma wp_i64_add [wp_simps]: "wp P (i64_add a b) \<longleftrightarrow> (i64 (a + b) \<longrightarrow> P (a + b))"
  by (auto simp: wp_def i64_add_def i64_check_def soft_def)

lemma wp_recover [wp_simps]: "wp P (recover msg)"
  by (auto simp: wp_def recover_def soft_def)

lemma wp_cases [wp_simps]:
  "wp P (if b then m else m') \<longleftrightarrow> (b \<longrightarrow> wp P m) \<and> (\<not> b \<longrightarrow> wp P m')"
  "wp P (let x = a in f x) = wp P (f a)"
  "wp P (case z of (x, y) \<Rightarrow> g x y) = wp P (g (fst z) (snd z))"
  by (simp_all add: case_prod_beta)

lemma wp_mono: "wp P m \<Longrightarrow> (\<And>x. m = Inr x \<Longrightarrow> P x \<Longrightarrow> Q x) \<Longrightarrow> wp Q m"
  by (auto simp: wp_def split: sum.splits)

lemma wp_rfold:
  assumes "I s" "\<And>x u. x \<in> set xs \<Longrightarrow> I u \<Longrightarrow> wp I (f x u)" "\<And>u. I u \<Longrightarrow> P u"
  shows "wp P (rfold f xs s)"
  using assms(1,2)
proof (induction xs arbitrary: s)
  case Nil
  then show ?case using assms(3) by (simp add: wp_simps)
next
  case (Cons x xs)
  have "wp (\<lambda>u. wp P (rfold f xs u)) (f x s)"
    by (rule wp_mono [OF Cons.prems(2) [of x s]]) (use Cons in auto)
  then show ?case by (simp add: wp_simps)
qed

section \<open>What the operations of the ending phases need\<close>

text \<open>The client's request is there and linked with the result of the execution.\<close>

definition linked :: "exec \<Rightarrow> bool" where
  "linked s \<longleftrightarrow> (\<exists>r q. x_current s = Some r \<and> w_reqs s r = Some q \<and> rq_result q \<and> res_request (x_result s) = Some r)"

abbreviation sets_fine :: "exec \<Rightarrow> bool" where
  "sets_fine s \<equiv> sets_ok (read_size s) (x_ls s)"

lemma sets_fine_read:
  assumes "sets_fine s" "j < read_size s"
  shows "j < length (read_entries s) \<and> (\<exists>t k. keyed t k (read_entries s ! j))"
  using assms by (auto simp: sets_ok_def read_ok_def pool_inv_def read_size_ls)

lemma sets_fine_write:
  assumes "sets_fine s" "i < write_size s"
  shows "i < length (write_entries s) \<and> (\<exists>j t k. ws_read_entry (snd (write_entries s ! i)) = Some j \<and> j < length (read_entries s) \<and>
    keyed t k (write_entries s ! i))"
proof -
  have "write_ok (read_size s) (x_ls s) i" using assms by (simp add: sets_ok_def write_size_ls)
  then obtain j t k where j: "ws_read_entry (snd (write_entries s ! i)) = Some j" "j < read_size s" "keyed t k (write_entries s ! i)"
    by (auto simp: write_ok_def)
  with sets_fine_read [OF assms(1) j(2)] assms show ?thesis by (auto simp: sets_ok_def pool_inv_def write_size_ls)
qed

lemma wp_slot_key [wp_simps]: "wp P (slot_key sk) \<longleftrightarrow> (\<exists>t k. keyed t k (sk, ()) \<and> P (t, k))"
  by (auto simp: slot_key_def wp_simps keyed_def)

lemma wp_upd_entries [wp_simps]:
  "wp P (upd_read_entry i f s) \<longleftrightarrow> i < length (read_entries s) \<and>
     P (s\<lparr>x_ls := (x_ls s)\<lparr>ls_read := (ls_read (x_ls s))\<lparr>pl_entries := (read_entries s)[i := f (read_entries s ! i)]\<rparr>\<rparr>\<rparr>)"
  "wp P (upd_write_entry i g s) \<longleftrightarrow> i < length (write_entries s) \<and>
     P (s\<lparr>x_ls := (x_ls s)\<lparr>ls_write := (ls_write (x_ls s))\<lparr>pl_entries := (write_entries s)[i := g (write_entries s ! i)]\<rparr>\<rparr>\<rparr>)"
  by (simp_all add: upd_read_entry_def upd_write_entry_def wp_simps)

lemma wp_upd_ops [wp_simps]:
  "wp P (upd_upload_entry i f s) \<longleftrightarrow> i < length (o_upload_entries (x_ops s)) \<and>
     P (s\<lparr>x_ops := (x_ops s)\<lparr>o_upload_entries := (o_upload_entries (x_ops s))[i := f (o_upload_entries (x_ops s) ! i)]\<rparr>\<rparr>)"
  "wp P (upd_update_max i g s) \<longleftrightarrow> i < length (o_update_max (x_ops s)) \<and>
     P (s\<lparr>x_ops := (x_ops s)\<lparr>o_update_max := (o_update_max (x_ops s))[i := g (o_update_max (x_ops s) ! i)]\<rparr>\<rparr>)"
  "wp P (upd_push i h s) \<longleftrightarrow> i < length (o_push (x_ops s)) \<and>
     P (s\<lparr>x_ops := (x_ops s)\<lparr>o_push := (o_push (x_ops s))[i := h (o_push (x_ops s) ! i)]\<rparr>\<rparr>)"
  "wp P (upd_commit_entry i e s) \<longleftrightarrow> i < length (o_commit_entries (x_ops s)) \<and>
     P (s\<lparr>x_ops := (x_ops s)\<lparr>o_commit_entries := (o_commit_entries (x_ops s))[i := e (o_commit_entries (x_ops s) ! i)]\<rparr>\<rparr>)"
  "wp P (upd_abort_entry i e s) \<longleftrightarrow> i < length (o_abort_entries (x_ops s)) \<and>
     P (s\<lparr>x_ops := (x_ops s)\<lparr>o_abort_entries := (o_abort_entries (x_ops s))[i := e (o_abort_entries (x_ops s) ! i)]\<rparr>\<rparr>)"
  "wp P (upd_release_entry i e s) \<longleftrightarrow> i < length (o_release_entries (x_ops s)) \<and>
     P (s\<lparr>x_ops := (x_ops s)\<lparr>o_release_entries := (o_release_entries (x_ops s))[i := e (o_release_entries (x_ops s) ! i)]\<rparr>\<rparr>)"
  by (simp_all add: upd_upload_entry_def upd_update_max_def upd_push_def upd_commit_entry_def upd_abort_entry_def
      upd_release_entry_def wp_simps)

section \<open>Calling an operation\<close>

fun callable :: "exec \<Rightarrow> op_ref \<Rightarrow> bool" where
  "callable s OpSetCommitTs \<longleftrightarrow> sets_fine s"
| "callable s OpValidate \<longleftrightarrow> sets_fine s \<and> set (o_read_index (x_ops s)) \<subseteq> {..<read_size s}"
| "callable s (OpPushLowerBound i) \<longleftrightarrow> i < length (o_push (x_ops s))"
| "callable s OpPostCommit \<longleftrightarrow> sets_fine s \<and> set (o_commit_index (x_ops s)) \<subseteq> {..<write_size s}"
| "callable s OpPostAbort \<longleftrightarrow> sets_fine s \<and> set (o_abort_index (x_ops s)) \<subseteq> {..<write_size s}"
| "callable s OpReleaseCounter \<longleftrightarrow> sets_fine s \<and> set (o_release_index (x_ops s)) \<subseteq> {..<read_size s}"
| "callable s r \<longleftrightarrow> r \<in> {OpWriteLog, OpStatusCommit, OpStatusAbort}"

definition grown :: "exec \<Rightarrow> exec \<Rightarrow> bool" where
  "grown s s' \<longleftrightarrow> linked s' \<and> length (x_vec s) \<le> length (x_vec s')"

lemma wp_get_time: "(\<And>t w. P (t, s\<lparr>w_time := w\<rparr>)) \<Longrightarrow> wp P (exec_get_time s)"
  by (simp add: exec_get_time_def get_time_def wp_simps)

lemma wp_key_eq [wp_simps]: "wp P (key_eq a b) \<longleftrightarrow> (\<forall>c. key_eq a b = Inr c \<longrightarrow> P c)"
  by (cases "(a, b)" rule: key_eq.cases) (auto simp: wp_simps soft_def)

lemma wp_pool_find:
  assumes "n \<le> length es" "\<And>x. P x"
  shows "wp P (pool_find es t k n)"
  using assms(1)
  by (induction n) (auto simp: wp_simps assms(2) slot_matches_def split: prod.splits)

lemma wp_proposed: "sets_fine s \<Longrightarrow> (\<And>ts. P ts) \<Longrightarrow> wp P (proposed_commit_ts s)"
proof -
  assume s: "sets_fine s" and P: "\<And>ts. P ts"
  have w: "pl_pop (ls_write (x_ls s)) \<le> length (write_entries s)" using s by (simp add: sets_ok_def pool_inv_def)
  have "wp (\<lambda>_. True) (propose_step s j a)" if "j < read_size s" for j a
    using sets_fine_read [OF s that] w
    by (auto simp: propose_step_def wp_simps exec_find_in_write_set_def ls_find_in_write_set_def find_in_write_set_def keyed_def
        split: prod.splits intro!: wp_pool_find)
  then have "wp P (rfold (propose_step s) [0..<read_size s] m)" for m
    by (intro wp_rfold [where I = "\<lambda>_. True"]) (auto simp: P)
  then show ?thesis by (simp add: proposed_commit_ts_def wp_simps)
qed

lemma set_commit_call_safe:
  assumes "sets_fine s" "linked s"
  shows "wp (grown s) (set_commit_call s)"
proof -
  have "sets_fine (s\<lparr>w_time := w, x_commit_local := t, x_txn_entry := e\<rparr>)" for w t e
    using assms(1) by (simp add: read_size_def)
  then show ?thesis
    using assms(2)
    by (auto simp: set_commit_call_def reset_time_def set_commit_ts_def set_time_def wp_simps linked_def grown_def log_call_def
        intro!: wp_get_time wp_proposed)
qed

lemma children_safe:
  assumes "linked s1" "x_ls s1 = x_ls s" "x_vec s1 = x_vec s" "n \<le> len s1"
    and "\<And>i u. i < n \<Longrightarrow> x_ls u = x_ls s \<Longrightarrow> linked u \<Longrightarrow> n \<le> len u \<Longrightarrow>
      wp (\<lambda>v. linked v \<and> x_ls v = x_ls u \<and> (len u :: nat) \<le> len v \<and> length (x_vec u) \<le> length (x_vec v)) (f i u)"
  shows "wp (grown s) (rfold f [0..<n] s1)"
proof (rule wp_rfold [where I = "\<lambda>u. linked u \<and> x_ls u = x_ls s \<and> n \<le> len u \<and> length (x_vec s) \<le> length (x_vec u)"])
  fix i u assume i: "i \<in> set [0..<n]" and u: "linked u \<and> x_ls u = x_ls s \<and> n \<le> len u \<and> length (x_vec s) \<le> length (x_vec u)"
  show "wp (\<lambda>u. linked u \<and> x_ls u = x_ls s \<and> n \<le> len u \<and> length (x_vec s) \<le> length (x_vec u)) (f i u)"
    by (rule wp_mono [OF assms(5) [of i u]]) (use i u in auto)
qed (use assms(1-4) in \<open>auto simp: grown_def\<close>)

lemma validate_call_safe:
  assumes "callable s OpValidate" "linked s"
  shows "wp (grown s) (validate_call s)"
  unfolding validate_call_def Let_def
proof (rule children_safe [where len = "\<lambda>u. length (o_update_max (x_ops u))"])
  fix i u assume i: "i < length (o_read_index (x_ops s))" and u: "x_ls u = x_ls s" "linked u"
    and len: "length (o_read_index (x_ops s)) \<le> length (o_update_max (x_ops u))"
  have "o_read_index (x_ops s) ! i < read_size s" "sets_fine s" using assms(1) nth_mem [OF i] by auto
  with sets_fine_read have "o_read_index (x_ops s) ! i < length (read_entries s) \<and> (\<exists>t k. keyed t k (read_entries s ! (o_read_index (x_ops s) ! i)))"
    by blast
  with u i len show "wp (\<lambda>v. linked v \<and> x_ls v = x_ls u \<and> length (o_update_max (x_ops u)) \<le> length (o_update_max (x_ops v)) \<and>
      length (x_vec u) \<le> length (x_vec v)) (rbind (update_max_reset i (o_read_index (x_ops s) ! i) i u) (invoke (OpUpdateMaxTs i) (update_max_call i)))"
    by (auto simp: wp_simps update_max_reset_def invoke_def update_max_call_def base_defs linked_def keyed_def)
qed (use assms(2) in \<open>auto simp: linked_def\<close>)

lemma post_commit_call_safe:
  assumes "callable s OpPostCommit" "linked s"
  shows "wp (grown s) (post_commit_call s)"
  unfolding post_commit_call_def Let_def
proof (rule children_safe [where len = "\<lambda>u. length (o_commit_entries (x_ops u))"])
  fix i u assume i: "i < length (o_commit_index (x_ops s))" and u: "x_ls u = x_ls s" "linked u"
    and len: "length (o_commit_index (x_ops s)) \<le> length (o_commit_entries (x_ops u))"
  have "o_commit_index (x_ops s) ! i < write_size s" "sets_fine s" using assms(1) nth_mem [OF i] by auto
  with sets_fine_write have "o_commit_index (x_ops s) ! i < length (write_entries s) \<and> (\<exists>t k. keyed t k (write_entries s ! (o_commit_index (x_ops s) ! i)))"
    by blast
  with u i len show "wp (\<lambda>v. linked v \<and> x_ls v = x_ls u \<and> length (o_commit_entries (x_ops u)) \<le> length (o_commit_entries (x_ops v)) \<and>
      length (x_vec u) \<le> length (x_vec v)) (rbind (commit_entry_reset i (o_commit_index (x_ops s) ! i) u) (invoke (OpPostCommitEntry i) (commit_entry_call i)))"
    by (auto simp: wp_simps commit_entry_reset_def invoke_def commit_entry_call_def base_defs linked_def keyed_def)
qed (use assms(2) in \<open>auto simp: linked_def\<close>)

lemma post_abort_call_safe:
  assumes "callable s OpPostAbort" "linked s"
  shows "wp (grown s) (post_abort_call s)"
  unfolding post_abort_call_def Let_def
proof (rule children_safe [where len = "\<lambda>u. length (o_abort_entries (x_ops u))"])
  fix i u assume i: "i < length (o_abort_index (x_ops s))" and u: "x_ls u = x_ls s" "linked u"
    and len: "length (o_abort_index (x_ops s)) \<le> length (o_abort_entries (x_ops u))"
  have "o_abort_index (x_ops s) ! i < write_size s" "sets_fine s" using assms(1) nth_mem [OF i] by auto
  with sets_fine_write have "o_abort_index (x_ops s) ! i < length (write_entries s) \<and> (\<exists>t k. keyed t k (write_entries s ! (o_abort_index (x_ops s) ! i)))"
    by blast
  with u i len show "wp (\<lambda>v. linked v \<and> x_ls v = x_ls u \<and> length (o_abort_entries (x_ops u)) \<le> length (o_abort_entries (x_ops v)) \<and>
      length (x_vec u) \<le> length (x_vec v)) (rbind (abort_entry_reset i (o_abort_index (x_ops s) ! i) u) (invoke (OpPostAbortEntry i) (abort_entry_call i)))"
    by (auto simp: wp_simps abort_entry_reset_def invoke_def abort_entry_call_def base_defs linked_def keyed_def)
qed (use assms(2) in \<open>auto simp: linked_def\<close>)

lemma release_call_safe:
  assumes "callable s OpReleaseCounter" "linked s"
  shows "wp (grown s) (release_call s)"
  unfolding release_call_def Let_def
proof (rule children_safe [where len = "\<lambda>u. length (o_release_entries (x_ops u))"])
  fix i u assume i: "i < length (o_release_index (x_ops s))" and u: "x_ls u = x_ls s" "linked u"
    and len: "length (o_release_index (x_ops s)) \<le> length (o_release_entries (x_ops u))"
  have "o_release_index (x_ops s) ! i < read_size s" "sets_fine s" using assms(1) nth_mem [OF i] by auto
  with sets_fine_read have "o_release_index (x_ops s) ! i < length (read_entries s) \<and> (\<exists>t k. keyed t k (read_entries s ! (o_release_index (x_ops s) ! i)))"
    by blast
  with u i len show "wp (\<lambda>v. linked v \<and> x_ls v = x_ls u \<and> length (o_release_entries (x_ops u)) \<le> length (o_release_entries (x_ops v)) \<and>
      length (x_vec u) \<le> length (x_vec v)) (rbind (release_entry_reset i (o_release_index (x_ops s) ! i) u) (invoke (OpReleaseEntry i) (release_entry_call i)))"
    by (auto simp: wp_simps release_entry_reset_def invoke_def release_entry_call_def base_defs linked_def keyed_def)
qed (use assms(2) in \<open>auto simp: linked_def\<close>)

lemma calls_grown:
  "linked s \<Longrightarrow> grown s (log_call r c s)"
  "linked s \<Longrightarrow> grown s (s\<lparr>x_ops := ops\<rparr>)"
  "linked s \<Longrightarrow> grown s (log_call r c (s\<lparr>x_txn_entry := e\<rparr>))"
  by (simp_all add: grown_def linked_def log_call_def)

lemma op_call_safe:
  assumes "callable s r" "linked s"
  shows "wp (grown s) (op_call r s)"
proof -
  let ?s = "set_move_to_next r False s"
  have f: "x_vec ?s = x_vec s" "x_ls ?s = x_ls s" "linked ?s" "o_push (x_ops ?s) = o_push (x_ops s)"
      "o_read_index (x_ops ?s) = o_read_index (x_ops s)" "o_commit_index (x_ops ?s) = o_commit_index (x_ops s)"
      "o_abort_index (x_ops ?s) = o_abort_index (x_ops s)" "o_release_index (x_ops ?s) = o_release_index (x_ops s)"
    using assms(2) by (simp_all add: base_defs linked_def)
  have c: "callable ?s r" using assms(1) f by (cases r) (simp_all add: read_size_def write_size_def)
  have g: "grown ?s = grown s" by (simp add: fun_eq_iff grown_def f(1))
  have "wp (grown ?s) (op_call_impl r ?s)"
    using c f(3)
    by (cases r)
      (simp_all add: set_commit_call_safe validate_call_safe post_commit_call_safe post_abort_call_safe release_call_safe
        push_call_def write_log_call_def write_log_call_at_def status_commit_call_def status_abort_call_def wp_simps calls_grown)
  then show ?thesis by (simp add: op_call_def g)
qed

section \<open>Moving on from an operation\<close>

definition client_ops :: "op_ref set" where
  "client_ops = {OpReadOutside, OpInsert, OpUpdate, OpUpsert, OpDelete, OpInitTxn, OpReadDs}"

definition next_ok :: "op_ref option \<times> exec \<Rightarrow> bool" where
  "next_ok z \<longleftrightarrow> linked (snd z) \<and> (\<forall>a. fst z = Some a \<longrightarrow> callable (snd z) a)"

lemma wp_on_status:
  assumes "linked s" "\<And>v. linked v \<Longrightarrow> x_ls v = x_ls s \<Longrightarrow> P v"
  shows "wp P (on_result (result_set_status st) s)"
proof -
  obtain r q where r: "x_current s = Some r" "w_reqs s r = Some q" "rq_result q" "res_request (x_result s) = Some r"
    using assms(1) by (auto simp: linked_def)
  have "P (s\<lparr>w_reqs := (w_reqs s)(r \<mapsto> rq_notify q), x_result := (x_result s)\<lparr>res_status := st\<rparr>\<rparr>)"
    by (rule assms(2)) (use r in \<open>simp_all add: linked_def rq_notify_def\<close>)
  with r show ?thesis
    by (simp add: on_result_def current_result_def result_set_status_def result_set_finished_def upd_request_def wp_simps)
qed

lemma wp_collect:
  assumes "n \<le> length xs" "\<And>is. set is \<subseteq> {..<n} \<Longrightarrow> P is"
  shows "wp P (rfold (\<lambda>i is. rbind (vec_at xs i) (\<lambda>x. Inr (if c x then is @ [i] else is))) [0..<n] [])"
  by (rule wp_rfold [where I = "\<lambda>is. set is \<subseteq> {..<n}"]) (use assms in \<open>auto simp: wp_simps\<close>)

lemma wp_slots:
  assumes "sets_fine s" "linked s" "\<And>is. set is \<subseteq> {..<write_size s} \<Longrightarrow> P is"
  shows "wp P (post_process_slots s)"
proof -
  have "write_size s \<le> length (write_entries s)" using assms(1) by (simp add: sets_ok_def pool_inv_def write_size_ls)
  from wp_collect [OF this, of P "\<lambda>x. ws_need_post_processing (snd x)"] assms(3) show ?thesis
    by (simp add: post_process_slots_def case_prod_unfold)
qed

lemma wp_reads:
  assumes "sets_fine s" "\<And>is. set is \<subseteq> {..<read_size s} \<Longrightarrow> P is"
  shows "wp P (rfold (\<lambda>i is. rbind (vec_at (read_entries s) i) (\<lambda>(_, e). Inr (if c e then is @ [i] else is))) [0..<read_size s] [])"
proof -
  have "read_size s \<le> length (read_entries s)" using assms(1) by (simp add: sets_ok_def pool_inv_def read_size_ls)
  from wp_collect [OF this, of P "\<lambda>x. c (snd x)"] assms(2) show ?thesis by (simp add: case_prod_unfold)
qed

lemma sizes_ls: "x_ls v = x_ls s \<Longrightarrow> read_size v = read_size s \<and> write_size v = write_size s"
  by (simp add: read_size_def write_size_def)

lemma set_commit_next_safe:
  assumes "sets_fine s" "linked s"
  shows "wp next_ok (set_commit_next s)"
proof -
  have "wp next_ok (rbind (set_commit_ts c s) (\<lambda>s1. rbind (validate_reset s1) (\<lambda>s2. Inr (Some OpValidate, s2))))" for c
  proof -
    have "wp (\<lambda>v. next_ok (Some OpValidate, v)) (validate_reset u)" if u: "x_ls u = x_ls s" "linked u" for u
      unfolding validate_reset_def wp_rbind
      by (rule wp_reads) (use assms(1) u sizes_ls [OF u(1)] in \<open>auto simp: wp_simps next_ok_def linked_def read_size_def\<close>)
    then show ?thesis using assms(2) by (simp add: set_commit_ts_def set_time_def wp_simps linked_def)
  qed
  then show ?thesis using assms by (simp add: set_commit_next_def Let_def wp_simps next_ok_def base_defs linked_def)
qed

lemma status_next_safe:
  assumes "sets_fine s" "linked s"
  shows "wp next_ok (status_commit_next s)" "wp next_ok (status_abort_next s)"
proof -
  have s: "wp (\<lambda>v. next_ok (Some OpPostCommit, v)) (post_commit_reset u)" "wp (\<lambda>v. next_ok (Some OpPostAbort, v)) (post_abort_reset u)"
    if u: "x_ls u = x_ls s" "linked u" for u
    unfolding post_commit_reset_def post_abort_reset_def wp_rbind
    by (rule wp_slots; use assms(1) u sizes_ls [OF u(1)] in \<open>auto simp: wp_simps next_ok_def linked_def write_size_def read_size_def\<close>)+
  show "wp next_ok (status_commit_next s)" "wp next_ok (status_abort_next s)"
    unfolding status_commit_next_def status_abort_next_def wp_simps
    using s assms(2) by (auto intro!: wp_on_status simp: wp_simps)
qed

lemma post_abort_next_safe: "sets_fine s \<Longrightarrow> linked s \<Longrightarrow> wp next_ok (post_abort_next s)"
  unfolding post_abort_next_def release_reset_def wp_simps
  by (rule wp_reads) (auto simp: wp_simps next_ok_def linked_def read_size_def)

lemma next_impl_safe:
  assumes "sets_fine s" "live_op s r" "linked s" "r \<notin> client_ops"
  shows "wp next_ok (op_next_impl r s)"
proof -
  have pools: "read_size s \<le> length (read_entries s)" "write_size s \<le> length (write_entries s)"
    using assms(1) by (auto simp: sets_ok_def pool_inv_def read_size_ls write_size_ls)
  note w = sets_fine_write [OF assms(1)]
  show ?thesis
  proof (cases r)
    case (OpPostCommitEntry i)
    with assms(2,3) w [of "en_slot (o_commit_entries (x_ops s) ! i)"] show ?thesis
      by (auto simp: commit_entry_next_def wp_simps next_ok_def op_done_def base_defs linked_def)
  next
    case (OpPostAbortEntry i)
    with assms(2,3) w [of "en_slot (o_abort_entries (x_ops s) ! i)"] show ?thesis
      by (auto simp: abort_entry_next_def wp_simps next_ok_def op_done_def base_defs linked_def)
  qed (use assms pools in \<open>auto simp: client_ops_def set_commit_next_safe status_next_safe post_abort_next_safe
      upload_next_def upload_entry_next_def update_max_next_def push_reset_def push_next_def validate_next_def write_log_next_def
      post_commit_next_def release_next_def release_entry_next_def set_commit_reset_def write_log_reset_def status_commit_reset_def
      wp_simps next_ok_def base_defs linked_def read_size_def write_size_def Let_def\<close>)
qed

section \<open>A pass of MoveForward\<close>

lemma ending_sets_fine:
  assumes "in_phase p s" "ending p"
  shows "sets_fine s"
  using assms
  by (cases p)
    (auto simp: ending_def uploading_def timestamping_def running_def validating_def logging_def deciding_def finalizing_def
      decided_def committed_def rejecting_def undoing_def rejected_def releasing_def undone_def aborted_def abort_state_def)

lemma ending_no_client: "in_phase p s \<Longrightarrow> ending p \<Longrightarrow> on_stack s r \<Longrightarrow> r \<notin> client_ops"
  using in_phase_ops [of p s r] by (cases p) (auto simp: ending_def client_ops_def)

lemma op_next_safe:
  assumes "in_phase p s" "ending p" "on_stack s r" "linked s"
  shows "wp next_ok (op_next r s)"
proof -
  let ?s = "set_has_next r True (set_move_to_next r True s)"
  have f: "x_ls ?s = x_ls s" "linked ?s" using assms(4) by (simp_all add: base_defs linked_def)
  have "live_op ?s r" using in_phase_live [OF assms(1,3)] f(1)
    by (cases r) (simp_all add: base_defs read_size_def write_size_def)
  moreover have "sets_fine ?s" using ending_sets_fine [OF assms(1,2)] f(1) by (simp add: read_size_def)
  ultimately have "wp next_ok (op_next_impl r ?s)"
    using next_impl_safe f(2) ending_no_client [OF assms(1-3)] by blast
  then show ?thesis by (simp add: op_next_def)
qed

lemma mf_loop_safe:
  assumes "i \<le> length (x_vec s)" "stack_ok s" "in_phase p s" "ending p" "linked s"
  shows "wp linked (mf_loop i s)"
  using assms
proof (induction i arbitrary: s p)
  case 0
  then show ?case by (simp add: wp_simps)
next
  case (Suc i)
  then have i: "i < length (x_vec s)" by simp
  show ?case
  proof (cases "x_vec s ! i")
    case None
    with Suc i show ?thesis by (simp add: wp_simps)
  next
    case (Some r)
    have on: "on_stack s r" unfolding on_stack_def using i Some nth_mem by fastforce
    obtain fin where fin: "op_finished r s = Inr fin" using finished_total [OF Suc.prems(3) on] by blast
    show ?thesis
    proof (cases fin)
      case False
      with Suc i Some fin show ?thesis by (simp add: wp_simps)
    next
      case True
      let ?v = "\<lambda>q s1. s1\<lparr>x_vec := (x_vec s1)[i := q]\<rparr>"
      let ?rest = "\<lambda>(q, s1). case q of Some r' \<Rightarrow> rbind (op_call r' (?v q s1)) (mf_loop i)
          | None \<Rightarrow> if is_aborting (?v q s1) then Inr (?v q s1) else mf_loop i (?v q s1)"
      have "wp (\<lambda>z. wp linked (?rest z)) (op_next r s)"
      proof (rule wp_mono [OF op_next_safe [OF Suc.prems(3,4) on Suc.prems(5)]])
        fix z assume z: "op_next r s = Inr z" "next_ok z"
        obtain q s1 where q: "z = (q, s1)" by fastforce
        have len: "length (x_vec (?v q s1)) = length (x_vec s)" using op_next_vec z(1) q by simp
        have link: "linked (?v q s1)" using z(2) q by (simp add: next_ok_def linked_def)
        show "wp linked (?rest z)"
        proof (cases q)
          case None
          have "popped i r s (?v q s1)" using i Some fin True z(1) q None by (auto simp: popped_def)
          from popped_phase [OF Suc.prems(2,3) this]
          consider "is_aborting (?v q s1)"
            | p' where "\<not> is_aborting (?v q s1)" "stack_ok (?v q s1)" "in_phase p' (?v q s1)" "p' = p \<or> phase_next p p'" by blast
          then show ?thesis
          proof cases
            case 1
            with link show ?thesis by (simp add: q None wp_simps)
          next
            case (2 p')
            have "ending p'" using 2(4) Suc.prems(4) phase_next_rank by blast
            with Suc.IH [OF _ 2(2,3) _ link] i len 2(1) show ?thesis by (simp add: q None)
          qed
        next
          case (Some r')
          have c: "callable (?v q s1) r'" using z(2) q Some by (cases r') (simp_all add: next_ok_def read_size_def write_size_def)
          have "wp (\<lambda>u. wp linked (mf_loop i u)) (op_call r' (?v q s1))"
          proof (rule wp_mono [OF op_call_safe [OF c link]])
            fix u assume u: "op_call r' (?v q s1) = Inr u" "grown (?v q s1) u"
            have "replaced i r r' s u" using i \<open>x_vec s ! i = Some r\<close> fin True z(1) q Some u(1) by (auto simp: replaced_def)
            from replaced_phase [OF Suc.prems(2,3) this] obtain p' where p': "stack_ok u" "in_phase p' u" "p' = p \<or> phase_next p p'"
              by blast
            have "ending p'" using p'(3) Suc.prems(4) phase_next_rank by blast
            with Suc.IH [OF _ p'(1,2)] u(2) i len show "wp linked (mf_loop i u)" by (simp add: grown_def)
          qed
          then show ?thesis by (simp add: q Some wp_simps)
        qed
      qed
      then show ?thesis using i Some fin True by (simp add: wp_simps case_prod_unfold Let_def)
    qed
  qed
qed

lemma move_forward_safe:
  assumes "stack_ok s" "in_phase p s" "ending p" "linked s"
  shows "wp (\<lambda>_. True) (move_forward s)"
proof -
  have a: "wp (\<lambda>_. True) (exec_abort u)" if "linked u" for u
    using that
    by (auto simp: exec_abort_def exec_result_reset_def result_reset_def upd_request_def exec_call_def op_call_def status_abort_call_def
        clean_stack_def linked_def wp_simps)
  have "wp (\<lambda>s1. wp (\<lambda>_. True) (if is_aborting s1 then exec_abort (set_txn_status Aborted s1)
      else Inr (s1\<lparr>x_vec := trim_stack (x_vec s1)\<rparr>))) (mf_loop (length (x_vec s)) s)"
    by (rule wp_mono [OF mf_loop_safe [OF order_refl assms]])
      (auto simp: wp_simps linked_def set_txn_status_def intro!: a)
  then show ?thesis by (simp add: move_forward_def wp_simps)
qed

lemma ending_le: "p \<le> q \<Longrightarrow> ending p \<Longrightarrow> ending q"
  by (erule phase_le_keeps) (use phase_next_rank in blast)+

text \<open>
  C12: From the commit or abort request on no pass of \<^verbatim>\<open>MoveForward\<close> dereferences a null pointer or accesses a vector past its
  end, whatever the handler answers and however the executions interleave, as long as the client keeps its request: a
  pass that stops does so with an assertion on an answer, an overflow of a timestamp, the comparison of keys of
  different classes, or the exception the code throws when a call that must not fail has failed.
\<close>

theorem ending_pass_memory_safe:
  assumes "exec_reach s0 s" "x_vec s = []" "\<not> x_finished s" "end_request process r s" "handle_request process ds r s = Inr s1"
    and "exec_step\<^sup>*\<^sup>* s1 u" "linked u" "move_forward u = Inl e"
  shows "e \<in> {AssertFailed, SignedOverflow, BadCast} \<union> range RuntimeError"
proof -
  from end_request_ending [OF assms(1-5)] obtain p where p: "stack_ok s1" "trimmed s1" "in_phase p s1" "ending p" by blast
  from steps_phase [OF assms(6) p(1-3)] obtain q where q: "stack_ok u" "in_phase q u" "p \<le> q" by blast
  from move_forward_safe [OF q(1,2) ending_le [OF q(3) p(4)] assms(7)] assms(8) show ?thesis
    by (simp add: wp_simps soft_def)
qed

lemma run_events_steps: "run_events ds es s = Inr s' \<Longrightarrow> exec_step\<^sup>*\<^sup>* s s'"
  unfolding run_events_def
  by (rule rfold_invariant [where P = "\<lambda>u. exec_step\<^sup>*\<^sup>* s u"]) (auto intro: rtranclp.rtrancl_into_rtrancl run_event_step)

text \<open>The store refuses the commit timestamp, and then the status update of the abort fails.\<close>

theorem ending_pass_memory_safe_witness:
  "\<exists>s1 u. handle_request id None 2 run0 = Inr s1 \<and> exec_step\<^sup>*\<^sup>* s1 u \<and>
     (\<exists>e. move_forward u = Inl e \<and> e \<in> {AssertFailed, SignedOverflow, BadCast} \<union> range RuntimeError)"
proof -
  let ?es = "[Pass, Reply OpSetCommitTs ReplyError, Pass, Reply OpStatusAbort ReplyError]"
  have r: "exec_reach run0 run0" by (rule exec_reach.start [OF run0_fresh])
  have q: "end_request id 2 run0" by (simp add: end_request_def q_commit_def new_control_request_def new_op_request_def rq_set_up_def)
  have "\<exists>s1 u e. handle_request id None 2 run0 = Inr s1 \<and> run_events None ?es s1 = Inr u \<and> linked u \<and> move_forward u = Inl e"
    by (simp add: run_events_def run_steps rq_set_up_def linked_def del: rbind_eq_Inr upd_read_entry_Inr upd_write_entry_Inr)
  then obtain s1 u e where s1: "handle_request id None 2 run0 = Inr s1" and u: "exec_step\<^sup>*\<^sup>* s1 u" "linked u" "move_forward u = Inl e"
    using run_events_steps by meson
  from ending_pass_memory_safe [OF r _ _ q s1 u] s1 u show ?thesis by auto
qed

end
