(* ===== verification/Data_Properties.thy ===== *)
theory Data_Properties
  imports Sample_Runs
begin

text \<open>
  Properties of the data structures: the byte encodings of keys, records, set keys and write-set entries,
  the searches of the read and write set, transaction ids, the local clock and the request queue.
\<close>

section \<open>Serialisation\<close>

text \<open>
  C39: Writing any number of keys one after the other into a buffer that has room for their announced
  lengths, and reading them back with objects of the same class, gives the keys again and the offset
  right behind them.
\<close>

theorem key_batch_roundtrip:
  assumes "\<forall>x \<in> set xs. same_class k x \<and> key_fits x"
    and "off + sum_list (map key_serialize_length xs) \<le> length buf" "length buf < 2 ^ 64"
  shows "rbind (ser_all key_serialize xs buf off) (\<lambda>(b, _). de_all (key_deserialize k) (length xs) b off) =
    Inr (xs, off + sum_list (map key_serialize_length xs))"
  by (rule key_codec.batch_roundtrip) (use assms in \<open>auto simp: key_like_def\<close>)

theorem key_batch_roundtrip_witness:
  "rbind (ser_all key_serialize [StringKey ''ab'', StringKey ''''] (replicate 12 0) 1)
     (\<lambda>(b, _). de_all (key_deserialize (StringKey ''x'')) (length [StringKey ''ab'', StringKey '''']) b 1) =
   Inr ([StringKey ''ab'', StringKey ''''], 11)"
  by (rule trans [OF key_batch_roundtrip]) (auto simp: string_fits_def)

text \<open>
  The same for records: a batch of records written one after the other reads back as the same
  records.
\<close>

lemma record_batch_roundtrip:
  assumes "\<forall>x \<in> set xs. same_rec_class r x \<and> record_fits x"
    and "off + sum_list (map record_serialize_length xs) \<le> length buf" "length buf < 2 ^ 64"
  shows "rbind (ser_all record_serialize xs buf off) (\<lambda>(b, _). de_all (record_deserialize r) (length xs) b off) =
    Inr (xs, off + sum_list (map record_serialize_length xs))"
  by (rule record_codec.batch_roundtrip) (use assms in \<open>auto simp: record_like_def\<close>)

text \<open>
  A \<^verbatim>\<open>SetKey\<close> is written in exactly the bytes its \<^verbatim>\<open>Serialize_Length\<close> announces, and reading a string
  and then a key at the same offset gives its table name and its key.
\<close>

lemma set_key_roundtrip:
  assumes "set_key_serialize_length sk = Inr n" "sk_table sk = Some t" "sk_key sk = Some k"
    and "string_fits t" "key_fits k" "same_class k0 k"
    and "off + n \<le> length buf" "length buf < 2 ^ 64"
  shows "rbind (set_key_serialize sk buf off) (\<lambda>(b, end). rbind (string_get b off) (\<lambda>(t', o1).
      rbind (key_deserialize k0 b o1) (\<lambda>(k', o2). Inr (t', k', end, o2)))) = Inr (t, k, off + n, off + n)"
proof -
  have n: "n = length t + 4 + key_serialize_length k"
    using assms(1-3) by (simp add: set_key_serialize_length_def INT_LENGTH_def)
  let ?b1 = "take off buf @ string_enc t @ drop (off + (length t + 4)) buf"
  let ?o1 = "off + (length t + 4)"
  have l: "length ?b1 = length buf" using assms(7) n by simp
  have s1: "string_put t buf off = Inr (?b1, ?o1)"
    using assms(4,7,8) n by (intro string_put_enc) auto
  let ?b2 = "take ?o1 ?b1 @ key_enc k @ drop (?o1 + key_serialize_length k) ?b1"
  have s2: "key_serialize k ?b1 ?o1 = Inr (?b2, off + n)"
    using key_encoder.ser_enc [OF assms(5), of ?o1 ?b1] assms(7,8) l n by simp
  have b2: "?b2 = take off buf @ string_enc t @ (key_enc k @ drop (?o1 + key_serialize_length k) ?b1)"
    using assms(7) n by simp
  have g1: "string_get ?b2 off = Inr (t, ?o1)"
    using string_get_enc [OF assms(4), of "take off buf" "key_enc k @ drop (?o1 + key_serialize_length k) ?b1"]
      assms(5,7,8) n key_encoder.len_enc [OF assms(5)] unfolding b2 by simp
  have g2: "key_deserialize k0 ?b2 ?o1 = Inr (k, off + n)"
    using key_codec.de_enc [of k0 k "take ?o1 ?b1" "drop (?o1 + key_serialize_length k) ?b1"] assms(5-8) n l
    by (simp add: key_like_def)
  show ?thesis using s1 s2 g1 g2 assms(2,3) by (simp add: set_key_serialize_def)
qed

text \<open>
  C40: \<^verbatim>\<open>WriteSetEntry::SerializeToBuffer\<close> writes four bytes more than \<^verbatim>\<open>WriteSetEntry::Serialize_Length\<close>
  announces: the length counts the 64-bit version as an \<^verbatim>\<open>int\<close>.
\<close>

theorem write_entry_length_short:
  assumes "rec_at h (ws_record e) = Inr r" "record_fits r"
    and "off + record_serialize_length r + 9 \<le> length buf" "length buf < 2 ^ 64"
  shows "\<exists>n b. write_entry_serialize_length h e = Inr n \<and> write_entry_serialize h e buf off = Inr (b, off + n + 4)"
proof -
  have "write_entry_serialize_length h e = Inr (record_serialize_length r + 5)"
    using assms(1) by (simp add: write_entry_serialize_length_def INT_LENGTH_def BOOL_LENGTH_def)
  moreover have "off + (record_serialize_length r + 9) = off + (record_serialize_length r + 5) + 4" by simp
  ultimately show ?thesis
    using write_entry_serialize_enc [OF assms(1,2), of off buf] assms(3,4) by (simp add: add_ac)
qed

theorem write_entry_length_short_witness:
  "\<exists>n b. write_entry_serialize_length (\<lambda>_. Some (IntRecord 1)) (new_write_set_entry\<lparr>ws_record := Some 0\<rparr>) = Inr n \<and>
     write_entry_serialize (\<lambda>_. Some (IntRecord 1)) (new_write_set_entry\<lparr>ws_record := Some 0\<rparr>) (replicate 17 0) 0 = Inr (b, n + 4)"
  using write_entry_length_short [of "\<lambda>_. Some (IntRecord 1)" "new_write_set_entry\<lparr>ws_record := Some 0\<rparr>" "IntRecord 1" 0
      "replicate 17 0"]
  by (simp add: rec_at_def i64_defs INT64_T_LENGTH_def)

section \<open>The sets\<close>

text \<open>
  C37: After a write of key \<open>k\<close> of table \<open>t\<close>, a search of the write set gives the new entry for that key
  and, for any other key, the newest entry it had before.
\<close>

theorem write_set_search:
  assumes "pool_inv p" "new_write_slot t k version d rec re npp p = Inr (i, p')"
    and "find_in_write_set p' t' k' = Inr r"
  shows "pool_inv p' \<and> r = (if t' = t \<and> k' = k then Some i else newest (live p) t' k')"
proof -
  let ?a = "(t, k, version, d, rec, re, npp)"
  have a: "add_write ?a p = Inr (i, p')" using assms(2) by simp
  obtain s where s: "pool_inv p'" using write_set.add_Inr [OF assms(1) a] by blast
  have f: "keyed t' k' e \<longleftrightarrow> t' = t \<and> k' = k" if "write_slot_filled ?a e" for e
    using that by (cases e) (auto simp: keyed_def)
  show ?thesis
  proof (cases "t' = t \<and> k' = k")
    case True
    with write_set.find_added [OF assms(1) a _ assms(3)] f s show ?thesis by auto
  next
    case False
    with write_set.find_other_added [OF assms(1) a _ assms(3)] f s show ?thesis by auto
  qed
qed

theorem write_set_search_witness:
  "\<exists>i p'. new_write_slot ''t'' (IntKey 1) 1 False None None False (new_pool new_write_set_entry 0) = Inr (i, p') \<and>
     find_in_write_set p' ''t'' (IntKey 1) = Inr (Some i)"
proof -
  let ?p = "new_pool new_write_set_entry 0"
  obtain p' s where p: "new_write_slot ''t'' (IntKey 1) 1 False None None False ?p = Inr (pl_pop ?p, p')" "pool_inv p'"
      "live p' = live ?p @ [s]" "write_slot_filled (''t'', IntKey 1, 1, False, None, None, False) s"
    using new_write_slot_ok [of ?p] by (metis pool_inv_new)
  have "live ?p = []" by (simp add: live_def new_pool_def)
  with p(3,4) have "\<forall>s \<in> set (live p'). comparable ''t'' (IntKey 1) s"
    by (cases s) (auto simp: comparable_def intro!: exI [of _ "''t''"] exI [of _ "IntKey 1"])
  then obtain r where r: "find_in_write_set p' ''t'' (IntKey 1) = Inr r" using write_set.find_total p(2) by blast
  from write_set_search [OF _ p(1) r] r p(1) show ?thesis by auto
qed

text \<open>
  C38: A search of the read set on slots whose keys can be compared returns, and gives the newest entry
  of the key; taking back the newest slot restores the set before it was handed out.
\<close>

theorem read_set_search:
  assumes "pool_inv p" "\<forall>s \<in> set (live p). comparable t k s"
  shows "find_in_read_set p t k = Inr (newest (live p) t k) \<and>
    (\<forall>i p'. new_read_slot p = Inr (i, p') \<longrightarrow> i = length (live p) \<and> live (pool_release p') = live p)"
  using read_set.find_total [OF assms] read_set.add_release [OF assms(1)] read_set.add_Inr [OF assms(1)]
  by blast

theorem read_set_search_witness:
  "find_in_read_set (new_pool new_read_set_entry 2) ''t'' (IntKey 1) = Inr None \<and>
   live (pool_release (snd (projr (new_read_slot (new_pool new_read_set_entry 2))))) = []"
proof -
  let ?p = "new_pool new_read_set_entry 2"
  have l: "live ?p = []" by (simp add: live_def new_pool_def)
  obtain p' s where p': "new_read_slot ?p = Inr (pl_pop ?p, p')" using new_read_slot_ok [of ?p] by auto
  from read_set_search [of ?p "''t''" "IntKey 1"] l p' show ?thesis by auto
qed

section \<open>Identifiers and time\<close>

text \<open>
  C34: The id generators of two executors of one factory never give the same id, and one generator
  gives no id twice before it has given a whole interval of them.
\<close>

theorem txn_ids_unique:
  assumes "0 < count" "count \<le> INT64_MAX" "new_id_gen_factory count = Inr f"
    and "0 \<le> a" "a < b" "b < count"
    and "get_txn_id_generator f a = Inr g" "get_txn_id_generator f b = Inr h"
    and "gen_ids generate_id m g = Inr (is, g')" "gen_ids generate_id n h = Inr (js, h')"
  shows "set is \<inter> set js = {} \<and> (int m \<le> igf_interval f \<longrightarrow> distinct is)"
proof -
  note ok = get_txn_id_generator_ok [OF assms(1,3) _ _ assms(2)]
  have g: "id_gen_inv g" "ig_start g = igf_interval f * a" "ig_end g = igf_interval f * (a + 1)"
    using ok [of a] assms(4-7) by auto
  have h: "id_gen_inv h" "ig_start h = igf_interval f * b"
    using ok [of b] assms(4-6,8) by auto
  have size: "id_gen_size g = igf_interval f" using g by (simp add: id_gen_size_def distrib_left)
  have pos: "0 < igf_interval f" using simple_ids.size_pos [OF g(1)] size by simp
  have "igf_interval f * (a + 1) \<le> igf_interval f * b" using assms(5) pos by (intro mult_left_mono) auto
  then have sep: "ig_start g + id_gen_size g \<le> ig_start h" using g(2) h(2) size by (simp add: distrib_left)
  have "i < j" if "i \<in> set is" "j \<in> set js" for i j
    using simple_ids.gen_ids_in_range [OF g(1) assms(9) that(1)]
      simple_ids.gen_ids_in_range [OF h(1) assms(10) that(2)] sep by simp
  then have "set is \<inter> set js = {}" by fastforce
  then show ?thesis using simple_ids.gen_ids_distinct [OF g(1) assms(9)] size by simp
qed

theorem txn_ids_unique_witness:
  "\<exists>f g h is js g' h'. new_id_gen_factory 4 = Inr f \<and> get_txn_id_generator f 1 = Inr g \<and> get_txn_id_generator f 3 = Inr h \<and>
     gen_ids generate_id 2 g = Inr (is, g') \<and> gen_ids generate_id 3 h = Inr (js, h') \<and> set is \<inter> set js = {} \<and> distinct is"
proof -
  obtain f where f: "new_id_gen_factory 4 = Inr f" "2 \<le> igf_interval f"
    by (simp add: new_id_gen_factory_def INT64_MAX_def)
  obtain g where g: "get_txn_id_generator f 1 = Inr g" "id_gen_inv g"
    using get_txn_id_generator_ok [OF _ f(1), of 1] by (auto simp: INT64_MAX_def)
  obtain h where h: "get_txn_id_generator f 3 = Inr h" "id_gen_inv h"
    using get_txn_id_generator_ok [OF _ f(1), of 3] by (auto simp: INT64_MAX_def)
  obtain is' g' where i: "gen_ids generate_id 2 g = Inr (is', g')" using simple_ids.gen_ids_ok [OF g(2), of 2] by blast
  obtain js h' where j: "gen_ids generate_id 3 h = Inr (js, h')" using simple_ids.gen_ids_ok [OF h(2), of 3] by blast
  have "set is' \<inter> set js = {} \<and> (int 2 \<le> igf_interval f \<longrightarrow> distinct is')"
    by (rule txn_ids_unique [OF _ _ f(1) _ _ _ g(1) h(1) i j]) (auto simp: INT64_MAX_def)
  with f g h i j show ?thesis by auto
qed

text \<open>
  C35: Once a commit timestamp was given to the time provider, every time it hands out later is at
  least that timestamp, whatever the system clock does.
\<close>

theorem time_after_commit:
  assumes "time_provider_inv tp" "set_time t tp = Inr tp1" "clock_run get_time set_time ops tp1 = Inr (ts, tp2)" "u \<in> set ts"
  shows "t \<le> u"
  using assms by (rule local_clock.after_put)

theorem time_after_commit_witness:
  "\<exists>tp1 tp2 u. set_time 500 (new_local_time_provider 3) = Inr tp1 \<and>
     clock_run get_time set_time [GetTime 1] tp1 = Inr ([u], tp2) \<and> 500 \<le> u"
proof -
  have i: "time_provider_inv (new_local_time_provider 3)" by (rule new_local_time_provider_inv)
  have s: "set_time 500 (new_local_time_provider 3) = Inr \<lparr>tp_time_value = 500, tp_count = 0\<rparr>"
    by (simp add: set_time_def new_local_time_provider_def i64_add_def i64_check_def i64_defs)
  have r: "clock_run get_time set_time [GetTime 1] \<lparr>tp_time_value = 500, tp_count = 0\<rparr> =
      Inr ([500], \<lparr>tp_time_value = 500, tp_count = 1\<rparr>)"
    by (simp add: get_time_def TIME_PROVIDER_INTERVAL_def i64_add_def i64_check_def i64_defs Let_def)
  from time_after_commit [OF i s r, of 500] s r show ?thesis by auto
qed



section \<open>Requests\<close>

text \<open>The requests pushed to a freshly reset transaction are handed out one by one in the order they were pushed.\<close>

lemma requests_in_order:
  assumes "n \<le> length rs"
  shows "fst (draw n (fold push_request rs (reset_txn_request q))) = map Some (take n rs) \<and>
    fst (current_request (snd (draw (length rs) (fold push_request rs (reset_txn_request q))))) = None"
proof -
  let ?q = "fold push_request rs (reset_txn_request q)"
  have q: "tr_queue ?q = rs" "tr_current ?q = 0" by (simp_all add: fold_push_request reset_txn_request_def)
  show ?thesis
    using draw_in_order [of ?q n] draw_in_order [of ?q "length rs"] q assms
    by (simp add: current_request_def)
qed

end
