(* ===== verification/Client_Properties.thy ===== *)
theory Client_Properties
  imports Sample_Runs
begin

text \<open>
  What the operations of a client do: the version a read takes, the commit timestamp that is proposed,
  and what update, delete, insert and upsert leave in the write set and tell the client.
\<close>

section \<open>Visibility\<close>

abbreviation shown :: "version_entry \<Rightarrow> bool" where
  "shown v \<equiv> \<not> ve_is_deleted v \<or> ve_version v > 0"

text \<open>
  C15: Of the two newest versions of a key a read takes the newer one if it is committed, that is, has an end
  timestamp, otherwise the older one if there is one; a deleted version counts only if it is not the
  pseudo version of a key that never existed.  The order of the two in the answer does not matter.
\<close>

theorem visible_version_spec:
  assumes "ve_version a > ve_version b"
    and "ve_end_ts a = kDefaultEndTs \<Longrightarrow> ve_version b \<noteq> kDefaultVersion \<Longrightarrow> ve_begin_ts b \<noteq> kDefaultBeginTs"
  defines "committed_newer \<equiv> ve_end_ts a \<noteq> kDefaultEndTs"
  shows "pick_visible_version [a, b] =
      Inr (if committed_newer then if shown a then Some 0 else None
           else if ve_version b \<noteq> kDefaultVersion \<and> shown b then Some 1 else None)
    \<and> pick_visible_version [b, a] =
      Inr (if committed_newer then if shown a then Some 1 else None
           else if ve_version b \<noteq> kDefaultVersion \<and> shown b then Some 0 else None)"
  using assms by (auto simp: pick_visible_version_def internal_pick_visible_def rassert_def Let_def)

theorem visible_version_spec_witness:
  "pick_visible_version [version_of 4 9 kDefaultBeginTs kDefaultEndTs, version_of 3 kEmptyTxId 10 kMaxTimeStamp] = Inr (Some 1)"
proof -
  let ?a = "version_of 4 9 kDefaultBeginTs kDefaultEndTs" and ?b = "version_of 3 kEmptyTxId 10 kMaxTimeStamp"
  have v: "ve_version ?a = 4" "ve_version ?b = 3" "ve_end_ts ?a = kDefaultEndTs" "ve_begin_ts ?b = 10" "\<not> ve_is_deleted ?b"
    by (simp_all add: version_of_def)
  from visible_version_spec [of ?b ?a] v show ?thesis by (simp add: version_constants)
qed

section \<open>The proposed commit timestamp\<close>

definition sane_ts :: "int \<Rightarrow> bool" where
  "sane_ts x \<longleftrightarrow> - 1 \<le> x \<and> x < 2 ^ 62"

text \<open>The lower bound read slot \<open>j\<close> puts on the commit timestamp.\<close>

definition read_bound :: "exec \<Rightarrow> nat \<Rightarrow> int" where
  "read_bound s j =
     (case exec_find_in_write_set s (the (sk_table (fst (read_entries s ! j)))) (the (sk_key (fst (read_entries s ! j)))) of
        Inr (Some _) \<Rightarrow> rs_begin_ts (snd (read_entries s ! j)) + 1
      | _ \<Rightarrow> rs_begin_ts (snd (read_entries s ! j)))"

text \<open>Every entry of the read set can be looked up in the write set.\<close>

definition searchable :: "exec \<Rightarrow> bool" where
  "searchable s \<longleftrightarrow> pool_inv (ls_read (x_ls s)) \<and> pool_inv (ls_write (x_ls s)) \<and>
     (\<forall>j < read_size s. \<exists>t k. keyed t k (read_entries s ! j) \<and> (\<forall>w \<in> set (live (ls_write (x_ls s))). comparable t k w))"

lemma sane_i64 [simp]: "sane_ts x \<Longrightarrow> i64 (x + 1)" "sane_ts x \<Longrightarrow> i64 x"
  by (auto simp: sane_ts_def i64_defs)

lemma propose_step_ok:
  assumes "searchable s" "j < read_size s" "sane_ts (rs_begin_ts (snd (read_entries s ! j)))"
  shows "propose_step s j a = Inr (max a (read_bound s j))"
proof -
  obtain t k where k: "keyed t k (read_entries s ! j)" "\<forall>w \<in> set (live (ls_write (x_ls s))). comparable t k w"
    using assms(1,2) by (auto simp: searchable_def)
  obtain sk e where e: "read_entries s ! j = (sk, e)" by fastforce
  have len: "j < length (read_entries s)"
    using assms(1,2) by (auto simp: searchable_def pool_inv_def read_size_def ls_read_size_def)
  have w: "exec_find_in_write_set s t k = Inr (newest (live (ls_write (x_ls s))) t k)"
    using assms(1) write_set.find_total [OF _ k(2)]
    by (auto simp: searchable_def exec_find_in_write_set_def ls_find_in_write_set_def)
  have i: "i64 (rs_begin_ts e + 1)" using assms(3) e by simp
  show ?thesis
    using k(1) e len w i
    by (cases "newest (live (ls_write (x_ls s))) t k")
      (auto simp: propose_step_def vec_at_def slot_key_def keyed_def read_bound_def i64_add_def i64_check_def)
qed

lemma rfold_max:
  fixes g :: "nat \<Rightarrow> int"
  assumes "\<And>j a. j \<in> set js \<Longrightarrow> f j a = Inr (max a (g j))"
  shows "\<exists>m. rfold f js a = Inr m \<and> a \<le> m \<and> (\<forall>j \<in> set js. g j \<le> m) \<and> (m = a \<or> (\<exists>j \<in> set js. m = g j))"
  using assms
proof (induction js arbitrary: a)
  case (Cons j js)
  have "\<exists>m. rfold f js (max a (g j)) = Inr m \<and> max a (g j) \<le> m \<and> (\<forall>j \<in> set js. g j \<le> m) \<and>
      (m = max a (g j) \<or> (\<exists>j \<in> set js. m = g j))"
    by (rule Cons.IH) (simp add: Cons.prems)
  then obtain m where m: "rfold f js (max a (g j)) = Inr m" "max a (g j) \<le> m" "\<forall>j \<in> set js. g j \<le> m"
      "m = max a (g j) \<or> (\<exists>j \<in> set js. m = g j)" by blast
  then have "m = a \<or> m = g j \<or> (\<exists>j \<in> set js. m = g j)" by (auto simp: max_def split: if_splits)
  with m Cons.prems show ?case by auto
qed simp

lemma proposed_commit_ts_ok:
  assumes "searchable s" "\<forall>j < read_size s. sane_ts (rs_begin_ts (snd (read_entries s ! j)))"
    and "sane_ts (x_max_writers s)"
  shows "\<exists>ts. proposed_commit_ts s = Inr ts \<and> x_max_writers s < ts \<and> x_commit_local s \<le> ts \<and>
    (\<forall>j < read_size s. read_bound s j \<le> ts) \<and>
    (ts = x_max_writers s + 1 \<or> ts = x_commit_local s \<or> (\<exists>j < read_size s. ts = read_bound s j))"
proof -
  have "propose_step s j a = Inr (max a (read_bound s j))" if "j \<in> set [0..<read_size s]" for j a
    using that assms by (intro propose_step_ok) auto
  from rfold_max [of "[0..<read_size s]" "propose_step s" "read_bound s" "max (x_max_writers s + 1) (x_commit_local s)", OF this]
  obtain ts where ts: "rfold (propose_step s) [0..<read_size s] (max (x_max_writers s + 1) (x_commit_local s)) = Inr ts"
      "max (x_max_writers s + 1) (x_commit_local s) \<le> ts" "\<forall>j < read_size s. read_bound s j \<le> ts"
      "ts = max (x_max_writers s + 1) (x_commit_local s) \<or> (\<exists>j < read_size s. ts = read_bound s j)"
    by (simp only: atLeast0LessThan lessThan_iff set_upt Ball_def Bex_def atLeastLessThan_iff le0 simp_thms) blast
  have "proposed_commit_ts s = Inr ts"
    using ts(1) assms(3) by (simp add: proposed_commit_ts_def i64_add_def i64_check_def)
  moreover have "ts = x_max_writers s + 1 \<or> ts = x_commit_local s \<or> (\<exists>j < read_size s. ts = read_bound s j)"
    using ts(4) by (auto simp: max_def split: if_splits)
  ultimately show ?thesis using ts(2,3) by auto
qed

lemma reset_time_ok:
  assumes "time_provider_inv (w_time s)" "sane_ts (tp_time_value (w_time s))" "sane_ts (w_now s)"
  shows "\<exists>t tp e. reset_time s = Inr (s\<lparr>w_time := tp, x_commit_local := t, x_txn_entry := e\<rparr>) \<and>
    time_provider_inv tp \<and> i64 (tp_time_value tp + tp_count tp) \<and> tp_time_value (w_time s) \<le> t \<and>
    te_extension e = te_extension (x_txn_entry s)"
proof -
  have "\<exists>t tp. get_time (w_now s) (w_time s) = Inr (t, tp) \<and> i64 (tp_time_value tp + tp_count tp) \<and> time_provider_inv tp \<and>
      tp_time_value (w_time s) \<le> t"
    using assms
    by (auto simp: get_time_def time_provider_inv_def TIME_PROVIDER_INTERVAL_def sane_ts_def i64_add_def i64_check_def
        i64_defs Let_def)
  then obtain t tp where t: "get_time (w_now s) (w_time s) = Inr (t, tp)" "i64 (tp_time_value tp + tp_count tp)"
      "time_provider_inv tp" "tp_time_value (w_time s) \<le> t" by blast
  let ?e = "txn_entry_reset_bound t (x_txn_entry s)"
  have "reset_time s = Inr (s\<lparr>w_time := tp, x_commit_local := t, x_txn_entry := ?e\<rparr>)"
    using t(1) by (simp add: reset_time_def exec_get_time_def)
  moreover have "te_extension ?e = te_extension (x_txn_entry s)" by (simp add: txn_entry_reset_bound_def)
  ultimately show ?thesis using t(2-4) by blast
qed

text \<open>
  C14: The commit timestamp proposed to the store is above the timestamp of every transaction whose write
  was overwritten, not below the local time, not below the begin of any version read and above the begin
  of those that were overwritten, and it is the smallest such time; it is the one call made, and the
  execution remembers it.
\<close>

theorem proposed_timestamp:
  assumes "searchable s" "\<forall>j < read_size s. sane_ts (rs_begin_ts (snd (read_entries s ! j)))" "sane_ts (x_max_writers s)"
    and "time_provider_inv (w_time s)" "sane_ts (tp_time_value (w_time s))" "sane_ts (w_now s)"
  shows "\<exists>s' ts. set_commit_call s = Inr s' \<and> x_commit_ts s' = ts \<and>
    x_trace s' = x_trace s @ [(OpSetCommitTs, SetCommitTimestamp (x_txn_id s) ts (te_extension (x_txn_entry s)))] \<and>
    x_max_writers s < ts \<and> x_commit_local s' \<le> ts \<and> (\<forall>j < read_size s. read_bound s j \<le> ts) \<and>
    (ts = x_max_writers s + 1 \<or> ts = x_commit_local s' \<or> (\<exists>j < read_size s. ts = read_bound s j))"
proof -
  obtain t tp e where r: "reset_time s = Inr (s\<lparr>w_time := tp, x_commit_local := t, x_txn_entry := e\<rparr>)"
      "time_provider_inv tp" "i64 (tp_time_value tp + tp_count tp)" "te_extension e = te_extension (x_txn_entry s)"
    using reset_time_ok [OF assms(4-6)] by blast
  let ?s = "s\<lparr>w_time := tp, x_commit_local := t, x_txn_entry := e\<rparr>"
  have b: "read_bound ?s j = read_bound s j" for j
    by (auto simp: read_bound_def exec_find_in_write_set_def split: sum.split option.split)
  have n: "read_size ?s = read_size s" by (simp add: read_size_def)
  have "searchable ?s" using assms(1) by (simp add: searchable_def read_size_def)
  from proposed_commit_ts_ok [OF this] assms(2,3) obtain ts where ts: "proposed_commit_ts ?s = Inr ts"
      "x_max_writers s < ts" "t \<le> ts" "\<forall>j < read_size s. read_bound s j \<le> ts"
      "ts = x_max_writers s + 1 \<or> ts = t \<or> (\<exists>j < read_size s. ts = read_bound s j)"
    by (auto simp: b n)
  obtain tp2 where "set_time ts tp = Inr tp2"
    using r(3) by (simp add: set_time_def i64_add_def i64_check_def)
  then have "set_commit_call s = Inr (log_call OpSetCommitTs
      (SetCommitTimestamp (x_txn_id s) ts (te_extension e)) (?s\<lparr>x_commit_ts := ts, w_time := tp2\<rparr>))"
    using r(1) ts(1) by (simp add: set_commit_call_def set_commit_ts_def)
  with ts r(4) show ?thesis by (simp add: log_call_def)
qed

theorem proposed_timestamp_witness:
  "\<exists>s'. set_commit_call run0 = Inr s' \<and> (x_commit_ts s' = 0 \<or> x_commit_ts s' = x_commit_local s')"
proof -
  have z: "read_size run0 = 0" "searchable run0"
    by (simp_all add: searchable_def read_size_def ls_read_size_def new_local_state_def new_pool_def pool_inv_def)
  obtain s' where "set_commit_call run0 = Inr s'" "x_commit_ts s' = 0 \<or> x_commit_ts s' = x_commit_local s'"
    using proposed_timestamp [OF z(2)] z(1)
    by (auto simp: sane_ts_def time_provider_inv_def new_local_time_provider_def TIME_PROVIDER_INTERVAL_def)
  then show ?thesis by blast
qed

section \<open>The client's writes\<close>

text \<open>The current request of an execution exists, and the result of the execution answers it.\<close>

definition answering :: "req_id \<Rightarrow> exec \<Rightarrow> bool" where
  "answering r s \<longleftrightarrow> x_current s = Some r \<and> res_request (x_result s) = Some r \<and>
     (\<exists>q. w_reqs s r = Some q \<and> rq_result q)"

definition answered :: "req_id \<Rightarrow> exec \<Rightarrow> bool" where
  "answered r s \<longleftrightarrow> (\<exists>q. w_reqs s r = Some q \<and> rq_wait_returns q)"

lemma exec_result_reset_ok:
  assumes "x_current s = Some r" "w_reqs s r = Some q"
  shows "exec_result_reset rec s = Inr (s\<lparr>w_reqs := (w_reqs s)(r \<mapsto> rq_set_result q),
    x_result := (x_result s)\<lparr>res_record := rec, res_request := Some r, res_is_deleted := False, res_is_null := False, res_is_error := False,
            res_status := Ongoing\<rparr>\<rparr>)"
  using assms by (simp add: exec_result_reset_def result_reset_def upd_request_def)

lemma on_result_finished_ok:
  assumes "answering r s"
  shows "\<exists>m. on_result_finished s = Inr (s\<lparr>w_reqs := m\<rparr>) \<and> answered r (s\<lparr>w_reqs := m\<rparr>)"
proof -
  obtain q where q: "x_current s = Some r" "res_request (x_result s) = Some r" "w_reqs s r = Some q" "rq_result q"
    using assms by (auto simp: answering_def)
  let ?m = "(w_reqs s)(r \<mapsto> rq_notify q)"
  have "on_result_finished s = Inr (s\<lparr>w_reqs := ?m\<rparr>)"
    using q by (simp add: on_result_finished_def current_result_def result_set_finished_def upd_request_def del: rbind_eq_Inr)
  moreover have "answered r (s\<lparr>w_reqs := ?m\<rparr>)" by (simp add: answered_def rq_wait_returns_def rq_notify_def)
  ultimately show ?thesis by blast
qed

lemma on_result_error_ok:
  assumes "answering r s"
  shows "\<exists>m. on_result result_set_error s = Inr (s\<lparr>w_reqs := m, x_result := (x_result s)\<lparr>res_is_error := True\<rparr>\<rparr>) \<and>
    answered r (s\<lparr>w_reqs := m, x_result := (x_result s)\<lparr>res_is_error := True\<rparr>\<rparr>)"
proof -
  obtain q where q: "x_current s = Some r" "res_request (x_result s) = Some r" "w_reqs s r = Some q" "rq_result q"
    using assms by (auto simp: answering_def)
  let ?m = "(w_reqs s)(r \<mapsto> rq_notify q)"
  have "on_result result_set_error s = Inr (s\<lparr>w_reqs := ?m, x_result := (x_result s)\<lparr>res_is_error := True\<rparr>\<rparr>)"
    using q by (simp add: on_result_def current_result_def result_set_error_def result_set_finished_def upd_request_def Let_def
        del: rbind_eq_Inr)
  moreover have "answered r (s\<lparr>w_reqs := ?m, x_result := (x_result s)\<lparr>res_is_error := True\<rparr>\<rparr>)"
    by (simp add: answered_def rq_wait_returns_def rq_notify_def)
  ultimately show ?thesis by blast
qed

text \<open>What a write over read entry \<open>j\<close> leaves: the next version of it as the newest write.\<close>

definition wrote :: "nat \<Rightarrow> table_name \<Rightarrow> key \<Rightarrow> bool \<Rightarrow> rec_ptr \<Rightarrow> exec \<Rightarrow> exec \<Rightarrow> bool" where
  "wrote j t k d rec s s' \<longleftrightarrow>
     read_entries s' = (read_entries s)[j := (fst (read_entries s ! j), (snd (read_entries s ! j))\<lparr>rs_is_updated := True\<rparr>)] \<and>
     (\<exists>w. live (ls_write (x_ls s')) = live (ls_write (x_ls s)) @ [w] \<and>
       write_slot_filled (t, k, rs_version (snd (read_entries s ! j)) + 1, d, rec, Some j, False) w)"

definition refused :: "exec \<Rightarrow> exec \<Rightarrow> bool" where
  "refused s s' \<longleftrightarrow> x_ls s' = x_ls s \<and> res_is_error (x_result s')"

lemma write_over_ok:
  assumes "answering r s" "pool_inv (ls_write (x_ls s))" "j < length (read_entries s)"
    and "i64 (rs_version (snd (read_entries s ! j)) + 1)"
  shows "\<exists>s'. write_over j t k d rec s = Inr s' \<and> wrote j t k d rec s s' \<and> answered r s' \<and> res_is_error (x_result s') = res_is_error (x_result s)"
proof -
  let ?e = "read_entries s ! j"
  let ?v = "rs_version (snd ?e) + 1"
  define e' where "e' = (fst ?e, (snd ?e)\<lparr>rs_is_updated := True\<rparr>)"
  define ls where "ls = put_read j e' (x_ls s)"
  have lw: "ls_write ls = ls_write (x_ls s)" by (simp add: ls_def put_read_def)
  have lr: "pl_entries (ls_read ls) = (read_entries s)[j := e']" by (simp add: ls_def put_read_def)
  obtain i p w where p: "new_write_slot t k ?v d rec (Some j) False (ls_write (x_ls s)) = Inr (i, p)"
      "live p = live (ls_write (x_ls s)) @ [w]" "write_slot_filled (t, k, ?v, d, rec, Some j, False) w"
    using new_write_slot_ok [OF assms(2)] by blast
  define s2 where "s2 = s\<lparr>x_ls := ls\<lparr>ls_write := p\<rparr>\<rparr>"
  have "answering r s2" using assms(1) by (simp add: answering_def s2_def)
  from on_result_finished_ok [OF this] obtain m where m: "on_result_finished s2 = Inr (s2\<lparr>w_reqs := m\<rparr>)"
      "answered r (s2\<lparr>w_reqs := m\<rparr>)" by blast
  have u: "upd_read_entry j (\<lambda>(sk, e). (sk, e\<lparr>rs_is_updated := True\<rparr>)) s = Inr (s\<lparr>x_ls := ls\<rparr>)"
    using assms(3) by (simp add: upd_read_entry_def vec_at_def e'_def ls_def put_read_def case_prod_beta Let_def)
  have ins: "exec_insert_write_set t k ?v d rec (Some j) (s\<lparr>x_ls := ls\<rparr>) = Inr s2"
    using p(1) lw by (simp add: exec_insert_write_set_def ls_insert_write_set_def s2_def)
  have va: "vec_at (read_entries s) j = Inr ?e" using assms(3) by (simp add: vec_at_def)
  have "i64_add (rs_version (snd ?e)) 1 = Inr ?v" using assms(4) by (simp add: i64_add_def i64_check_def)
  with va u ins m(1) have "write_over j t k d rec s = Inr (s2\<lparr>w_reqs := m\<rparr>)"
    by (simp add: write_over_def case_prod_beta del: vec_at_eq_Inr rbind_eq_Inr upd_read_entry_Inr i64_add_eq_Inr)
  moreover have "wrote j t k d rec s (s2\<lparr>w_reqs := m\<rparr>)"
    using p(2,3) lr by (simp add: wrote_def s2_def e'_def)
  ultimately show ?thesis using m(2) by (auto simp: s2_def)
qed

text \<open>An entry point of the client on a request that exists.\<close>

definition ready :: "req_id \<Rightarrow> exec \<Rightarrow> bool" where
  "ready r s \<longleftrightarrow> x_current s = Some r \<and> w_reqs s r \<noteq> None \<and> pool_inv (ls_write (x_ls s)) \<and> pool_inv (ls_read (x_ls s)) \<and>
     (\<forall>e \<in> set (live (ls_read (x_ls s))). i64 (rs_version (snd e) + 1))"

lemma exec_result_reset_answering:
  assumes "ready r s"
  shows "\<exists>s1. exec_result_reset rec s = Inr s1 \<and> answering r s1 \<and> ready r s1 \<and> x_ls s1 = x_ls s \<and> x_ops s1 = x_ops s \<and>
    x_vec s1 = x_vec s \<and> res_record (x_result s1) = rec \<and> \<not> res_is_error (x_result s1)"
proof -
  obtain q where q: "x_current s = Some r" "w_reqs s r = Some q" using assms by (auto simp: ready_def)
  show ?thesis
    unfolding exec_result_reset_ok [OF q] using q assms
    by (auto simp: answering_def ready_def rq_set_result_def)
qed

lemma find_read_slot:
  assumes "ready r s" "exec_find_in_read_set s t k = Inr (Some j)"
  shows "j < length (read_entries s)" "i64 (rs_version (snd (read_entries s ! j)) + 1)" "keyed t k (read_entries s ! j)"
proof -
  have j: "j < length (live (ls_read (x_ls s)))" "keyed t k (live (ls_read (x_ls s)) ! j)"
    using read_set.find_in_range [of "ls_read (x_ls s)" t k j] assms(2)
    by (auto simp: exec_find_in_read_set_def ls_find_in_read_set_def)
  have p: "pool_inv (ls_read (x_ls s))" using assms(1) by (simp add: ready_def)
  with j(1) have lt: "j < pl_pop (ls_read (x_ls s))" by simp
  with p show "j < length (read_entries s)" by (simp add: pool_inv_def)
  have e: "live (ls_read (x_ls s)) ! j = read_entries s ! j" using lt by (simp add: live_def)
  then show "keyed t k (read_entries s ! j)" using j(2) by simp
  have "read_entries s ! j \<in> set (live (ls_read (x_ls s)))" using nth_mem [OF j(1)] e by simp
  then show "i64 (rs_version (snd (read_entries s ! j)) + 1)" using assms(1) by (auto simp: ready_def)
qed


text \<open>A state for the examples: request 0 is current, version 7 of key 4 was read.\<close>

definition read_state :: exec where
  "read_state = run0\<lparr>x_current := Some 0, x_ls := \<lparr>ls_read = \<lparr>pl_entries =
     [(\<lparr>sk_table = Some ''t'', sk_key = Some (IntKey 4)\<rparr>, new_read_set_entry\<lparr>rs_version := 7, rs_is_deleted := False\<rparr>)],
     pl_capacity = 1, pl_pop = 1\<rparr>, ls_write = new_pool new_write_set_entry 0\<rparr>\<rparr>"

lemma read_state_ready: "ready 0 read_state"
  by (simp add: read_state_def ready_def pool_inv_def new_pool_def live_def i64_defs)

lemma read_state_find:
  "exec_find_in_read_set read_state ''t'' (IntKey 4) = Inr (Some 0)"
  "exec_find_in_write_set read_state ''t'' (IntKey 4) = Inr None"
  by (simp_all add: read_state_def exec_find_in_read_set_def ls_find_in_read_set_def find_in_read_set_def
      exec_find_in_write_set_def ls_find_in_write_set_def find_in_write_set_def new_pool_def slot_matches_def rassert_def
      vec_at_def del: rbind_eq_Inr)

lemma read_state_entry:
  "snd (read_entries read_state ! 0) = new_read_set_entry\<lparr>rs_version := 7, rs_is_deleted := False\<rparr>"
  "live (ls_write (x_ls read_state)) = []"
  by (simp_all add: read_state_def new_pool_def live_def)




lemma delete_call_spec:
  assumes "ready r s" "answering r s" "\<not> res_is_error (x_result s)"
    and "kv_table (o_delete (x_ops s)) = t" "kv_key (o_delete (x_ops s)) = Some k"
    and "exec_find_in_write_set s t k = Inr w" "exec_find_in_read_set s t k = Inr found"
  shows "\<exists>s'. delete_call s = Inr s' \<and> answered r s' \<and>
    (case w of
       Some i \<Rightarrow> if ws_is_deleted (snd (write_entries s ! i)) then refused s s'
                else ls_read (x_ls s') = ls_read (x_ls s) \<and> write_entries s' = (write_entries s)[i :=
                  (fst (write_entries s ! i), (snd (write_entries s ! i))\<lparr>ws_is_deleted := True, ws_record := None\<rparr>)]
     | None \<Rightarrow> (case found of
         Some j \<Rightarrow> if rs_is_deleted (snd (read_entries s ! j)) then refused s s' else wrote j t k True None s s'
       | None \<Rightarrow> refused s s'))"
proof (cases w)
  case (Some i)
  have p: "pool_inv (ls_write (x_ls s))" using assms(1) by (simp add: ready_def)
  have "i < length (live (ls_write (x_ls s)))"
    using write_set.find_in_range [of "ls_write (x_ls s)" t k i] assms(6) Some
    by (auto simp: exec_find_in_write_set_def ls_find_in_write_set_def)
  with p have i: "i < length (write_entries s)" by (simp add: pool_inv_def)
  let ?e = "write_entries s ! i"
  let ?f = "\<lambda>(sk, w). (sk, w\<lparr>ws_is_deleted := True, ws_record := None\<rparr>)"
  define s2 where "s2 = s\<lparr>x_ls := (x_ls s)\<lparr>ls_write := (ls_write (x_ls s))\<lparr>pl_entries := (write_entries s)[i := ?f ?e]\<rparr>\<rparr>\<rparr>"
  have va: "vec_at (write_entries s) i = Inr ?e" using i by (simp add: vec_at_def)
  have u: "upd_write_entry i ?f s = Inr s2"
    using va by (simp add: upd_write_entry_def s2_def Let_def del: rbind_eq_Inr vec_at_eq_Inr)
  have d: "delete_call s = (if ws_is_deleted (snd ?e) then on_result result_set_error s else rbind (upd_write_entry i ?f s) on_result_finished)"
    using Some va assms(4-7)
    by (simp add: delete_call_def case_prod_beta Let_def del: rbind_eq_Inr vec_at_eq_Inr upd_write_entry_Inr)
  have "answering r s2" using assms(2) by (simp add: answering_def s2_def)
  from on_result_finished_ok [OF this] obtain m where m: "on_result_finished s2 = Inr (s2\<lparr>w_reqs := m\<rparr>)"
      "answered r (s2\<lparr>w_reqs := m\<rparr>)" by blast
  show ?thesis
  proof (cases "ws_is_deleted (snd ?e)")
    case True
    with on_result_error_ok [OF assms(2)] d Some show ?thesis by (auto simp: refused_def)
  next
    case False
    with d u m(1) have "delete_call s = Inr (s2\<lparr>w_reqs := m\<rparr>)" by simp
    with m(2) Some False show ?thesis by (simp add: s2_def case_prod_beta)
  qed
next
  case None
  show ?thesis
  proof (cases found)
    case None': None
    have "delete_call s = on_result result_set_error s"
      using None None' assms(4-7) by (simp add: delete_call_def Let_def del: rbind_eq_Inr)
    with on_result_error_ok [OF assms(2)] None None' show ?thesis by (auto simp: refused_def)
  next
    case (Some j)
    note j = find_read_slot [OF assms(1) assms(7) [unfolded Some]]
    have p: "pool_inv (ls_write (x_ls s))" using assms(1) by (simp add: ready_def)
    have va: "vec_at (read_entries s) j = Inr (read_entries s ! j)" using j(1) by (simp add: vec_at_def)
    have d: "delete_call s =
        (if rs_is_deleted (snd (read_entries s ! j)) then on_result result_set_error s else write_over j t k True None s)"
      using None Some va assms(4-7) by (simp add: delete_call_def case_prod_beta Let_def del: rbind_eq_Inr vec_at_eq_Inr)
    from on_result_error_ok [OF assms(2)] write_over_ok [OF assms(2) p j(1,2), of t k True None] d None Some
    show ?thesis by (auto simp: refused_def)
  qed
qed

text \<open>
  C17: A delete of a key the transaction wrote turns that write into a delete; of a key it only read and
  saw, becomes the next version of it, deleted; a delete of a key deleted already or never read is
  refused.  In every case the client is answered.
\<close>

theorem delete_outcome:
  assumes "ready r s" "exec_find_in_write_set s t k = Inr w" "exec_find_in_read_set s t k = Inr found"
  shows "\<exists>s'. exec_delete t (Some k) s = Inr s' \<and> answered r s' \<and>
    (case w of
       Some i \<Rightarrow> if ws_is_deleted (snd (write_entries s ! i)) then refused s s'
                else ls_read (x_ls s') = ls_read (x_ls s) \<and> write_entries s' = (write_entries s)[i :=
                  (fst (write_entries s ! i), (snd (write_entries s ! i))\<lparr>ws_is_deleted := True, ws_record := None\<rparr>)]
     | None \<Rightarrow> (case found of
         Some j \<Rightarrow> if rs_is_deleted (snd (read_entries s ! j)) then refused s s' else wrote j t k True None s s'
       | None \<Rightarrow> refused s s'))"
proof -
  obtain s1 where s1: "exec_result_reset None s = Inr s1" "answering r s1" "ready r s1" "x_ls s1 = x_ls s"
      "\<not> res_is_error (x_result s1)" using exec_result_reset_answering [OF assms(1)] by blast
  define s2 where "s2 = set_move_to_next OpDelete False (push_stack OpDelete (delete_reset t (Some k) s1))"
  have s2: "x_ls s2 = x_ls s" "kv_table (o_delete (x_ops s2)) = t" "kv_key (o_delete (x_ops s2)) = Some k"
      "answering r s2" "ready r s2" "\<not> res_is_error (x_result s2)"
    using s1 by (auto simp: s2_def base_defs delete_reset_def answering_def ready_def kv_reset_def)
  have e: "exec_delete t (Some k) s = delete_call s2"
    using s1(1) by (simp add: exec_delete_def exec_call_def op_call_def s2_def)
  have f: "exec_find_in_read_set s2 t k = Inr found" "exec_find_in_write_set s2 t k = Inr w"
    using assms(2,3) s2(1) by (simp_all add: exec_find_in_read_set_def exec_find_in_write_set_def)
  have g: "read_entries s2 = read_entries s" "write_entries s2 = write_entries s" using s2(1) by simp_all
  show ?thesis
    using delete_call_spec [OF s2(5,4,6,2,3) f(2,1)] s2(1)
    unfolding e g wrote_def refused_def by (auto split: option.splits)
qed

theorem delete_outcome_witness:
  "\<exists>s' w. exec_delete ''t'' (Some (IntKey 4)) read_state = Inr s' \<and> live (ls_write (x_ls s')) = [w] \<and>
     ws_version (snd w) = 8 \<and> ws_is_deleted (snd w) \<and> answered 0 s'"
  using delete_outcome [OF read_state_ready read_state_find(2,1)]
  by (auto simp: wrote_def read_state_entry new_read_set_entry_def)

text \<open>
  C18: When the inner read of an insert is over, the insert adds its version only if the key was read as
  deleted, as it is for a key that does not exist; an upsert adds it in any case; and neither touches the
  set otherwise.
\<close>

theorem insert_upsert_outcome:
  assumes "ready r s" "answering r s" "\<not> res_is_error (x_result s)"
    and "o_insert (x_ops s) = kv_reset t (Some k) rec" "o_upsert (x_ops s) = kv_reset t (Some k) rec"
    and "exec_find_in_read_set s t k = Inr found"
  shows "\<exists>s1 s2. insert_next s = Inr (None, s1) \<and> upsert_next s = Inr (None, s2) \<and>
    (case found of
       Some j \<Rightarrow> wrote j t k False rec s s2 \<and>
         (if rs_is_deleted (snd (read_entries s ! j)) then wrote j t k False rec s s1 else refused s s1)
     | None \<Rightarrow> refused s s1 \<and> x_ls s2 = x_ls s)"
proof (cases found)
  case None
  have "insert_next s = rbind (on_result result_set_error s) (op_done OpInsert)" "upsert_next s = op_done OpUpsert s"
    using None assms(4-6) by (simp_all add: insert_next_def upsert_next_def kv_reset_def Let_def del: rbind_eq_Inr)
  with on_result_error_ok [OF assms(2)] None show ?thesis
    by (auto simp: refused_def op_done_def base_defs)
next
  case (Some j)
  note j = find_read_slot [OF assms(1) assms(6) [unfolded Some]]
  have p: "pool_inv (ls_write (x_ls s))" using assms(1) by (simp add: ready_def)
  have va: "vec_at (read_entries s) j = Inr (read_entries s ! j)" using j(1) by (simp add: vec_at_def)
  let ?del = "rs_is_deleted (snd (read_entries s ! j))"
  have i: "insert_next s = rbind (if ?del then write_over j t k False rec s else on_result result_set_error s) (op_done OpInsert)"
    using Some va assms(4,6) by (simp add: insert_next_def kv_reset_def case_prod_beta Let_def del: rbind_eq_Inr vec_at_eq_Inr)
  have u: "upsert_next s = rbind (write_over j t k False rec s) (op_done OpUpsert)"
    using Some assms(5,6) by (simp add: upsert_next_def kv_reset_def Let_def del: rbind_eq_Inr)
  obtain s' where s': "write_over j t k False rec s = Inr s'" "wrote j t k False rec s s'"
    using write_over_ok [OF assms(2) p j(1,2)] by blast
  have w: "wrote j t k False rec s (set_has_next q False s')" for q
    using s'(2) by (simp add: wrote_def base_defs)
  show ?thesis
  proof (cases ?del)
    case True
    with i u s'(1) w Some show ?thesis by (auto simp: op_done_def)
  next
    case False
    with on_result_error_ok [OF assms(2)] i u s'(1) w Some show ?thesis
      by (auto simp: op_done_def refused_def base_defs)
  qed
qed

theorem insert_upsert_outcome_witness:
  "\<exists>s s1 s2. insert_next s = Inr (None, s1) \<and> upsert_next s = Inr (None, s2) \<and> refused s s1 \<and> wrote 0 ''t'' (IntKey 4) False None s s2"
proof -
  obtain s where s: "answering 0 s" "ready 0 s" "x_ls s = x_ls read_state" "\<not> res_is_error (x_result s)"
    using exec_result_reset_answering [OF read_state_ready, of None] by blast
  define s0 where "s0 = s\<lparr>x_ops := (x_ops s)\<lparr>o_insert := kv_reset ''t'' (Some (IntKey 4)) None, o_upsert := kv_reset ''t'' (Some (IntKey 4)) None\<rparr>\<rparr>"
  have s0: "ready 0 s0" "answering 0 s0" "\<not> res_is_error (x_result s0)" "o_insert (x_ops s0) = kv_reset ''t'' (Some (IntKey 4)) None"
      "o_upsert (x_ops s0) = kv_reset ''t'' (Some (IntKey 4)) None" "x_ls s0 = x_ls read_state"
    using s by (simp_all add: s0_def ready_def answering_def)
  have f: "exec_find_in_read_set s0 ''t'' (IntKey 4) = Inr (Some 0)"
    using read_state_find(1) s0(6) by (simp add: exec_find_in_read_set_def)
  from insert_upsert_outcome [OF s0(1-5) f] s0(6) show ?thesis
    by (auto simp: read_state_entry)
qed




end
