(* ===== verification/Executors.thy ===== *)
theory Executors
  imports Environment
begin

text \<open>
  The executors' common part: \<^verbatim>\<open>include/transaction/transaction-task.h\<close>, \<^verbatim>\<open>transaction-executor.h\<close> and the code
  the two executors share, which is the constructor, the search for a task, the start of a transaction and the loop body
  of \<^verbatim>\<open>Advance\<close>.
\<close>

section \<open>Tasks\<close>

record task =
  tk_exec :: exec
  tk_request :: txn_request
  tk_in_use :: bool
  tk_session :: int

definition new_task :: "exec \<Rightarrow> txn_request \<Rightarrow> task" where
  "new_task x q = \<lparr>tk_exec = x, tk_request = q, tk_in_use = False, tk_session = 0\<rparr>"

definition task_reset :: "int \<Rightarrow> task \<Rightarrow> task res" where
  "task_reset session_id t =
     rbind (exec_reset (tk_exec t)) (\<lambda>x.
     Inr (t\<lparr>tk_exec := x, tk_request := reset_txn_request (tk_request t), tk_in_use := True,
       tk_session := session_id\<rparr>))"

definition task_release :: "task \<Rightarrow> task" where
  "task_release t = t\<lparr>tk_in_use := False\<rparr>"

text \<open>
  The copy constructors: the operation objects, the stack and the current request of a copy are new,
  the extensions it owns are copies (\<open>fr\<close>, \<open>fw\<close> and \<open>fe\<close> are their addresses), and \<^verbatim>\<open>type_\<close> is not copied.
\<close>

definition copy_local_state :: "(nat \<Rightarrow> addr) \<Rightarrow> (nat \<Rightarrow> addr) \<Rightarrow> local_state \<Rightarrow> local_state res" where
  "copy_local_state fr fw that =
     rbind (copy_read_pool fr (ls_read that)) (\<lambda>r.
     rbind (copy_write_pool fw (ls_write that)) (\<lambda>w.
     Inr \<lparr>ls_read = r, ls_write = w\<rparr>))"

definition txn_entry_copy :: "addr \<Rightarrow> txn_entry \<Rightarrow> txn_entry" where
  "txn_entry_copy fe that = that\<lparr>te_extension := map_option (\<lambda>_. fe) (te_extension that)\<rparr>"

definition result_copy :: "op_result \<Rightarrow> op_result" where
  "result_copy that =
     \<lparr>res_record = res_record that, res_request = res_request that, res_is_deleted = res_is_deleted that,
      res_is_null = res_is_null that, res_is_error = res_is_error that, res_status = res_status that\<rparr>"

definition copy_exec :: "(nat \<Rightarrow> addr) \<Rightarrow> (nat \<Rightarrow> addr) \<Rightarrow> addr \<Rightarrow> exec \<Rightarrow> exec \<Rightarrow> exec res" where
  "copy_exec fr fw fe raw that =
     rbind (copy_local_state fr fw (x_ls that)) (\<lambda>ls.
     Inr ((new_exec (x_executor_id that) (x_tx_log that) raw)
       \<lparr>x_result := result_copy (x_result that), x_ls := ls, x_max_writers := x_max_writers that,
        x_commit_ts := x_commit_ts that, x_finished := x_finished that, x_status := x_status that,
        x_txn_id := x_txn_id that, x_txn_entry := txn_entry_copy fe (x_txn_entry that),
        x_commit_local := x_commit_local that\<rparr>))"

section \<open>What both executors have\<close>

text \<open>
  The tasks of an executor share the record objects, the requests, the clock, the time provider and the
  id generator: the executor's \<open>world\<close>, which a task's execution works on while it runs.
\<close>

record executor = world +
  e_tasks :: "task list"
  e_active :: int
  e_concurrent :: nat
  e_commits :: int
  e_aborts :: int
  e_batches :: nat

definition load_world :: "'a world_scheme \<Rightarrow> exec \<Rightarrow> exec" where
  "load_world w x = x\<lparr>w_heap := w_heap w, w_reqs := w_reqs w, w_now := w_now w, w_time := w_time w, w_ids := w_ids w\<rparr>"

definition store_world :: "exec \<Rightarrow> 'a world_scheme \<Rightarrow> 'a world_scheme" where
  "store_world x w = w\<lparr>w_heap := w_heap x, w_reqs := w_reqs x, w_now := w_now x, w_time := w_time x, w_ids := w_ids x\<rparr>"

text \<open>The loop of the constructors; \<open>raw i\<close> is the memory of task \<open>i\<close>.\<close>

definition new_tasks :: "int \<Rightarrow> bool \<Rightarrow> (nat \<Rightarrow> exec) \<Rightarrow> nat \<Rightarrow> task list res" where
  "new_tasks executor_id has_log raw n =
     rfold (\<lambda>i ts.
       rbind (copy_exec (\<lambda>j. j) (\<lambda>j. j) 0 (raw i) (new_exec executor_id has_log (raw i))) (\<lambda>x.
       Inr (ts @ [new_task x new_txn_request]))) [0..<n] []"

text \<open>\<open>find_task P ts i m\<close> is the loop over indices \<open>i\<close> to \<open>i + m - 1\<close> that stops at the first task with \<open>P\<close>.\<close>

fun find_task :: "(task \<Rightarrow> bool) \<Rightarrow> task list \<Rightarrow> nat \<Rightarrow> nat \<Rightarrow> nat option res" where
  "find_task P ts i 0 = Inr None"
| "find_task P ts i (Suc m) = rbind (vec_at ts i) (\<lambda>t. if P t then Inr (Some i) else find_task P ts (Suc i) m)"

text \<open>
  Begin a transaction in task \<open>i\<close>.  The trace of the execution's calls starts anew with the transaction.
\<close>

definition start_task :: "nat \<Rightarrow> int \<Rightarrow> 'a executor_scheme \<Rightarrow> 'a executor_scheme res" where
  "start_task i session_id s =
     rbind (vec_at (e_tasks s) i) (\<lambda>t.
     rbind (task_reset session_id (t\<lparr>tk_exec := (load_world s (tk_exec t))\<lparr>x_trace := []\<rparr>\<rparr>)) (\<lambda>t1.
     Inr ((store_world (tk_exec t1) s)\<lparr>e_tasks := (e_tasks s)[i := t1], e_active := e_active s + 1\<rparr>)))"

definition push_to_task :: "nat \<Rightarrow> req_id \<Rightarrow> 'a executor_scheme \<Rightarrow> 'a executor_scheme res" where
  "push_to_task i r s =
     rbind (vec_at (e_tasks s) i) (\<lambda>t.
     Inr (s\<lparr>e_tasks := (e_tasks s)[i := t\<lparr>tk_request := push_request r (tk_request t)\<rparr>]\<rparr>))"

text \<open>\<^verbatim>\<open>active_txn_number_\<close> is an \<^verbatim>\<open>int\<close> compared with an unsigned count.\<close>

definition all_busy :: "'a executor_scheme \<Rightarrow> bool" where
  "all_busy s \<longleftrightarrow> int (e_concurrent s) \<le> e_active s mod 2 ^ 32"

section \<open>The body of Advance\<close>

text \<open>
  One task of the loop in \<^verbatim>\<open>Advance\<close>; the flag says that its transaction finished.  \<open>ds\<close> is as in \<open>run_request\<close>.
\<close>

definition task_work :: "(op_request \<Rightarrow> op_request) \<Rightarrow> bool option \<Rightarrow> txn_request \<Rightarrow> exec \<Rightarrow> (txn_request \<times> exec) res" where
  "task_work process ds q x =
     rbind (move_forward x) (\<lambda>(is_idle, x1).
     if is_idle \<and> \<not> x_finished x1 then
       (case current_request q of
          (None, q1) \<Rightarrow> Inr (q1, x1)
        | (Some r, q1) \<Rightarrow> rbind (handle_request process ds r x1) (\<lambda>x2. Inr (q1, x2)))
     else Inr (q, x1))"

definition advance_task ::
    "(op_request \<Rightarrow> op_request) \<Rightarrow> bool option \<Rightarrow> nat \<Rightarrow> 'a executor_scheme \<Rightarrow> (bool \<times> 'a executor_scheme) res" where
  "advance_task process ds i s =
     rbind (vec_at (e_tasks s) i) (\<lambda>t.
     if \<not> tk_in_use t then Inr (False, s)
     else
       rbind (task_work process ds (tk_request t) (load_world s (tk_exec t))) (\<lambda>(q, x).
       let t1 = t\<lparr>tk_exec := x, tk_request := q\<rparr>; s1 = store_world x s
       in if x_finished x then
            Inr (True, s1\<lparr>e_tasks := (e_tasks s)[i := task_release t1], e_active := e_active s - 1,
              e_aborts := e_aborts s + (if x_status x = Aborted then 1 else 0),
              e_commits := e_commits s + (if x_status x = Committed then 1 else 0)\<rparr>)
          else Inr (False, s1\<lparr>e_tasks := (e_tasks s)[i := t1]\<rparr>)))"

text \<open>The \<^verbatim>\<open>for\<close> loop over the tasks; the flag says that some transaction finished.\<close>

definition advance_pass ::
    "(op_request \<Rightarrow> op_request) \<Rightarrow> bool option \<Rightarrow> 'a executor_scheme \<Rightarrow> (bool \<times> 'a executor_scheme) res" where
  "advance_pass process ds s =
     rfold (\<lambda>i (b, s). rbind (advance_task process ds i s) (\<lambda>(b', s'). Inr (b \<or> b', s'))) [0..<e_concurrent s] (False, s)"

definition send_batch :: "'a executor_scheme \<Rightarrow> 'a executor_scheme" where
  "send_batch s = s\<lparr>e_batches := e_batches s + 1\<rparr>"

definition statistics :: "'a executor_scheme \<Rightarrow> int \<times> int" where
  "statistics s = (e_commits s, e_aborts s)"

end
