(* ===== verification/Runtime_Executor.thy ===== *)
theory Runtime_Executor
  imports Executors
begin

text \<open>
  The runtime executor, \<^verbatim>\<open>src/transaction/runtime-transaction-executor.cpp\<close>: requests of many
  sessions arrive through a bounded queue in any order and are routed to the tasks.
\<close>

section \<open>The request queue\<close>

text \<open>
  \<^verbatim>\<open>folly::MPMCQueue\<close> is a library outside the repository.  What the executor calls of it, without blocking:
  \<^verbatim>\<open>write\<close> says whether there was room, \<^verbatim>\<open>read\<close> whether there was an element, \<^verbatim>\<open>isEmpty\<close>.
\<close>

record 'q mpmc =
  mq_write :: "req_id \<Rightarrow> 'q \<Rightarrow> bool \<times> 'q"
  mq_read :: "'q \<Rightarrow> (req_id \<times> 'q) option"
  mq_is_empty :: "'q \<Rightarrow> bool"

text \<open>Its documented behaviour: a bounded first-in first-out queue with the given contents.\<close>

definition mpmc_fifo :: "'q mpmc \<Rightarrow> ('q \<Rightarrow> req_id list) \<Rightarrow> nat \<Rightarrow> bool" where
  "mpmc_fifo mq contents capacity \<longleftrightarrow>
     (\<forall>q. mq_is_empty mq q \<longleftrightarrow> contents q = []) \<and>
     (\<forall>q. (case mq_read mq q of None \<Rightarrow> contents q = [] | Some (r, q') \<Rightarrow> contents q = r # contents q')) \<and>
     (\<forall>q r. if length (contents q) < capacity
        then fst (mq_write mq r q) \<and> contents (snd (mq_write mq r q)) = contents q @ [r]
        else \<not> fst (mq_write mq r q) \<and> contents (snd (mq_write mq r q)) = contents q)"

section \<open>The executor\<close>

record 'q rt_executor = executor +
  rt_queue :: 'q
  rt_current :: "req_id option"

definition new_rt_executor ::
    "int \<Rightarrow> nat \<Rightarrow> bool \<Rightarrow> (nat \<Rightarrow> exec) \<Rightarrow> 'q \<Rightarrow> world \<Rightarrow> 'q rt_executor res" where
  "new_rt_executor executor_id concurrent_txn_count has_log raw queue w =
     rbind (new_tasks executor_id has_log raw concurrent_txn_count) (\<lambda>ts.
     Inr \<lparr>w_heap = w_heap w, w_reqs = w_reqs w, w_now = w_now w, w_time = w_time w, w_ids = w_ids w,
       e_tasks = ts, e_active = 0, e_concurrent = concurrent_txn_count, e_commits = 0, e_aborts = 0, e_batches = 0,
       rt_queue = queue, rt_current = None\<rparr>)"

definition rt_add_request :: "'q mpmc \<Rightarrow> req_id \<Rightarrow> 'q rt_executor \<Rightarrow> 'q rt_executor" where
  "rt_add_request mq r s = s\<lparr>rt_queue := snd (mq_write mq r (rt_queue s))\<rparr>"

text \<open>The head of the loop in \<^verbatim>\<open>LaunchRequests\<close>: keep the request held, or read the next one.\<close>

definition rt_fetch :: "'q mpmc \<Rightarrow> 'q rt_executor \<Rightarrow> (req_id \<times> 'q rt_executor) option" where
  "rt_fetch mq s =
     (case rt_current s of
        Some r \<Rightarrow> Some (r, s)
      | None \<Rightarrow> map_option (\<lambda>(r, q). (r, s\<lparr>rt_queue := q, rt_current := Some r\<rparr>)) (mq_read mq (rt_queue s)))"

text \<open>
  One turn of the loop; the flag says whether it goes on.  A \<^verbatim>\<open>Begin\<close> takes the first task not in use, any
  other request the first task with its session.  The third \<^verbatim>\<open>throw\<close> of the loop is unreachable:
  \<^verbatim>\<open>last_index\<close> was set on both paths that reach it.
\<close>

definition rt_launch_one :: "'q mpmc \<Rightarrow> 'q rt_executor \<Rightarrow> (bool \<times> 'q rt_executor) res" where
  "rt_launch_one mq s0 =
     (case rt_fetch mq s0 of
        None \<Rightarrow> Inr (False, s0)
      | Some (r, s) \<Rightarrow>
          rbind (deref (w_reqs s r)) (\<lambda>q.
          if rq_op q = Begin then
            if all_busy s then Inr (False, s)
            else
              rbind (find_task (\<lambda>t. \<not> tk_in_use t) (e_tasks s) 0 (e_concurrent s)) (\<lambda>found.
              case found of
                None \<Rightarrow> Inl (Thrown ''no empty txn task'')
              | Some i \<Rightarrow>
                  rbind (start_task i (rq_session_id q) s) (\<lambda>s1.
                  rbind (push_to_task i r s1) (\<lambda>s2. Inr (True, s2\<lparr>rt_current := None\<rparr>))))
          else
            rbind (find_task (\<lambda>t. tk_session t = rq_session_id q) (e_tasks s) 0 (e_concurrent s)) (\<lambda>found.
            case found of
              None \<Rightarrow> Inl (Thrown ''no session task'')
            | Some i \<Rightarrow> rbind (push_to_task i r s) (\<lambda>s1. Inr (True, s1\<lparr>rt_current := None\<rparr>)))))"

text \<open>The loop, for at most \<open>n\<close> turns; None is a loop still running.\<close>

fun rt_launch_requests :: "'q mpmc \<Rightarrow> nat \<Rightarrow> 'q rt_executor \<Rightarrow> 'q rt_executor res option" where
  "rt_launch_requests mq 0 s = None"
| "rt_launch_requests mq (Suc n) s =
     (case rt_launch_one mq s of
        Inl e \<Rightarrow> Some (Inl e)
      | Inr (again, s') \<Rightarrow> if again then rt_launch_requests mq n s' else Some (Inr s'))"

definition rt_advance :: "(op_request \<Rightarrow> op_request) \<Rightarrow> 'q rt_executor \<Rightarrow> 'q rt_executor res" where
  "rt_advance process s = rbind (advance_pass process None s) (\<lambda>(_, s'). Inr s')"

definition rt_is_finished :: "'q mpmc \<Rightarrow> 'q rt_executor \<Rightarrow> bool" where
  "rt_is_finished mq s \<longleftrightarrow> mq_is_empty mq (rt_queue s) \<and> e_active s = 0"

text \<open>
  \<^verbatim>\<open>Run\<close>, for at most \<open>n\<close> rounds of at most \<open>m\<close> launches; \<open>env\<close> is what the clients and the handler do between
  two rounds.
\<close>

fun rt_run :: "'q mpmc \<Rightarrow> (op_request \<Rightarrow> op_request) \<Rightarrow> (nat \<Rightarrow> 'q rt_executor \<Rightarrow> 'q rt_executor) \<Rightarrow> nat \<Rightarrow> nat \<Rightarrow>
    'q rt_executor \<Rightarrow> 'q rt_executor res option" where
  "rt_run mq process env m 0 s = None"
| "rt_run mq process env m (Suc n) s =
     (if \<not> mq_is_empty mq (rt_queue s) \<or> e_active s > 0 then
        (case rt_launch_requests mq m s of
           None \<Rightarrow> None
         | Some (Inl e) \<Rightarrow> Some (Inl e)
         | Some (Inr s1) \<Rightarrow>
             (case rt_advance process s1 of
                Inl e \<Rightarrow> Some (Inl e)
              | Inr s2 \<Rightarrow> rt_run mq process env m n (env n (send_batch s2))))
      else Some (Inr s))"

definition rt_shut_down :: "'q rt_executor \<Rightarrow> 'q rt_executor" where
  "rt_shut_down s = s"

end
