(* ===== verification/Executor_Invariants.thy ===== *)
theory Executor_Invariants
  imports Executors Sample_Runs
begin

text \<open>
  What every step of an executor keeps: the count of active transactions is the number of tasks in use,
  each of which runs an execution as the commit protocol theories describe it, and transactions taken up are
  counted once.  Shared by both executors.
\<close>

section \<open>Searching the tasks\<close>

lemma find_task_spec:
  assumes "i + m \<le> length ts"
  shows "\<exists>r. find_task P ts i m = Inr r \<and>
    (case r of None \<Rightarrow> \<forall>k. i \<le> k \<and> k < i + m \<longrightarrow> \<not> P (ts ! k)
     | Some j \<Rightarrow> i \<le> j \<and> j < i + m \<and> P (ts ! j) \<and> (\<forall>k. i \<le> k \<and> k < j \<longrightarrow> \<not> P (ts ! k)))"
  using assms
proof (induction m arbitrary: i)
  case (Suc m)
  show ?case
  proof (cases "P (ts ! i)")
    case True
    with Suc.prems show ?thesis by (intro exI [of _ "Some i"]) auto
  next
    case False
    have "Suc i + m \<le> length ts" using Suc.prems by simp
    from Suc.IH [OF this] obtain r where r: "find_task P ts (Suc i) m = Inr r"
      "case r of None \<Rightarrow> \<forall>k. Suc i \<le> k \<and> k < Suc i + m \<longrightarrow> \<not> P (ts ! k)
       | Some j \<Rightarrow> Suc i \<le> j \<and> j < Suc i + m \<and> P (ts ! j) \<and> (\<forall>k. Suc i \<le> k \<and> k < j \<longrightarrow> \<not> P (ts ! k))" by blast
    have "find_task P ts i (Suc m) = Inr r" using r(1) False Suc.prems by simp
    moreover have "i \<le> k \<longleftrightarrow> k = i \<or> Suc i \<le> k" for k by auto
    ultimately show ?thesis using r(2) False by (intro exI [of _ r]) (auto split: option.splits)
  qed
qed auto

lemma find_task_None:
  assumes "find_task P ts 0 (length ts) = Inr None" "k < length ts"
  shows "\<not> P (ts ! k)"
  using find_task_spec [of 0 "length ts" ts P] assms by auto

lemma find_task_Some:
  assumes "find_task P ts 0 (length ts) = Inr (Some i)"
  shows "i < length ts" "P (ts ! i)" "\<And>k. k < i \<Longrightarrow> \<not> P (ts ! k)"
  using find_task_spec [of 0 "length ts" ts P] assms by auto

section \<open>Counting the tasks in use\<close>

definition in_use_count :: "task list \<Rightarrow> int" where
  "in_use_count ts = (\<Sum>t\<leftarrow>ts. if tk_in_use t then 1 else 0)"

lemma in_use_count_update:
  "i < length ts \<Longrightarrow> in_use_count (ts[i := t]) =
     in_use_count ts + (if tk_in_use t then 1 else 0) - (if tk_in_use (ts ! i) then 1 else 0)"
proof (induction ts arbitrary: i)
  case (Cons u ts)
  then show ?case by (cases i) (auto simp: in_use_count_def)
qed simp

lemma in_use_count_range: "0 \<le> in_use_count ts" "in_use_count ts \<le> int (length ts)"
  by (induction ts) (auto simp: in_use_count_def)

lemma free_task_exists: "in_use_count ts < int (length ts) \<Longrightarrow> \<exists>i < length ts. \<not> tk_in_use (ts ! i)"
proof (induction ts)
  case (Cons t ts)
  show ?case
  proof (cases "tk_in_use t")
    case True
    with Cons.prems have "in_use_count ts < int (length ts)" by (simp add: in_use_count_def)
    with Cons.IH show ?thesis by auto
  qed auto
qed (simp add: in_use_count_def)

lemma in_use_count_pos: "i < length ts \<Longrightarrow> tk_in_use (ts ! i) \<Longrightarrow> 0 < in_use_count ts"
  using in_use_count_update [of i ts "(ts ! i)\<lparr>tk_in_use := False\<rparr>"] in_use_count_range(1) [of "ts[i := (ts ! i)\<lparr>tk_in_use := False\<rparr>]"]
  by simp

section \<open>The invariant of the executors\<close>

definition task_ok :: "task \<Rightarrow> bool" where
  "task_ok t \<longleftrightarrow>
     (if tk_in_use t then (\<exists>x0. exec_reach x0 (tk_exec t)) \<and> \<not> x_finished (tk_exec t)
      else x_vec (tk_exec t) = [] \<and> pool_inv (ls_read (x_ls (tk_exec t))) \<and> pool_inv (ls_write (x_ls (tk_exec t))))"

definition executor_ok :: "'a executor_scheme \<Rightarrow> bool" where
  "executor_ok s \<longleftrightarrow> length (e_tasks s) = e_concurrent s \<and> e_concurrent s < 2 ^ 31 \<and>
     e_active s = in_use_count (e_tasks s) \<and> (\<forall>t \<in> set (e_tasks s). task_ok t)"

lemma world_frames [simp]:
  "x_vec (load_world w x) = x_vec x" "x_ls (load_world w x) = x_ls x" "x_finished (load_world w x) = x_finished x"
  "x_status (load_world w x) = x_status x" "x_trace (load_world w x) = x_trace x"
  "w_reqs (load_world w x) = w_reqs w"
  "e_tasks (store_world x s) = e_tasks s" "e_active (store_world x s) = e_active s"
  "e_concurrent (store_world x s) = e_concurrent s" "e_commits (store_world x s) = e_commits s"
  "e_aborts (store_world x s) = e_aborts s"
  by (simp_all add: load_world_def store_world_def)

lemma load_world_reach: "exec_reach x0 x \<Longrightarrow> exec_reach x0 (load_world w x)"
proof -
  assume r: "exec_reach x0 x"
  have "load_world w x = same_world (load_world w x) x" by (simp add: load_world_def same_world_def)
  then show ?thesis using exec_reach.step [OF r exec_step.interfere] by metis
qed

lemma reach_pools:
  assumes "exec_reach x0 x"
  shows "pool_inv (ls_read (x_ls x)) \<and> pool_inv (ls_write (x_ls x))"
proof -
  obtain p where "in_phase p x" using reach_phase [OF assms] by blast
  then show ?thesis
    by (cases p)
      (auto simp: client_state_def reading_def uploading_def timestamping_def running_def validating_def logging_def deciding_def
        finalizing_def decided_def committed_def rejecting_def undoing_def rejected_def releasing_def undone_def aborted_def
        abort_state_def sets_ok_def)
qed

lemma reach_finished:
  assumes "exec_reach x0 x" "x_finished x"
  shows "x_vec x = [] \<and> x_status x \<in> {Committed, Aborted}"
proof -
  obtain p where p: "in_phase p x" "trimmed x" using reach_phase [OF assms(1)] by blast
  from p(1) assms(2) have "only {} x \<and> x_status x \<in> {Committed, Aborted}"
    by (cases p)
      (auto simp: client_state_def reading_def uploading_def timestamping_def running_def validating_def logging_def deciding_def
        finalizing_def decided_def committed_def rejecting_def undoing_def releasing_def aborted_def)
  then show ?thesis using trimmed_only_none [OF p(2)] by blast
qed

lemma move_forward_idle: "move_forward x = Inr (True, x') \<Longrightarrow> x_vec x' = []"
  by (auto simp: move_forward_def split: if_splits)

lemma task_work_reach:
  assumes "task_work process ds q x = Inr (q', x')" "exec_reach x0 x"
  shows "exec_reach x0 x'"
proof -
  obtain idle x1 where m: "move_forward x = Inr (idle, x1)" using assms(1) by (auto simp: task_work_def)
  have r1: "exec_reach x0 x1" using exec_reach.step [OF assms(2) exec_step.advance [OF m]] .
  show ?thesis
  proof (cases "idle \<and> \<not> x_finished x1")
    case True
    then have v: "x_vec x1 = []" using move_forward_idle m by simp
    obtain c q1 where c: "current_request q = (c, q1)" by fastforce
    show ?thesis
    proof (cases c)
      case None
      with True m c assms(1) r1 show ?thesis by (auto simp: task_work_def)
    next
      case (Some r)
      with True m c assms(1) have "handle_request process ds r x1 = Inr x'" by (auto simp: task_work_def)
      from exec_reach.step [OF r1 exec_step.request [OF v _ this]] True show ?thesis by simp
    qed
  next
    case False
    with m assms(1) r1 show ?thesis by (auto simp: task_work_def)
  qed
qed

lemma executor_ok_put:
  assumes "executor_ok s" "i < length (e_tasks s)" "task_ok t" "tk_in_use t = tk_in_use (e_tasks s ! i)"
    and "e_tasks s' = (e_tasks s)[i := t]" "e_active s' = e_active s" "e_concurrent s' = e_concurrent s"
  shows "executor_ok s'"
  using assms by (auto simp: executor_ok_def in_use_count_update dest: set_update_subsetI [THEN subsetD, rotated -1])

lemma push_to_task_ok:
  assumes "executor_ok s" "push_to_task i r s = Inr s'"
  shows "executor_ok s' \<and> e_active s' = e_active s"
proof -
  let ?t = "(e_tasks s ! i)\<lparr>tk_request := push_request r (tk_request (e_tasks s ! i))\<rparr>"
  have i: "i < length (e_tasks s)" and s': "s' = s\<lparr>e_tasks := (e_tasks s)[i := ?t]\<rparr>"
    using assms(2) by (auto simp: push_to_task_def vec_at_eq_Inr)
  have "task_ok (e_tasks s ! i)" using assms(1) i by (simp add: executor_ok_def)
  then have "task_ok ?t" by (simp add: task_ok_def)
  from executor_ok_put [OF assms(1) i this, of s'] s' show ?thesis by simp
qed

lemma push_to_task_total: "i < length (e_tasks s) \<Longrightarrow> \<exists>s'. push_to_task i r s = Inr s'"
  by (simp add: push_to_task_def vec_at_def)

lemma start_task_ok:
  assumes "executor_ok s" "start_task i session_id s = Inr s'" "\<not> tk_in_use (e_tasks s ! i)"
  shows "executor_ok s'" "e_active s' = e_active s + 1"
    and "\<exists>x. e_tasks s' = (e_tasks s)[i := (e_tasks s ! i)\<lparr>tk_exec := x, tk_request := reset_txn_request (tk_request (e_tasks s ! i)),
      tk_in_use := True, tk_session := session_id\<rparr>] \<and> fresh_exec x"
proof -
  let ?x0 = "(load_world s (tk_exec (e_tasks s ! i)))\<lparr>x_trace := []\<rparr>"
  have i: "i < length (e_tasks s)" using assms(2) by (auto simp: start_task_def vec_at_eq_Inr)
  from assms(2) i obtain x where x: "exec_reset ?x0 = Inr x"
    and s': "s' = (store_world x s)\<lparr>e_tasks := (e_tasks s)[i := (e_tasks s ! i)\<lparr>tk_exec := x, tk_request := reset_txn_request (tk_request (e_tasks s ! i)),
      tk_in_use := True, tk_session := session_id\<rparr>], e_active := e_active s + 1\<rparr>"
    by (auto simp: start_task_def task_reset_def)
  let ?t = "(e_tasks s ! i)\<lparr>tk_exec := x, tk_request := reset_txn_request (tk_request (e_tasks s ! i)), tk_in_use := True, tk_session := session_id\<rparr>"
  have "task_ok (e_tasks s ! i)" using assms(1) i by (simp add: executor_ok_def)
  with assms(3) have f: "fresh_exec x"
    using fresh_exec_reset [OF x] by (simp add: task_ok_def)
  then have "exec_reach x x" "\<not> x_finished x" by (auto intro: exec_reach.start simp: fresh_exec_def)
  then have t: "task_ok ?t" by (auto simp: task_ok_def)
  have ts: "e_tasks s' = (e_tasks s)[i := ?t]" and a: "e_active s' = e_active s + 1" and c: "e_concurrent s' = e_concurrent s"
    using s' by simp_all
  show "executor_ok s'"
    using assms(1,3) i t ts a c
    by (auto simp: executor_ok_def in_use_count_update dest: set_update_subsetI [THEN subsetD, rotated -1])
  show "e_active s' = e_active s + 1" using a .
  show "\<exists>x. e_tasks s' = (e_tasks s)[i := (e_tasks s ! i)\<lparr>tk_exec := x, tk_request := reset_txn_request (tk_request (e_tasks s ! i)),
      tk_in_use := True, tk_session := session_id\<rparr>] \<and> fresh_exec x" using ts f by blast
qed

text \<open>The transactions an executor has taken up: the ones running and the ones counted.\<close>

definition taken_up :: "'a executor_scheme \<Rightarrow> int" where
  "taken_up s = e_active s + e_commits s + e_aborts s"

lemma advance_task_cases:
  assumes "executor_ok s" "advance_task process ds i s = Inr (b, s')"
  shows "executor_ok s' \<and> taken_up s' = taken_up s \<and> e_commits s \<le> e_commits s' \<and> e_aborts s \<le> e_aborts s' \<and>
    e_active s' = e_active s - (if b then 1 else 0) \<and> e_concurrent s' = e_concurrent s \<and>
    map tk_session (e_tasks s') = map tk_session (e_tasks s) \<and> (\<forall>j. tk_in_use (e_tasks s' ! j) \<longrightarrow> tk_in_use (e_tasks s ! j))"
proof -
  have i: "i < length (e_tasks s)" using assms(2) by (auto simp: advance_task_def vec_at_eq_Inr)
  let ?t = "e_tasks s ! i"
  have ok: "task_ok ?t" using assms(1) i by (simp add: executor_ok_def)
  show ?thesis
  proof (cases "tk_in_use ?t")
    case False
    with assms i show ?thesis by (auto simp: advance_task_def)
  next
    case True
    from ok True obtain x0 where "exec_reach x0 (tk_exec ?t)" by (auto simp: task_ok_def)
    then have r0: "exec_reach x0 (load_world s (tk_exec ?t))" by (rule load_world_reach)
    from assms(2) i True obtain q x where w: "task_work process ds (tk_request ?t) (load_world s (tk_exec ?t)) = Inr (q, x)"
      by (auto simp: advance_task_def)
    have r: "exec_reach x0 x" by (rule task_work_reach [OF w r0])
    let ?u = "?t\<lparr>tk_exec := x, tk_request := q\<rparr>"
    have ses: "map tk_session ((e_tasks s)[i := u]) = map tk_session (e_tasks s)" if "tk_session u = tk_session ?t" for u
      using that i by (simp add: map_update list_update_same_conv)
    show ?thesis
    proof (cases "x_finished x")
      case True': True
      note fin = reach_finished [OF r True']
      let ?v = "task_release ?u"
      have v: "task_ok ?v" using fin reach_pools [OF r] by (simp add: task_ok_def task_release_def)
      from assms(2) i True w True' have b: b and s': "s' = (store_world x s)\<lparr>e_tasks := (e_tasks s)[i := ?v],
          e_active := e_active s - 1, e_aborts := e_aborts s + (if x_status x = Aborted then 1 else 0),
          e_commits := e_commits s + (if x_status x = Committed then 1 else 0)\<rparr>"
        by (auto simp: advance_task_def Let_def)
      have e: "e_tasks s' = (e_tasks s)[i := ?v]" "e_active s' = e_active s - 1" "e_concurrent s' = e_concurrent s"
        "e_aborts s' = e_aborts s + (if x_status x = Aborted then 1 else 0)"
        "e_commits s' = e_commits s + (if x_status x = Committed then 1 else 0)"
        using s' by simp_all
      have n: "\<not> tk_in_use ?v" by (simp add: task_release_def)
      have "executor_ok s'"
        using assms(1) i True v n
        by (auto simp: executor_ok_def e in_use_count_update dest: set_update_subsetI [THEN subsetD, rotated -1])
      moreover have "taken_up s' = taken_up s" using fin by (auto simp: taken_up_def e)
      moreover have "\<forall>j. tk_in_use (e_tasks s' ! j) \<longrightarrow> tk_in_use (e_tasks s ! j)"
        using n by (auto simp: e nth_update split: if_splits)
      ultimately show ?thesis using b ses [of ?v] by (simp add: e task_release_def)
    next
      case False
      have u: "task_ok ?u" using r False True by (auto simp: task_ok_def)
      from assms(2) i True w False have b: "\<not> b" and s': "s' = (store_world x s)\<lparr>e_tasks := (e_tasks s)[i := ?u]\<rparr>"
        by (auto simp: advance_task_def Let_def)
      have "executor_ok s'" by (rule executor_ok_put [OF assms(1) i u]) (simp_all add: s')
      moreover have "\<forall>j. tk_in_use (e_tasks s' ! j) \<longrightarrow> tk_in_use (e_tasks s ! j)"
        using True by (auto simp: s' nth_update split: if_splits)
      ultimately show ?thesis using b ses [of ?u] by (simp add: s' taken_up_def)
    qed
  qed
qed

definition sessions :: "'a executor_scheme \<Rightarrow> int list" where
  "sessions s = map tk_session (e_tasks s)"

lemma advance_pass_ok:
  assumes "executor_ok s" "advance_pass process ds s = Inr (b, s')"
  shows "executor_ok s' \<and> taken_up s' = taken_up s \<and> e_commits s \<le> e_commits s' \<and> e_aborts s \<le> e_aborts s' \<and>
    e_active s' \<le> e_active s \<and> (b \<longleftrightarrow> e_active s' < e_active s) \<and> e_concurrent s' = e_concurrent s \<and>
    sessions s' = sessions s \<and> (\<forall>j. tk_in_use (e_tasks s' ! j) \<longrightarrow> tk_in_use (e_tasks s ! j))"
proof -
  let ?P = "\<lambda>(b, s'). executor_ok s' \<and> taken_up s' = taken_up s \<and> e_commits s \<le> e_commits s' \<and> e_aborts s \<le> e_aborts s' \<and>
    e_active s' \<le> e_active s \<and> (b \<longleftrightarrow> e_active s' < e_active s) \<and> e_concurrent s' = e_concurrent s \<and>
    sessions s' = sessions s \<and> (\<forall>j. tk_in_use (e_tasks s' ! j) \<longrightarrow> tk_in_use (e_tasks s ! j))"
  let ?f = "\<lambda>i (b, s). rbind (advance_task process ds i s) (\<lambda>(b', s'). Inr (b \<or> b', s'))"
  have "rfold ?f [0..<e_concurrent s] (False, s) = Inr (b, s')" using assms(2) by (simp add: advance_pass_def)
  moreover have "?P (False, s)" using assms(1) by simp
  moreover have "?P q" if "?P p" "?f i p = Inr q" for i p q
  proof -
    obtain b1 s1 where p: "p = (b1, s1)" by fastforce
    with that(2) obtain b2 s2 where a: "advance_task process ds i s1 = Inr (b2, s2)" and q: "q = (b1 \<or> b2, s2)" by auto
    from that(1) p have s1: "?P (b1, s1)" by simp
    from advance_task_cases [OF _ a] s1 q show ?thesis by (auto simp: sessions_def)
  qed
  ultimately have "?P (b, s')" by (rule rfold_invariant)
  then show ?thesis by simp
qed

section \<open>The executors among clients and handler\<close>

text \<open>An answer of the handler for an operation of task \<open>i\<close>, written while the task is awaiting it.\<close>

definition answer_task :: "nat \<Rightarrow> op_ref \<Rightarrow> reply \<Rightarrow> 'a executor_scheme \<Rightarrow> 'a executor_scheme option" where
  "answer_task i r a s =
     (if i < length (e_tasks s) \<and> tk_in_use (e_tasks s ! i) \<and> awaiting (load_world s (tk_exec (e_tasks s ! i))) r
      then (case deliver r a (load_world s (tk_exec (e_tasks s ! i))) of
              None \<Rightarrow> None
            | Some x \<Rightarrow> Some ((store_world x s)\<lparr>e_tasks := (e_tasks s)[i := (e_tasks s ! i)\<lparr>tk_exec := x\<rparr>]\<rparr>))
      else None)"

text \<open>What the clients and the handler do to the objects they share with the executor, and the clock.\<close>

definition set_outside :: "rec_heap \<Rightarrow> (req_id \<rightharpoonup> op_request) \<Rightarrow> int \<Rightarrow> 'a world_scheme \<Rightarrow> 'a world_scheme" where
  "set_outside h m now w = w\<lparr>w_heap := h, w_reqs := m, w_now := now\<rparr>"

lemma answer_task_ok:
  assumes "executor_ok s" "answer_task i r a s = Some s'"
  shows "executor_ok s' \<and> taken_up s' = taken_up s \<and> e_active s' = e_active s \<and> sessions s' = sessions s \<and>
    map tk_in_use (e_tasks s') = map tk_in_use (e_tasks s)"
proof -
  let ?t = "e_tasks s ! i"
  have i: "i < length (e_tasks s)" "tk_in_use ?t" "awaiting (load_world s (tk_exec ?t)) r"
    using assms(2) by (auto simp: answer_task_def split: if_splits)
  with assms(2) obtain x where x: "deliver r a (load_world s (tk_exec ?t)) = Some x"
    and s': "s' = (store_world x s)\<lparr>e_tasks := (e_tasks s)[i := ?t\<lparr>tk_exec := x\<rparr>]\<rparr>"
    by (auto simp: answer_task_def split: option.splits)
  have "task_ok ?t" using assms(1) i(1) by (simp add: executor_ok_def)
  with i(2) obtain x0 where x0: "exec_reach x0 (tk_exec ?t)" "\<not> x_finished (tk_exec ?t)" by (auto simp: task_ok_def)
  have r: "exec_reach x0 x"
    using exec_reach.step [OF load_world_reach [OF x0(1)] exec_step.reply [OF i(3) x]] .
  have "x_finished x = x_finished (load_world s (tk_exec ?t))"
    using x by (auto simp: deliver_def upd_upload_entry_def upd_update_max_def upd_push_def upd_commit_entry_def upd_abort_entry_def
        upd_release_entry_def upd_read_op_def vec_at_def split: op_ref.splits reply.splits if_splits)
  with r x0(2) i(2) have u: "task_ok (?t\<lparr>tk_exec := x\<rparr>)" by (auto simp: task_ok_def)
  have "executor_ok s'" by (rule executor_ok_put [OF assms(1) i(1) u]) (simp_all add: s')
  then show ?thesis using i(1) by (simp add: s' taken_up_def sessions_def map_update list_update_same_conv)
qed

lemma set_outside_ok [simp]:
  "executor_ok (set_outside h m now s) = executor_ok s" "sessions (set_outside h m now s) = sessions s"
  "e_tasks (set_outside h m now s) = e_tasks s" "taken_up (set_outside h m now s) = taken_up s"
  "e_active (set_outside h m now s) = e_active s"
  by (simp_all add: set_outside_def executor_ok_def sessions_def taken_up_def)

lemma send_batch_ok [simp]:
  "executor_ok (send_batch s) = executor_ok s" "sessions (send_batch s) = sessions s"
  "e_tasks (send_batch s) = e_tasks s" "taken_up (send_batch s) = taken_up s"
  by (simp_all add: send_batch_def executor_ok_def sessions_def taken_up_def)

lemma all_busy_iff:
  assumes "executor_ok s"
  shows "all_busy s \<longleftrightarrow> e_active s = int (e_concurrent s)" "0 \<le> e_active s" "e_active s \<le> int (e_concurrent s)"
proof -
  show r: "0 \<le> e_active s" "e_active s \<le> int (e_concurrent s)"
    using assms in_use_count_range [of "e_tasks s"] by (auto simp: executor_ok_def)
  have "e_active s mod 2 ^ 32 = e_active s"
    using r assms by (intro mod_pos_pos_trivial) (auto simp: executor_ok_def)
  then show "all_busy s \<longleftrightarrow> e_active s = int (e_concurrent s)" using r by (auto simp: all_busy_def)
qed

section \<open>The constructor\<close>

lemma copy_loop:
  assumes "n \<le> length xs"
  shows "rfold (\<lambda>i es. rbind (vec_at xs i) (\<lambda>e. Inr (es @ [g i e]))) [0..<n] [] = Inr (map (\<lambda>i. g i (xs ! i)) [0..<n])"
  using assms by (induction n) (auto simp: rfold_append simp del: rbind_eq_Inr)

lemma copy_pool_ok:
  "pool_inv p \<Longrightarrow> \<exists>p'. copy_read_pool f p = Inr p' \<and> pool_inv p'"
  "pool_inv w \<Longrightarrow> \<exists>w'. copy_write_pool f w = Inr w' \<and> pool_inv w'"
  by (auto simp: copy_read_pool_def copy_write_pool_def pool_inv_def
      copy_loop [where g = "\<lambda>i. read_slot_copy (f i)"] copy_loop [where g = "\<lambda>i. write_slot_copy (f i)"])

lemma copy_exec_ok:
  assumes "pool_inv (ls_read (x_ls that))" "pool_inv (ls_write (x_ls that))"
  shows "\<exists>x. copy_exec fr fw fe raw that = Inr x \<and> x_vec x = [] \<and> pool_inv (ls_read (x_ls x)) \<and> pool_inv (ls_write (x_ls x))"
proof -
  obtain r w where "copy_read_pool fr (ls_read (x_ls that)) = Inr r" "pool_inv r"
      "copy_write_pool fw (ls_write (x_ls that)) = Inr w" "pool_inv w"
    using copy_pool_ok assms by meson
  then show ?thesis by (simp add: copy_exec_def copy_local_state_def new_exec_def)
qed

lemma new_tasks_ok:
  "\<exists>ts. new_tasks executor_id has_log raw n = Inr ts \<and> length ts = n \<and> in_use_count ts = 0 \<and> (\<forall>t \<in> set ts. task_ok t)"
proof (induction n)
  case (Suc n)
  let ?x = "new_exec executor_id has_log (raw n)"
  have p: "pool_inv (ls_read (x_ls ?x))" "pool_inv (ls_write (x_ls ?x))" by (simp_all add: new_exec_def new_local_state_def)
  obtain x where x: "copy_exec (\<lambda>j. j) (\<lambda>j. j) 0 (raw n) ?x = Inr x" "x_vec x = []" "pool_inv (ls_read (x_ls x))"
      "pool_inv (ls_write (x_ls x))" using copy_exec_ok [OF p] by blast
  from Suc x show ?case
    by (auto simp: new_tasks_def rfold_append in_use_count_def new_task_def task_ok_def simp del: rbind_eq_Inr)
qed (simp add: new_tasks_def in_use_count_def)

lemma new_tasks_idle:
  "new_tasks executor_id has_log raw n = Inr ts \<Longrightarrow> \<forall>t \<in> set ts. \<not> tk_in_use t \<and> tk_session t = 0"
  by (induction n arbitrary: ts) (auto simp: new_tasks_def rfold_append new_task_def)

section \<open>Errors and frames\<close>

lemma generate_id_error: "generate_id g = Inl e \<Longrightarrow> e = SignedOverflow"
  by (auto simp: generate_id_def rbind_eq_Inl i64_add_def i64_check_def Let_def split: if_splits)

lemma get_time_error: "get_time now tp = Inl e \<Longrightarrow> e = SignedOverflow"
  by (auto simp: get_time_def rbind_eq_Inl i64_add_def i64_check_def Let_def split: if_splits)

lemma exec_reset_error: "exec_reset x = Inl e \<Longrightarrow> e = SignedOverflow"
  by (auto simp: exec_reset_def reset_txn_id_and_time_def exec_get_time_def rbind_eq_Inl
      dest: generate_id_error get_time_error)

lemma start_task_error: "start_task i session_id s = Inl e \<Longrightarrow> e = SignedOverflow \<or> e = OutOfRange"
  by (auto simp: start_task_def task_reset_def rbind_eq_Inl vec_at_def dest: exec_reset_error split: if_splits)

lemma push_to_task_error: "push_to_task i r s = Inl e \<Longrightarrow> e = OutOfRange"
  by (auto simp: push_to_task_def rbind_eq_Inl vec_at_def split: if_splits)

lemma free_task_found:
  assumes "executor_ok s" "\<not> all_busy s"
  shows "\<exists>i. find_task (\<lambda>t. \<not> tk_in_use t) (e_tasks s) 0 (length (e_tasks s)) = Inr (Some i)"
proof -
  have "in_use_count (e_tasks s) < int (length (e_tasks s))"
    using assms all_busy_iff [OF assms(1)] by (auto simp: executor_ok_def)
  then obtain i where i: "i < length (e_tasks s)" "\<not> tk_in_use (e_tasks s ! i)" using free_task_exists by blast
  obtain r where r: "find_task (\<lambda>t. \<not> tk_in_use t) (e_tasks s) 0 (length (e_tasks s)) = Inr r"
    using find_task_spec [of 0 "length (e_tasks s)" "e_tasks s"] by fastforce
  with i find_task_None [of "\<lambda>t. \<not> tk_in_use t" "e_tasks s" i] show ?thesis by (cases r) auto
qed

lemma advance_task_more:
  assumes "advance_task process ds i s = Inr (b, s')"
  shows "executor.more s' = executor.more s"
proof -
  let ?t = "e_tasks s ! i"
  have i: "i < length (e_tasks s)" using assms by (auto simp: advance_task_def vec_at_eq_Inr)
  show ?thesis
  proof (cases "tk_in_use ?t")
    case True
    with assms i obtain q x where w: "task_work process ds (tk_request ?t) (load_world s (tk_exec ?t)) = Inr (q, x)"
      by (auto simp: advance_task_def)
    show ?thesis
      using assms i True w by (cases "x_finished x") (auto simp: advance_task_def Let_def store_world_def)
  next
    case False
    with assms i show ?thesis by (simp add: advance_task_def)
  qed
qed

lemma advance_idle:
  assumes "executor_ok s" "e_active s = 0"
  shows "advance_pass process ds s = Inr (False, s)"
proof -
  have n: "\<not> tk_in_use (e_tasks s ! i)" if "i < length (e_tasks s)" for i
    using in_use_count_pos [of i "e_tasks s"] that assms by (auto simp: executor_ok_def)
  have "rfold (\<lambda>i (b, s). rbind (advance_task process ds i s) (\<lambda>(b', s'). Inr (b \<or> b', s'))) is (False, s) = Inr (False, s)"
    if "\<forall>i \<in> set is. i < length (e_tasks s)" for "is"
    using that n by (induction "is") (auto simp: advance_task_def vec_at_def simp del: rbind_eq_Inr)
  then show ?thesis using assms(1) by (simp add: advance_pass_def executor_ok_def)
qed

section \<open>What the counters count\<close>

text \<open>The task's transaction ended between two states, with the decision \<open>d\<close> sent to the store.\<close>

definition ended_with :: "txn_status \<Rightarrow> 'a executor_scheme \<Rightarrow> 'a executor_scheme \<Rightarrow> nat \<Rightarrow> bool" where
  "ended_with d s s' i \<longleftrightarrow> tk_in_use (e_tasks s ! i) \<and> \<not> tk_in_use (e_tasks s' ! i) \<and>
     x_finished (tk_exec (e_tasks s' ! i)) \<and> decisions (tk_exec (e_tasks s' ! i)) = [d]"

lemma reach_decided:
  assumes "exec_reach x0 x" "x_finished x"
  shows "decisions x = [x_status x] \<and> x_status x \<in> {Committed, Aborted}"
proof -
  obtain p where p: "in_phase p x" using reach_phase [OF assms(1)] by blast
  with assms(2) show ?thesis
    by (cases p)
      (auto simp: client_state_def reading_def uploading_def timestamping_def running_def validating_def logging_def deciding_def
        finalizing_def committed_def rejecting_def undoing_def releasing_def aborted_def decided_def rejected_def undone_def)
qed

lemma advance_task_ends:
  assumes "executor_ok s" "advance_task process ds i s = Inr (b, s')"
  shows "i < length (e_tasks s) \<and> (\<forall>j. j \<noteq> i \<longrightarrow> e_tasks s' ! j = e_tasks s ! j) \<and>
    e_commits s' = e_commits s + (if ended_with Committed s s' i then 1 else 0) \<and>
    e_aborts s' = e_aborts s + (if ended_with Aborted s s' i then 1 else 0)"
proof -
  let ?t = "e_tasks s ! i"
  have i: "i < length (e_tasks s)" using assms(2) by (auto simp: advance_task_def vec_at_eq_Inr)
  have ok: "task_ok ?t" using assms(1) i by (simp add: executor_ok_def)
  show ?thesis
  proof (cases "tk_in_use ?t")
    case False
    with assms i show ?thesis by (auto simp: advance_task_def ended_with_def)
  next
    case True
    from ok True obtain x0 where "exec_reach x0 (tk_exec ?t)" by (auto simp: task_ok_def)
    then have r0: "exec_reach x0 (load_world s (tk_exec ?t))" by (rule load_world_reach)
    from assms(2) i True obtain q x where w: "task_work process ds (tk_request ?t) (load_world s (tk_exec ?t)) = Inr (q, x)"
      by (auto simp: advance_task_def)
    note d = reach_decided [OF task_work_reach [OF w r0]]
    show ?thesis
      using assms(2) i True w d
      by (cases "x_finished x") (auto simp: advance_task_def Let_def ended_with_def task_release_def)
  qed
qed

lemma advance_pass_ends:
  assumes "executor_ok s" "advance_pass process ds s = Inr (b, s')"
  shows "e_commits s' = e_commits s + int (length (filter (ended_with Committed s s') [0..<e_concurrent s])) \<and>
    e_aborts s' = e_aborts s + int (length (filter (ended_with Aborted s s') [0..<e_concurrent s]))"
proof -
  let ?f = "\<lambda>i (b, s). rbind (advance_task process ds i s) (\<lambda>(b', s'). Inr (b \<or> b', s'))"
  let ?c = "\<lambda>d u k. int (length (filter (ended_with d s u) [0..<k]))"
  let ?P = "\<lambda>k (b :: bool, u). executor_ok u \<and> (\<forall>j \<ge> k. e_tasks u ! j = e_tasks s ! j) \<and>
    e_commits u = e_commits s + ?c Committed u k \<and> e_aborts u = e_aborts s + ?c Aborted u k"
  have "rfold ?f [0..<e_concurrent s] (False, s) = Inr (b, s')" using assms(2) by (simp add: advance_pass_def)
  moreover have "?P 0 (False, s)" using assms(1) by simp
  moreover have "?P (Suc i) q" if p: "?P i p" and q: "?f i p = Inr q" for i p q
  proof -
    obtain b1 u where p': "p = (b1, u)" by fastforce
    with q obtain b2 v where a: "advance_task process ds i u = Inr (b2, v)" and q': "q = (b1 \<or> b2, v)" by auto
    from p p' have u: "executor_ok u" "\<forall>j \<ge> i. e_tasks u ! j = e_tasks s ! j"
        "e_commits u = e_commits s + ?c Committed u i" "e_aborts u = e_aborts s + ?c Aborted u i" by simp_all
    note e = advance_task_ends [OF u(1) a]
    have same: "ended_with d s v j = ended_with d s u j" if "j < i" for d j using e that by (simp add: ended_with_def)
    then have "filter (ended_with d s v) [0..<i] = filter (ended_with d s u) [0..<i]" for d by (intro filter_cong) auto
    moreover have "ended_with d s v i = ended_with d u v i" for d using u(2) by (simp add: ended_with_def)
    ultimately have "?c d v (Suc i) = ?c d u i + (if ended_with d u v i then 1 else 0)" for d by simp
    moreover have "executor_ok v" using advance_task_cases [OF u(1) a] by blast
    moreover have "\<forall>j \<ge> Suc i. e_tasks v ! j = e_tasks s ! j" using e u(2) by simp
    ultimately show ?thesis using e u(3,4) by (simp add: q')
  qed
  ultimately have "?P (e_concurrent s) (b, s')" by (rule rfold_upto)
  then show ?thesis by simp
qed

end
