(* ===== verification/Executor_Contract.thy ===== *)
theory Executor_Contract
  imports Executor_Invariants
begin

text \<open>
  What the two executors have in common as an interface: a transition system whose steps keep the tasks in order
  and never lose count of a transaction, and the loop \<^verbatim>\<open>Run\<close> over rounds of launching and advancing.  The facts
  about reachable states and about the end of \<^verbatim>\<open>Run\<close> are proved once, for both.
\<close>

locale executor_system =
  fixes start :: "'a executor_scheme \<Rightarrow> bool"
    and step :: "'a executor_scheme \<Rightarrow> 'a executor_scheme \<Rightarrow> bool"
    and reach :: "'a executor_scheme \<Rightarrow> bool"
    and good :: "'a executor_scheme \<Rightarrow> bool"
  assumes good_executor: "good s \<Longrightarrow> executor_ok s"
    and start_good: "start s \<Longrightarrow> good s \<and> taken_up s = 0"
    and step_good: "step s s' \<Longrightarrow> good s \<Longrightarrow> good s' \<and> taken_up s \<le> taken_up s'"
    and reach_induct: "reach s \<Longrightarrow> (\<And>s. start s \<Longrightarrow> P s) \<Longrightarrow> (\<And>s s'. P s \<Longrightarrow> step s s' \<Longrightarrow> P s') \<Longrightarrow> P s"
begin

lemma reach_good:
  assumes "reach s"
  shows "good s \<and> 0 \<le> taken_up s"
  using assms
proof (rule reach_induct)
  show "good s \<and> 0 \<le> taken_up s" if "start s" for s using start_good [OF that] by simp
  show "good s' \<and> 0 \<le> taken_up s'" if "good s \<and> 0 \<le> taken_up s" "step s s'" for s s'
    using step_good that by fastforce
qed

lemma reach_executor: "reach s \<Longrightarrow> executor_ok s"
  using reach_good good_executor by blast

lemma active_range: "good s \<Longrightarrow> 0 \<le> e_active s \<and> e_active s \<le> int (e_concurrent s)"
  using all_busy_iff(2,3) good_executor by blast

lemma idle_tasks:
  assumes "good s" "e_active s = 0" "t \<in> set (e_tasks s)"
  shows "\<not> tk_in_use t"
proof -
  obtain i where "i < length (e_tasks s)" "e_tasks s ! i = t" using assms(3) by (auto simp: in_set_conv_nth)
  with in_use_count_pos [of i "e_tasks s"] assms(1,2) show ?thesis
    using good_executor by (fastforce simp: executor_ok_def)
qed

end

text \<open>
  \<^verbatim>\<open>Run\<close> goes on while requests are waiting or a transaction is active.  \<open>one_round\<close> launches, advances and
  sends the batch; \<open>env_ok\<close> says of the clients and the handler that what they do between rounds keeps \<open>inv\<close>.
\<close>

locale executor_run = executor_system start step reach good
  for start :: "'a executor_scheme \<Rightarrow> bool" and step reach good +
  fixes inv :: "'a executor_scheme \<Rightarrow> bool"
    and env_ok :: "(nat \<Rightarrow> 'a executor_scheme \<Rightarrow> 'a executor_scheme) \<Rightarrow> bool"
    and waiting :: "'a executor_scheme \<Rightarrow> bool"
    and one_round :: "(nat \<Rightarrow> 'a executor_scheme \<Rightarrow> 'a executor_scheme) \<Rightarrow> nat \<Rightarrow> 'a executor_scheme \<Rightarrow> 'a executor_scheme res option"
    and run :: "(nat \<Rightarrow> 'a executor_scheme \<Rightarrow> 'a executor_scheme) \<Rightarrow> nat \<Rightarrow> 'a executor_scheme \<Rightarrow> 'a executor_scheme res option"
  assumes inv_good: "inv s \<Longrightarrow> good s"
    and round_inv: "env_ok env \<Longrightarrow> inv s \<Longrightarrow> one_round env n s = Some (Inr s') \<Longrightarrow> inv s'"
    and run_none: "run env 0 s = None"
    and run_more: "run env (Suc n) s =
      (if waiting s \<or> 0 < e_active s then
         (case one_round env n s of
            None \<Rightarrow> None
          | Some (Inl e) \<Rightarrow> Some (Inl e)
          | Some (Inr s') \<Rightarrow> run env n s')
       else Some (Inr s))"
begin

lemma run_inv:
  assumes "env_ok env" "run env n s = Some (Inr s')" "inv s"
  shows "inv s' \<and> \<not> waiting s' \<and> e_active s' = 0"
  using assms(2,3)
proof (induction n arbitrary: s)
  case 0
  then show ?case by (simp add: run_none)
next
  case (Suc n)
  show ?case
  proof (cases "waiting s \<or> 0 < e_active s")
    case True
    with Suc.prems(1) obtain u where u: "one_round env n s = Some (Inr u)" "run env n u = Some (Inr s')"
      by (auto simp: run_more split: option.splits sum.splits)
    with round_inv [OF assms(1) Suc.prems(2) u(1)] Suc.IH [OF u(2)] show ?thesis by blast
  next
    case False
    with Suc.prems active_range [OF inv_good, of s] show ?thesis by (auto simp: run_more)
  qed
qed

text \<open>When \<^verbatim>\<open>Run\<close> returns nothing is waiting, no task is in use and every transaction begun was counted.\<close>

lemma run_clean:
  assumes "env_ok env" "run env n s = Some (Inr s')" "inv s"
  shows "inv s' \<and> \<not> waiting s' \<and> (\<forall>t \<in> set (e_tasks s'). \<not> tk_in_use t) \<and> taken_up s' = e_commits s' + e_aborts s'"
proof -
  note r = run_inv [OF assms]
  then have "taken_up s' = e_commits s' + e_aborts s'" by (simp add: taken_up_def)
  with r idle_tasks [OF inv_good, of s'] show ?thesis by auto
qed

text \<open>A run over an executor with nothing to do returns it as it is.\<close>

lemma run_nothing: "\<not> waiting s \<Longrightarrow> e_active s = 0 \<Longrightarrow> run env (Suc n) s = Some (Inr s)"
  by (simp add: run_more)

end

end
