(* ===== verification/Runtime_Invariants.thy ===== *)
theory Runtime_Invariants
  imports Runtime_Executor Executor_Contract
begin

text \<open>
  The steps of the runtime executor among its clients and the handler, its reachable states, and the
  case analysis of one turn of \<^verbatim>\<open>LaunchRequests\<close>.
\<close>

section \<open>Launching requests\<close>

lemma rt_fetch_frame:
  assumes "rt_fetch mq s0 = Some (r, s)"
  shows "rt_current s = Some r" "e_tasks s = e_tasks s0" "e_active s = e_active s0" "e_concurrent s = e_concurrent s0"
    "executor_ok s = executor_ok s0" "taken_up s = taken_up s0" "w_reqs s = w_reqs s0" "all_busy s = all_busy s0"
    "sessions s = sessions s0" "e_commits s = e_commits s0" "e_aborts s = e_aborts s0"
  using assms by (auto simp: rt_fetch_def executor_ok_def taken_up_def all_busy_def sessions_def split: option.splits)

text \<open>One turn of the loop either stops, or starts a transaction, or routes a request.\<close>

lemma rt_launch_one_cases:
  assumes "executor_ok s0" "rt_launch_one mq s0 = Inr (b, s')"
  obtains (empty) "rt_fetch mq s0 = None" "\<not> b" "s' = s0"
  | (hold) r q where "rt_fetch mq s0 = Some (r, s')" "\<not> b" "w_reqs s0 r = Some q" "rq_op q = Begin" "all_busy s0"
  | (started) r q s i s1 s2 where "rt_fetch mq s0 = Some (r, s)" "b" "w_reqs s0 r = Some q" "rq_op q = Begin"
      "i < length (e_tasks s)" "\<not> tk_in_use (e_tasks s ! i)" "\<And>k. k < i \<Longrightarrow> tk_in_use (e_tasks s ! k)"
      "start_task i (rq_session_id q) s = Inr s1" "push_to_task i r s1 = Inr s2" "s' = s2\<lparr>rt_current := None\<rparr>"
  | (routed) r q s i s1 where "rt_fetch mq s0 = Some (r, s)" "b" "w_reqs s0 r = Some q" "rq_op q \<noteq> Begin"
      "i < length (e_tasks s)" "tk_session (e_tasks s ! i) = rq_session_id q"
      "\<And>k. k < i \<Longrightarrow> tk_session (e_tasks s ! k) \<noteq> rq_session_id q"
      "push_to_task i r s = Inr s1" "s' = s1\<lparr>rt_current := None\<rparr>"
proof (cases "rt_fetch mq s0")
  case None
  with assms(2) show thesis by (intro empty) (auto simp: rt_launch_one_def)
next
  case (Some p)
  then obtain r s where f: "rt_fetch mq s0 = Some (r, s)" by (cases p) auto
  note fr = rt_fetch_frame [OF f]
  have len: "e_concurrent s = length (e_tasks s)" using assms(1) fr by (simp add: executor_ok_def)
  from assms(2) f obtain q where q: "w_reqs s r = Some q" by (auto simp: rt_launch_one_def)
  show thesis
  proof (cases "rq_op q = Begin")
    case True
    show thesis
    proof (cases "all_busy s")
      case True': True
      with assms(2) f q True fr show thesis by (intro hold [of r q]) (auto simp: rt_launch_one_def)
    next
      case False
      with assms(2) f q True obtain found where found: "find_task (\<lambda>t. \<not> tk_in_use t) (e_tasks s) 0 (length (e_tasks s)) = Inr found"
        by (auto simp: rt_launch_one_def len)
      with assms(2) f q True False obtain i where i: "found = Some i"
        by (cases found) (auto simp: rt_launch_one_def len)
      from assms(2) f q True False found i obtain s1 s2 where s12: "start_task i (rq_session_id q) s = Inr s1"
          "push_to_task i r s1 = Inr s2" "s' = s2\<lparr>rt_current := None\<rparr>" "b"
        by (auto simp: rt_launch_one_def len)
      note ft = find_task_Some [OF found [unfolded i]]
      show thesis using f s12 q fr True ft by (intro started [of r s q i s1 s2]) auto
    qed
  next
    case False
    with assms(2) f q obtain found where found: "find_task (\<lambda>t. tk_session t = rq_session_id q) (e_tasks s) 0 (length (e_tasks s)) = Inr found"
      by (auto simp: rt_launch_one_def len)
    with assms(2) f q False obtain i where i: "found = Some i"
      by (cases found) (auto simp: rt_launch_one_def len)
    from assms(2) f q False found i obtain s1 where s1: "push_to_task i r s = Inr s1" "s' = s1\<lparr>rt_current := None\<rparr>" "b"
      by (auto simp: rt_launch_one_def len)
    note ft = find_task_Some [OF found [unfolded i]]
    show thesis using f s1 q fr False ft by (intro routed [of r s q i s1]) auto
  qed
qed

lemma push_to_task_frame:
  assumes "push_to_task i r s = Inr s'"
  shows "i < length (e_tasks s) \<and>
    e_tasks s' = (e_tasks s)[i := (e_tasks s ! i)\<lparr>tk_request := push_request r (tk_request (e_tasks s ! i))\<rparr>] \<and>
    e_commits s' = e_commits s \<and> e_aborts s' = e_aborts s \<and> e_active s' = e_active s \<and> e_concurrent s' = e_concurrent s \<and>
    sessions s' = sessions s \<and> map tk_in_use (e_tasks s') = map tk_in_use (e_tasks s)"
  using assms by (auto simp: push_to_task_def vec_at_eq_Inr sessions_def map_update list_update_same_conv)

lemma start_task_frame:
  assumes "start_task i session_id s = Inr s'"
  shows "e_commits s' = e_commits s \<and> e_aborts s' = e_aborts s \<and> e_concurrent s' = e_concurrent s"
  using assms by (auto simp: start_task_def)

lemma executor_ok_current [simp]:
  "executor_ok (s\<lparr>rt_current := c\<rparr>) = executor_ok s" "taken_up (s\<lparr>rt_current := c\<rparr>) = taken_up s"
  "sessions (s\<lparr>rt_current := c\<rparr>) = sessions s"
  by (simp_all add: executor_ok_def taken_up_def sessions_def)

lemma rt_launch_one_ok:
  assumes "executor_ok s" "rt_launch_one mq s = Inr (b, s')"
  shows "executor_ok s' \<and> taken_up s \<le> taken_up s' \<and> e_commits s' = e_commits s \<and> e_aborts s' = e_aborts s"
  using assms
proof (cases rule: rt_launch_one_cases)
  case empty
  with assms(1) show ?thesis by simp
next
  case (hold r q)
  from assms(1) rt_fetch_frame [OF hold(1)] show ?thesis by simp
next
  case (started r q s1 i s2 s3)
  note fr = rt_fetch_frame [OF started(1)]
  have ok: "executor_ok s1" using assms(1) fr by simp
  note st = start_task_ok [OF ok started(8,6)] and sf = start_task_frame [OF started(8)]
  note pt = push_to_task_ok [OF st(1) started(9)] and pf = push_to_task_frame [OF started(9)]
  have "taken_up s3 = taken_up s + 1" using st(2) sf pt pf fr by (simp add: taken_up_def)
  then show ?thesis using pt pf sf fr(10,11) started(10) by simp
next
  case (routed r q s1 i s2)
  note fr = rt_fetch_frame [OF routed(1)]
  have ok: "executor_ok s1" using assms(1) fr by simp
  note pt = push_to_task_ok [OF ok routed(8)] and pf = push_to_task_frame [OF routed(8)]
  have "taken_up s2 = taken_up s" using pf fr by (simp add: taken_up_def)
  then show ?thesis using pt pf fr(10,11) routed(9) by simp
qed

lemma rt_launch_requests_invariant:
  assumes "rt_launch_requests mq n s = Some (Inr s')" "P s"
    and "\<And>u b v. P u \<Longrightarrow> rt_launch_one mq u = Inr (b, v) \<Longrightarrow> P v"
  shows "P s' \<and> (\<exists>u. P u \<and> rt_launch_one mq u = Inr (False, s'))"
  using assms(1,2)
proof (induction n arbitrary: s)
  case (Suc n)
  then obtain b v where b: "rt_launch_one mq s = Inr (b, v)" by (auto split: sum.splits)
  then have v: "P v" using assms(3) Suc.prems(2) by blast
  show ?case
  proof (cases b)
    case True
    with Suc.prems(1) b have "rt_launch_requests mq n v = Some (Inr s')" by simp
    then show ?thesis using Suc.IH v by blast
  next
    case False
    with Suc.prems b v show ?thesis by auto
  qed
qed simp

section \<open>Reachable states of the runtime executor\<close>

text \<open>
  One step: a client adds a request, one turn of \<^verbatim>\<open>LaunchRequests\<close>, one task of \<^verbatim>\<open>Advance\<close>, \<^verbatim>\<open>SendBatch\<close>, an
  answer of the handler, or a change outside the executor.  The passes of \<^verbatim>\<open>Run\<close> are sequences of these.
\<close>

inductive rt_step :: "'q mpmc \<Rightarrow> (op_request \<Rightarrow> op_request) \<Rightarrow> 'q rt_executor \<Rightarrow> 'q rt_executor \<Rightarrow> bool"
  for mq process where
  add: "rt_step mq process s (rt_add_request mq r s)"
| launch: "rt_launch_one mq s = Inr (b, s') \<Longrightarrow> rt_step mq process s s'"
| advance: "advance_task process None i s = Inr (b, s') \<Longrightarrow> rt_step mq process s s'"
| batch: "rt_step mq process s (send_batch s)"
| answer: "answer_task i r a s = Some s' \<Longrightarrow> rt_step mq process s s'"
| outside: "rt_step mq process s (set_outside h m now s)"

inductive rt_reach :: "'q mpmc \<Rightarrow> (op_request \<Rightarrow> op_request) \<Rightarrow> 'q rt_executor \<Rightarrow> bool" for mq process where
  start: "new_rt_executor executor_id n has_log raw q w = Inr s \<Longrightarrow> n < 2 ^ 31 \<Longrightarrow> rt_reach mq process s"
| step: "rt_reach mq process s \<Longrightarrow> rt_step mq process s s' \<Longrightarrow> rt_reach mq process s'"

inductive_cases rt_stepE: "rt_step mq process s s'"

lemma rt_add_request_ok [simp]:
  "executor_ok (rt_add_request mq r s) = executor_ok s" "taken_up (rt_add_request mq r s) = taken_up s"
  "sessions (rt_add_request mq r s) = sessions s" "e_tasks (rt_add_request mq r s) = e_tasks s"
  by (simp_all add: rt_add_request_def executor_ok_def taken_up_def sessions_def)

lemma new_rt_executor_ok:
  assumes "new_rt_executor executor_id n has_log raw q w = Inr s" "n < 2 ^ 31"
  shows "executor_ok s \<and> taken_up s = 0"
proof -
  obtain ts where ts: "new_tasks executor_id has_log raw n = Inr ts" "length ts = n" "in_use_count ts = 0" "\<forall>t \<in> set ts. task_ok t"
    using new_tasks_ok by blast
  with assms show ?thesis by (auto simp: new_rt_executor_def executor_ok_def taken_up_def)
qed

lemma rt_step_ok:
  assumes "rt_step mq process s s'" "executor_ok s"
  shows "executor_ok s' \<and> taken_up s \<le> taken_up s'"
  using assms(1)
proof cases
  case (launch b)
  with rt_launch_one_ok [OF assms(2)] show ?thesis by blast
next
  case (advance i b)
  with advance_task_cases [OF assms(2)] show ?thesis by simp
next
  case (answer i r a)
  with answer_task_ok [OF assms(2)] show ?thesis by simp
qed (use assms(2) in auto)

definition rt_start :: "'q rt_executor \<Rightarrow> bool" where
  "rt_start s \<longleftrightarrow> (\<exists>executor_id n has_log raw q w. new_rt_executor executor_id n has_log raw q w = Inr s \<and> n < 2 ^ 31)"

interpretation rt: executor_system rt_start "rt_step mq process" "rt_reach mq process" executor_ok
  for mq :: "'q mpmc" and process
proof unfold_locales
  show "executor_ok s \<and> taken_up s = 0" if "rt_start s" for s :: "'q rt_executor"
    using that unfolding rt_start_def by (elim exE conjE) (rule new_rt_executor_ok)
  show "P s" if "rt_reach mq process s" "\<And>s. rt_start s \<Longrightarrow> P s" "\<And>s s'. P s \<Longrightarrow> rt_step mq process s s' \<Longrightarrow> P s'" for P s
    using that(1)
  proof (induction rule: rt_reach.induct)
    case (start executor_id n has_log raw q w s)
    then have "rt_start s" unfolding rt_start_def by (intro exI conjI)
    then show ?case by (rule that(2))
  next
    case (step s s')
    then show ?case using that(3) by blast
  qed
qed (simp_all add: rt_step_ok)

lemma rt_reach_ok: "rt_reach mq process s \<Longrightarrow> executor_ok s \<and> 0 \<le> taken_up s"
  by (rule rt.reach_good)

section \<open>The rounds of Run\<close>

lemma rt_advance_reach:
  assumes "rt_reach mq process s" "rt_advance process s = Inr s'"
  shows "rt_reach mq process s'"
proof -
  obtain b where b: "advance_pass process None s = Inr (b, s')" using assms(2) by (auto simp: rt_advance_def)
  let ?f = "\<lambda>i (b, s). rbind (advance_task process None i s) (\<lambda>(b', s'). Inr (b \<or> b', s'))"
  let ?P = "\<lambda>(b :: bool, u). rt_reach mq process u"
  have "rfold ?f [0..<e_concurrent s] (False, s) = Inr (b, s')" using b by (simp add: advance_pass_def)
  moreover have "?P (False, s)" using assms(1) by simp
  moreover have "?P q" if "?P p" "?f i p = Inr q" for i p q
    using that rt_step.advance rt_reach.step by (cases p) fastforce
  ultimately have "?P (b, s')" by (rule rfold_invariant)
  then show ?thesis by simp
qed

definition rt_round :: "'q mpmc \<Rightarrow> (op_request \<Rightarrow> op_request) \<Rightarrow> nat \<Rightarrow> (nat \<Rightarrow> 'q rt_executor \<Rightarrow> 'q rt_executor) \<Rightarrow> nat \<Rightarrow>
    'q rt_executor \<Rightarrow> 'q rt_executor res option" where
  "rt_round mq process m env n s =
     (case rt_launch_requests mq m s of
        None \<Rightarrow> None
      | Some r \<Rightarrow> Some (rbind r (\<lambda>s1. rbind (rt_advance process s1) (\<lambda>s2. Inr (env n (send_batch s2))))))"

interpretation rt_loop: executor_run rt_start "rt_step mq process" "rt_reach mq process" executor_ok
    "rt_reach mq process" "\<lambda>env. \<forall>k u. rt_reach mq process u \<longrightarrow> rt_reach mq process (env k u)"
    "\<lambda>s. \<not> mq_is_empty mq (rt_queue s)" "rt_round mq process m" "\<lambda>env. rt_run mq process env m"
  for mq :: "'q mpmc" and process and m
proof unfold_locales
  fix env :: "nat \<Rightarrow> 'q rt_executor \<Rightarrow> 'q rt_executor" and s s' n
  assume e: "\<forall>k u. rt_reach mq process u \<longrightarrow> rt_reach mq process (env k u)" and s: "rt_reach mq process s"
    and r: "rt_round mq process m env n s = Some (Inr s')"
  from r obtain s1 s2 where l: "rt_launch_requests mq m s = Some (Inr s1)" and a: "rt_advance process s1 = Inr s2"
    and s': "s' = env n (send_batch s2)"
    by (auto simp: rt_round_def split: option.splits)
  have "rt_reach mq process s1"
    using rt_launch_requests_invariant [OF l, of "rt_reach mq process"] s rt_reach.step rt_step.launch by blast
  then have "rt_reach mq process s2" using rt_advance_reach a by blast
  then show "rt_reach mq process s'" using e rt_reach.step rt_step.batch s' by blast
qed (auto simp: rt_round_def rt.reach_executor split: option.splits sum.splits)

end
