(* ===== verification/Runtime_Samples.thy ===== *)
theory Runtime_Samples
  imports Runtime_Invariants
begin

text \<open>
  Runs of the runtime executor with one task, evaluated by rewriting; the examples use the states they reach.
\<close>

section \<open>A queue and a world\<close>

text \<open>A bounded list is such a queue; the examples use it.\<close>

definition bounded_list :: "nat \<Rightarrow> req_id list mpmc" where
  "bounded_list capacity =
     \<lparr>mq_write = \<lambda>r q. if length q < capacity then (True, q @ [r]) else (False, q),
      mq_read = \<lambda>q. case q of [] \<Rightarrow> None | r # q' \<Rightarrow> Some (r, q'),
      mq_is_empty = \<lambda>q. q = []\<rparr>"

lemma bounded_list_fifo: "mpmc_fifo (bounded_list n) (\<lambda>q. q) n"
  by (simp add: mpmc_fifo_def bounded_list_def split: list.splits)

definition world0 :: world where
  "world0 = \<lparr>w_heap = (\<lambda>_. None), w_reqs = (\<lambda>_. Some (new_control_request 1 Begin False)), w_now = 100,
     w_time = new_local_time_provider 100, w_ids = \<lparr>ig_id = 1, ig_start = 1, ig_end = 1000\<rparr>\<rparr>"

lemma rt_reach_start:
  assumes "n < 2 ^ 31"
  shows "\<exists>s. rt_reach (bounded_list c) process s \<and> e_concurrent s = n \<and> rt_queue s = [] \<and> rt_current s = None \<and>
    e_active s = 0 \<and> sessions s = replicate n 0 \<and> w_ids s = w_ids world0 \<and> w_time s = w_time world0 \<and> w_now s = 100 \<and> (\<forall>i < n. \<not> tk_in_use (e_tasks s ! i))"
proof -
  obtain ts where ts: "new_tasks 0 False (\<lambda>_. run0) n = Inr ts" "length ts = n" "\<forall>i < n. \<not> tk_in_use (ts ! i) \<and> tk_session (ts ! i) = 0"
    using new_tasks_ok [of 0 False "\<lambda>_. run0" n] new_tasks_idle [of 0 False "\<lambda>_. run0" n] by (auto simp: all_set_conv_all_nth)
  from ts(2,3) have "map tk_session ts = replicate n 0" by (auto simp: list_eq_iff_nth_eq)
  with ts obtain s where s: "new_rt_executor 0 n False (\<lambda>_. run0) ([] :: req_id list) world0 = Inr s" "e_concurrent s = n \<and> rt_queue s = [] \<and> rt_current s = None \<and>
    e_active s = 0 \<and> sessions s = replicate n 0 \<and> w_ids s = w_ids world0 \<and> w_time s = w_time world0 \<and> w_now s = 100 \<and> (\<forall>i < n. \<not> tk_in_use (e_tasks s ! i))"
    by (auto simp: new_rt_executor_def sessions_def world0_def)
  show ?thesis by (intro exI [of _ s] conjI rt_reach.start [OF s(1) assms]) (simp_all add: s(2))
qed

lemma start_task_total:
  assumes "i < length (e_tasks s)" "w_ids s = w_ids world0" "w_time s = w_time world0" "w_now s = 100"
  shows "\<exists>s'. start_task i z s = Inr s'"
proof -
  have g: "generate_id (w_ids world0) = Inr (2, \<lparr>ig_id = 2, ig_start = 1, ig_end = 1000\<rparr>)"
    by (simp add: generate_id_def world0_def i64_add_def i64_check_def i64_defs Let_def del: rbind_eq_Inr)
  obtain tp where t: "get_time 100 (w_time world0) = Inr (100, tp)"
    by (simp add: get_time_def world0_def new_local_time_provider_def TIME_PROVIDER_INTERVAL_def i64_add_def i64_check_def i64_defs Let_def)
  show ?thesis
    using assms g t
    by (simp add: start_task_def task_reset_def exec_reset_def reset_txn_id_and_time_def exec_get_time_def load_world_def
        vec_at_def del: rbind_eq_Inr)
qed

section \<open>Runs as lists of events\<close>

lemmas executor_simps = run_steps rq_set_up_def new_rt_executor_def new_tasks_def copy_exec_def new_task_def new_exec_def copy_local_state_def
  txn_entry_copy_def result_copy_def rt_add_request_def rt_fetch_def rt_launch_one_def all_busy_def start_task_def task_reset_def
  load_world_def store_world_def push_to_task_def advance_task_def task_work_def task_release_def answer_task_def
  bounded_list_def read_slot_copy_def write_slot_copy_def

datatype rt_event = RtAdd req_id | RtLaunch | RtAdvance nat | RtAnswer nat op_ref reply

fun run_rt_event :: "'q mpmc \<Rightarrow> rt_event \<Rightarrow> 'q rt_executor \<Rightarrow> 'q rt_executor res" where
  "run_rt_event mq (RtAdd r) s = Inr (rt_add_request mq r s)"
| "run_rt_event mq RtLaunch s = rbind (rt_launch_one mq s) (\<lambda>(_, s'). Inr s')"
| "run_rt_event mq (RtAdvance i) s = rbind (advance_task id None i s) (\<lambda>(_, s'). Inr s')"
| "run_rt_event mq (RtAnswer i r a) s = (case answer_task i r a s of None \<Rightarrow> Inl (Thrown ''no such answer'') | Some s' \<Rightarrow> Inr s')"

lemma rt_event_step: "run_rt_event mq e s = Inr s' \<Longrightarrow> rt_step mq id s s'"
  by (cases e) (auto intro: rt_step.intros split: option.splits)

lemma rt_events_reach: "rfold (run_rt_event mq) es s = Inr s' \<Longrightarrow> rt_reach mq id s \<Longrightarrow> rt_reach mq id s'"
  by (rule rfold_invariant [where P = "rt_reach mq id"]) (auto intro: rt_reach.step rt_event_step)

definition rt_sample :: "(req_id \<rightharpoonup> op_request) \<Rightarrow> rt_event list \<Rightarrow> req_id list rt_executor res" where
  "rt_sample reqs es = rbind (new_rt_executor 0 1 False (\<lambda>_. run0) [] (world0\<lparr>w_reqs := reqs\<rparr>)) (rfold (run_rt_event (bounded_list 5)) es)"

lemma rt_sample_reach: "rt_sample reqs es = Inr s \<Longrightarrow> rt_reach (bounded_list 5) id s"
proof -
  assume "rt_sample reqs es = Inr s"
  then obtain s0 where s0: "new_rt_executor 0 1 False (\<lambda>_. run0) ([] :: req_id list) (world0\<lparr>w_reqs := reqs\<rparr>) = Inr s0"
    and run: "rfold (run_rt_event (bounded_list 5)) es s0 = Inr s" by (auto simp: rt_sample_def)
  show ?thesis by (rule rt_events_reach [OF run rt_reach.start [OF s0]]) simp
qed

text \<open>Session 7 began with request 3 and sends request 4.\<close>

definition example_requests :: "req_id \<rightharpoonup> op_request" where
  "example_requests = [3 \<mapsto> new_control_request 7 Begin False, 4 \<mapsto> new_op_request 7 ''t'' (Some (IntKey 1)) None Read False False]"

lemma rt_example:
  "\<exists>s. rt_sample example_requests [RtAdd 3, RtLaunch, RtAdd 4] = Inr s \<and> rt_queue s = [4] \<and> rt_current s = None \<and>
     w_reqs s = example_requests \<and> length (e_tasks s) = 1 \<and> tk_in_use (e_tasks s ! 0) \<and> tk_session (e_tasks s ! 0) = 7"
  by (simp add: rt_sample_def executor_simps world0_def upt_conv_Cons example_requests_def
     del: rbind_eq_Inr upd_read_entry_Inr upd_write_entry_Inr)

text \<open>Session 7 begins and aborts, session 9 begins and is held back, up to the last pass of the first transaction.\<close>

definition held_requests :: "req_id \<rightharpoonup> op_request" where
  "held_requests = [3 \<mapsto> new_control_request 7 Begin False, 4 \<mapsto> new_control_request 7 Abort False,
     5 \<mapsto> new_control_request 9 Begin False]"

definition held_run :: "rt_event list" where
  "held_run = [RtAdd 3, RtAdd 4, RtAdd 5, RtLaunch, RtLaunch, RtLaunch,
     RtAdvance 0, RtAnswer 0 OpInitTxn (ReplyNewTxn new_txn_entry), RtAdvance 0, RtAnswer 0 OpStatusAbort ReplyVoid, RtAdvance 0, RtAdvance 0]"

lemma held_example: "\<exists>s s2. rt_sample held_requests held_run = Inr s \<and> rt_current s = Some 5 \<and> w_reqs s 5 = held_requests 5 \<and> all_busy s \<and>
   0 < e_active s \<and> rt_queue s = [] \<and> rt_advance id s = Inr s2 \<and> e_active s2 = 0 \<and>
   length (e_tasks s) = 1 \<and> tk_in_use (e_tasks s ! 0) \<and> on_stack (tk_exec (e_tasks s ! 0)) OpReleaseCounter \<and>
   op_finished OpReleaseCounter (load_world s (tk_exec (e_tasks s ! 0))) = Inr True \<and>
   advance_task id None 0 s = Inr (True, s2) \<and> \<not> tk_in_use (e_tasks s2 ! 0)"
  by (simp add: rt_sample_def executor_simps world0_def upt_conv_Cons held_run_def held_requests_def rt_advance_def advance_pass_def
     on_stack_def del: rbind_eq_Inr upd_read_entry_Inr upd_write_entry_Inr)

text \<open>The three requests are waiting, and a call of \<^verbatim>\<open>LaunchRequests\<close> takes up two of them.\<close>

lemma launch_example: "\<exists>s s2. rt_sample held_requests [RtAdd 3, RtAdd 4, RtAdd 5] = Inr s \<and> rt_queue s = [3, 4, 5] \<and> rt_current s = None \<and>
   rt_launch_requests (bounded_list 5) 4 s = Some (Inr s2) \<and> rt_queue s2 = [] \<and> rt_current s2 = Some 5"
  by (simp add: rt_sample_def executor_simps world0_def upt_conv_Cons held_requests_def numeral_eq_Suc
     del: rbind_eq_Inr upd_read_entry_Inr upd_write_entry_Inr)

end
