(* ===== verification/Runtime_Properties.thy ===== *)
theory Runtime_Properties
  imports Runtime_Samples
begin

text \<open>
  The properties of the runtime executor: what its tasks hold, that the launch loop ends and what it leaves,
  how requests are queued and routed, what \<^verbatim>\<open>Advance\<close> counts and how \<^verbatim>\<open>Run\<close> ends.
\<close>

section \<open>Properties of the runtime executor\<close>

text \<open>
  C21: In every reachable state of the runtime executor the count of active transactions is the number of
  tasks in use, between 0 and the configured number; every task in use runs an unfinished transaction that
  started from a fresh execution, and every other task has an empty operation stack.
\<close>

theorem rt_tasks_well_formed:
  assumes "rt_reach mq process s"
  shows "length (e_tasks s) = e_concurrent s \<and> e_active s = int (length (filter tk_in_use (e_tasks s))) \<and>
    (\<forall>t \<in> set (e_tasks s). if tk_in_use t then (\<exists>x0. exec_reach x0 (tk_exec t)) \<and> \<not> x_finished (tk_exec t)
       else x_vec (tk_exec t) = [])"
proof -
  have "in_use_count ts = int (length (filter tk_in_use ts))" for ts
    by (induction ts) (auto simp: in_use_count_def)
  then show ?thesis using rt_reach_ok [OF assms] by (auto simp: executor_ok_def task_ok_def)
qed

theorem rt_tasks_well_formed_witness:
  "\<exists>s. rt_reach (bounded_list 5) id s \<and> e_concurrent s = 3 \<and> length (e_tasks s) = 3"
proof -
  obtain s where s: "rt_reach (bounded_list 5) id s" "e_concurrent s = 3" using rt_reach_start [of 3 5 id] by auto
  from rt_tasks_well_formed [OF s(1)] s show ?thesis by auto
qed

text \<open>
  A transaction that may begin finds a task: the runtime executor never throws for want of an empty
  task.
\<close>

lemma rt_always_finds_task:
  assumes "rt_reach mq process s"
  shows "rt_launch_one mq s \<noteq> Inl (Thrown ''no empty txn task'')"
proof
  assume err: "rt_launch_one mq s = Inl (Thrown ''no empty txn task'')"
  have ok: "executor_ok s" using rt_reach_ok [OF assms] by blast
  obtain r s1 where f: "rt_fetch mq s = Some (r, s1)" using err by (auto simp: rt_launch_one_def split: option.splits)
  note fr = rt_fetch_frame [OF f]
  have ok1: "executor_ok s1" using ok fr by simp
  have len: "e_concurrent s1 = length (e_tasks s1)" using ok1 by (simp add: executor_ok_def)
  obtain q where q: "w_reqs s1 r = Some q" using err f by (auto simp: rt_launch_one_def rbind_def deref_def split: option.splits)
  show False
  proof (cases "rq_op q = Begin \<and> \<not> all_busy s1")
    case True
    with free_task_found [OF ok1] obtain i where "find_task (\<lambda>t. \<not> tk_in_use t) (e_tasks s1) 0 (length (e_tasks s1)) = Inr (Some i)"
      by blast
    with err f q True have "rbind (start_task i (rq_session_id q) s1) (\<lambda>s2. rbind (push_to_task i r s2)
        (\<lambda>s3. Inr (True, s3\<lparr>rt_current := None\<rparr>))) = Inl (Thrown ''no empty txn task'')"
      by (simp add: rt_launch_one_def len)
    then show False by (auto simp: rbind_eq_Inl dest: start_task_error push_to_task_error)
  next
    case False
    obtain found where "find_task (\<lambda>t. tk_session t = rq_session_id q) (e_tasks s1) 0 (length (e_tasks s1)) = Inr found"
      using find_task_spec [of 0 "length (e_tasks s1)" "e_tasks s1"] by fastforce
    with err f q False show False
      by (cases found) (auto simp: rt_launch_one_def len rbind_eq_Inl dest: push_to_task_error split: if_splits)
  qed
qed

text \<open>The requests the launch loop still has before it: the one it holds and those in the queue.\<close>

definition backlog :: "('q \<Rightarrow> req_id list) \<Rightarrow> 'q rt_executor \<Rightarrow> req_id list" where
  "backlog contents s = (case rt_current s of None \<Rightarrow> [] | Some r \<Rightarrow> [r]) @ contents (rt_queue s)"

lemma mpmc_read:
  assumes "mpmc_fifo mq contents c"
  shows "mq_read mq q = None \<longleftrightarrow> contents q = []" "mq_read mq q = Some (r, q') \<Longrightarrow> contents q = r # contents q'"
    "mq_is_empty mq q \<longleftrightarrow> contents q = []"
proof -
  have "case mq_read mq q of None \<Rightarrow> contents q = [] | Some (r, q') \<Rightarrow> contents q = r # contents q'"
    using assms by (simp add: mpmc_fifo_def)
  then show "mq_read mq q = None \<longleftrightarrow> contents q = []" "mq_read mq q = Some (r, q') \<Longrightarrow> contents q = r # contents q'"
    by (auto split: option.splits)
  show "mq_is_empty mq q \<longleftrightarrow> contents q = []" using assms by (simp add: mpmc_fifo_def)
qed

lemma rt_fetch_backlog:
  assumes "mpmc_fifo mq contents c"
  shows "rt_fetch mq s = None \<longleftrightarrow> backlog contents s = []"
    and "rt_fetch mq s = Some (r, s') \<Longrightarrow> backlog contents s' = backlog contents s \<and> (\<exists>rs. backlog contents s = r # rs)"
  using mpmc_read [OF assms] by (auto simp: rt_fetch_def backlog_def split: option.splits)

lemma push_to_task_queue:
  assumes "push_to_task i r s = Inr s'"
  shows "rt_queue s' = rt_queue s \<and> rt_current s' = rt_current s"
  using assms by (auto simp: push_to_task_def)

lemma start_task_queue:
  assumes "start_task i z s = Inr s'"
  shows "rt_queue s' = rt_queue s \<and> rt_current s' = rt_current s"
  using assms by (auto simp: start_task_def store_world_def)

lemma rt_launch_one_backlog:
  assumes "mpmc_fifo mq contents c" "executor_ok s" "rt_launch_one mq s = Inr (b, s')"
  shows "if b then (\<exists>r. backlog contents s = r # backlog contents s')
    else backlog contents s' = backlog contents s \<and> e_tasks s' = e_tasks s \<and>
      (backlog contents s = [] \<or> (\<exists>r rs q. backlog contents s = r # rs \<and> w_reqs s r = Some q \<and> rq_op q = Begin \<and> all_busy s))"
  using assms(2,3)
proof (cases rule: rt_launch_one_cases)
  case empty
  with rt_fetch_backlog(1) [OF assms(1), of s] show ?thesis by simp
next
  case (hold r q)
  with rt_fetch_backlog(2) [OF assms(1) hold(1)] rt_fetch_frame(2) [OF hold(1)] show ?thesis by auto
next
  case (started r q s1 i s2 s3)
  have "rt_queue s3 = rt_queue s1" using start_task_queue [OF started(8)] push_to_task_queue [OF started(9)] by simp
  with started(2,10) rt_fetch_backlog(2) [OF assms(1) started(1)] rt_fetch_frame(1) [OF started(1)] show ?thesis
    by (auto simp: backlog_def intro!: exI [of _ r])
next
  case (routed r q s1 i s2)
  have "rt_queue s2 = rt_queue s1" using push_to_task_queue [OF routed(8)] by simp
  with routed(2,9) rt_fetch_backlog(2) [OF assms(1) routed(1)] rt_fetch_frame(1) [OF routed(1)] show ?thesis
    by (auto simp: backlog_def intro!: exI [of _ r])
qed

lemma rt_launch_returns:
  assumes "mpmc_fifo mq contents c" "executor_ok s" "length (backlog contents s) < n"
  shows "\<exists>res. rt_launch_requests mq n s = Some res"
  using assms(2,3)
proof (induction n arbitrary: s)
  case (Suc n)
  show ?case
  proof (cases "rt_launch_one mq s")
    case (Inr p)
    then obtain b s' where b: "rt_launch_one mq s = Inr (b, s')" by (cases p) auto
    show ?thesis
    proof (cases b)
      case True
      from rt_launch_one_backlog [OF assms(1) Suc.prems(1) b] True Suc.prems(2) have "length (backlog contents s') < n"
        by auto
      with Suc.IH rt_launch_one_ok [OF Suc.prems(1) b] True b show ?thesis by auto
    qed (simp add: b)
  qed simp
qed simp

lemma rt_launch_drains:
  assumes "mpmc_fifo mq contents c" "executor_ok s" "rt_launch_requests mq n s = Some (Inr s')"
  shows "executor_ok s' \<and> e_commits s' = e_commits s \<and> e_aborts s' = e_aborts s \<and>
    (\<exists>k. backlog contents s' = drop k (backlog contents s)) \<and>
    (backlog contents s' = [] \<or> e_active s' = int (e_concurrent s') \<and>
       (\<exists>q. w_reqs s' (hd (backlog contents s')) = Some q \<and> rq_op q = Begin))"
proof -
  let ?P = "\<lambda>u. executor_ok u \<and> e_commits u = e_commits s \<and> e_aborts u = e_aborts s \<and>
    (\<exists>k. backlog contents u = drop k (backlog contents s))"
  have "?P s" using assms(2) by (auto intro: exI [of _ 0])
  moreover have "?P v" if "?P u" "rt_launch_one mq u = Inr (b, v)" for u b v
  proof -
    from that(1) obtain k where k: "backlog contents u = drop k (backlog contents s)" by blast
    from rt_launch_one_backlog [OF assms(1) _ that(2)] that(1)
    have "backlog contents v = backlog contents u \<or> (\<exists>r. backlog contents u = r # backlog contents v)"
      by (auto split: if_splits)
    then have "\<exists>k. backlog contents v = drop k (backlog contents s)"
    proof
      assume "\<exists>r. backlog contents u = r # backlog contents v"
      then have "backlog contents v = drop (Suc k) (backlog contents s)" using k by (auto simp: drop_Suc tl_drop [symmetric])
      then show ?thesis by blast
    qed (use k in auto)
    with rt_launch_one_ok [OF _ that(2)] that(1) show ?thesis by auto
  qed
  ultimately have "?P s' \<and> (\<exists>u. ?P u \<and> rt_launch_one mq u = Inr (False, s'))"
    by (rule rt_launch_requests_invariant [OF assms(3)])
  then obtain u where P: "?P s'" and u: "executor_ok u" "rt_launch_one mq u = Inr (False, s')" by blast
  have l: "rt_launch_one mq u = Inr (False, s') \<Longrightarrow> w_reqs s' = w_reqs u \<and> e_active s' = e_active u \<and> e_concurrent s' = e_concurrent u"
    using rt_fetch_frame by (auto elim!: rt_launch_one_cases [OF u(1)])
  from rt_launch_one_backlog [OF assms(1) u] have e: "backlog contents s' = backlog contents u"
    "backlog contents u = [] \<or> (\<exists>r rs q. backlog contents u = r # rs \<and> w_reqs u r = Some q \<and> rq_op q = Begin \<and> all_busy u)"
    by simp_all
  from e(2) have "backlog contents s' = [] \<or> e_active s' = int (e_concurrent s') \<and>
      (\<exists>q. w_reqs s' (hd (backlog contents s')) = Some q \<and> rq_op q = Begin)"
    using l [OF u(2)] all_busy_iff(1) [OF u(1)] e(1) by auto
  with P show ?thesis by blast
qed

text \<open>
  C22: One call of \<^verbatim>\<open>LaunchRequests\<close> comes to an end: as many turns as there are requests before it, and one more, are
  enough.  Unless it stops with an exception it has taken up every request before it, in order, or it came to a request that
  begins a transaction with all tasks in use; then it keeps that request.  It takes nothing from the counters of finished
  transactions.
\<close>

theorem rt_launch_terminates:
  assumes "mpmc_fifo mq contents c" "rt_reach mq process s" "length (backlog contents s) < n"
  shows "\<exists>res. rt_launch_requests mq n s = Some res \<and>
    (case res of Inl e \<Rightarrow> True
     | Inr s' \<Rightarrow> rt_reach mq process s' \<and> e_commits s' = e_commits s \<and> e_aborts s' = e_aborts s \<and>
        (\<exists>k. backlog contents s' = drop k (backlog contents s)) \<and>
        (backlog contents s' = [] \<or> e_active s' = int (e_concurrent s') \<and>
           (\<exists>q. w_reqs s' (hd (backlog contents s')) = Some q \<and> rq_op q = Begin)))"
proof -
  have ok: "executor_ok s" using rt_reach_ok [OF assms(2)] by blast
  from rt_launch_returns [OF assms(1) ok assms(3)] obtain res where res: "rt_launch_requests mq n s = Some res" by blast
  have "rt_reach mq process s'" if "res = Inr s'" for s'
    using rt_launch_requests_invariant [of mq n s s' "rt_reach mq process"] res that assms(2) rt_reach.step rt_step.launch by blast
  with res rt_launch_drains [OF assms(1) ok] show ?thesis by (cases res) auto
qed

theorem rt_launch_terminates_witness:
  "\<exists>s s'. rt_reach (bounded_list 5) id s \<and> rt_launch_requests (bounded_list 5) 4 s = Some (Inr s') \<and>
     backlog (\<lambda>q. q) s = [3, 4, 5] \<and> backlog (\<lambda>q. q) s' = [5] \<and> e_active s' = int (e_concurrent s')"
proof -
  obtain s s' where s: "rt_reach (bounded_list 5) id s" "rt_queue s = [3, 4, 5]" "rt_current s = None"
    and r: "rt_launch_requests (bounded_list 5) 4 s = Some (Inr s')" and s': "rt_queue s' = []" "rt_current s' = Some 5"
    using launch_example rt_sample_reach by blast
  have l: "length (backlog (\<lambda>q. q) s) < 4" using s by (simp add: backlog_def)
  from rt_launch_terminates [OF bounded_list_fifo s(1) l] r s s' show ?thesis by (auto simp: backlog_def)
qed

text \<open>
  A request is added behind all others while the queue has room; when it is full the request is dropped
  and nothing tells the caller.
\<close>

lemma rt_add_request_effect:
  assumes "mpmc_fifo mq contents c"
  shows "backlog contents (rt_add_request mq r s) =
    (if length (contents (rt_queue s)) < c then backlog contents s @ [r] else backlog contents s)"
  using assms by (auto simp: mpmc_fifo_def rt_add_request_def backlog_def)

section \<open>Sessions\<close>









section \<open>Counting and the end of a run\<close>

text \<open>
  C25: A pass of \<^verbatim>\<open>Advance\<close> counts every transaction that ends in it exactly once, and truly: the commits counted are the
  tasks whose transaction ended with its commit decision sent to the store, the aborts those whose abort was; it begins none.
\<close>

theorem rt_advance_counts:
  assumes "rt_reach mq process s" "rt_advance process' s = Inr s'"
  shows "e_active s - e_active s' = (e_commits s' - e_commits s) + (e_aborts s' - e_aborts s) \<and>
    e_active s' = int (length (filter tk_in_use (e_tasks s'))) \<and>
    e_commits s' = e_commits s + int (length (filter (ended_with Committed s s') [0..<e_concurrent s])) \<and>
    e_aborts s' = e_aborts s + int (length (filter (ended_with Aborted s s') [0..<e_concurrent s]))"
proof -
  have ok: "executor_ok s" using rt_reach_ok [OF assms(1)] by blast
  obtain b where b: "advance_pass process' None s = Inr (b, s')" using assms(2) by (auto simp: rt_advance_def)
  have c: "in_use_count ts = int (length (filter tk_in_use ts))" for ts
    by (induction ts) (auto simp: in_use_count_def)
  from advance_pass_ok [OF ok b] advance_pass_ends [OF ok b] c show ?thesis by (simp add: taken_up_def executor_ok_def)
qed

theorem rt_advance_counts_witness:
  "\<exists>s s'. rt_reach (bounded_list 5) id s \<and> rt_advance id s = Inr s' \<and> 0 < e_active s \<and> e_active s' = 0 \<and>
     e_active s = (e_commits s' - e_commits s) + (e_aborts s' - e_aborts s)"
proof -
  obtain s s2 where r: "rt_reach (bounded_list 5) id s" and a: "0 < e_active s" and s2: "rt_advance id s = Inr s2" "e_active s2 = 0"
    using held_example rt_sample_reach by blast
  from rt_advance_counts [OF r s2(1)] r s2 a show ?thesis by auto
qed



lemma rt_more:
  fixes s s' :: "('q, 'z) rt_executor_scheme"
  assumes "executor.more s' = executor.more s"
  shows "rt_queue s' = rt_queue s" "rt_current s' = rt_current s"
  using assms by (cases s; cases s'; simp)+

lemma rt_advance_frame:
  assumes "rt_advance process s = Inr s'"
  shows "rt_queue s' = rt_queue s \<and> rt_current s' = rt_current s"
proof -
  obtain b where b: "advance_pass process None s = Inr (b, s')" using assms by (auto simp: rt_advance_def)
  let ?f = "\<lambda>i (b, s). rbind (advance_task process None i s) (\<lambda>(b', s'). Inr (b \<or> b', s'))"
  let ?P = "\<lambda>(b :: bool, u). rt_queue u = rt_queue s \<and> rt_current u = rt_current s"
  have "rfold ?f [0..<e_concurrent s] (False, s) = Inr (b, s')" using b by (simp add: advance_pass_def)
  moreover have "?P (False, s)" by simp
  moreover have "?P q" if "?P p" "?f i p = Inr q" for i p q
  proof -
    obtain b1 u1 where p: "p = (b1, u1)" by fastforce
    with that(2) obtain b2 u2 where a: "advance_task process None i u1 = Inr (b2, u2)" and q: "q = (b1 \<or> b2, u2)" by auto
    note rt_more [OF advance_task_more [OF a]]
    with that(1) p q show ?thesis by simp
  qed
  ultimately have "?P (b, s')" by (rule rfold_invariant)
  then show ?thesis by simp
qed

text \<open>
  C27: The end of a run can leave a transaction behind: when \<^verbatim>\<open>LaunchRequests\<close> holds a request that begins a
  transaction because all tasks are in use, the queue is empty, and all running transactions end in the
  \<^verbatim>\<open>Advance\<close> that follows, then \<^verbatim>\<open>IsFinished\<close> says that there is nothing left and \<^verbatim>\<open>Run\<close> returns, with the
  request still held.
\<close>

theorem rt_run_forgets_held:
  assumes "rt_current s = Some r" "w_reqs s r = Some q" "rq_op q = Begin" "all_busy s" "0 < e_active s"
    and "mq_is_empty mq (rt_queue s)" "rt_advance process s = Inr s2" "e_active s2 = 0"
  shows "rt_run mq process (\<lambda>_ u. u) (Suc m) (Suc (Suc n)) s = Some (Inr (send_batch s2)) \<and>
    rt_is_finished mq (send_batch s2) \<and> rt_current (send_batch s2) = Some r"
proof -
  have l: "rt_launch_requests mq (Suc m) s = Some (Inr s)"
    using assms(1-4) by (simp add: rt_launch_one_def rt_fetch_def)
  note f = rt_advance_frame [OF assms(7)]
  have e: "mq_is_empty mq (rt_queue (send_batch s2))" "e_active (send_batch s2) = 0" "rt_current (send_batch s2) = Some r"
    using f assms(1,6,8) by (simp_all add: send_batch_def)
  then show ?thesis using l assms(5,7) by (simp add: rt_is_finished_def)
qed

theorem rt_run_forgets_held_witness:
  "\<exists>s s2. rt_reach (bounded_list 5) id s \<and> rt_run (bounded_list 5) id (\<lambda>_ u. u) (Suc 0) (Suc (Suc 0)) s = Some (Inr (send_batch s2)) \<and>
    rt_is_finished (bounded_list 5) (send_batch s2) \<and> rt_current (send_batch s2) = Some 5"
proof -
  obtain s s2 where r: "rt_reach (bounded_list 5) id s"
    and s: "rt_current s = Some 5" "w_reqs s 5 = held_requests 5" "all_busy s" "0 < e_active s" "rt_queue s = []"
    and s2: "rt_advance id s = Inr s2" "e_active s2 = 0"
    using held_example rt_sample_reach by blast
  have q: "w_reqs s 5 = Some (new_control_request 9 Begin False)" "rq_op (new_control_request 9 Begin False) = Begin"
    using s(2) by (simp_all add: held_requests_def new_control_request_def new_op_request_def)
  have e: "mq_is_empty (bounded_list 5) (rt_queue s)" using s(5) by (simp add: bounded_list_def)
  from rt_run_forgets_held [OF s(1) q s(3,4) e s2, of 0 0] r show ?thesis by blast
qed

end
