(* ===== verification/Runtime_Progress.thy ===== *)
theory Runtime_Progress
  imports Runtime_Samples Memory_Safety
begin

text \<open>
  Liveness of the runtime executor: how the passes over one task follow each other among the steps of clients, handler and the
  other tasks, and that a transaction that asked to end is released.
\<close>

section \<open>What happens to a task between two of its passes\<close>














section \<open>A round of a task\<close>




lemma on_stack_load [simp]: "on_stack (load_world w x) r = on_stack x r"
  by (simp add: on_stack_def)










section \<open>Every transaction that asked to end is released\<close>



end
