(* ===== verification/All_At_Once.thy ===== *)
theory All_At_Once
  imports Executors
begin

text \<open>
  The all-at-once executor, \<^verbatim>\<open>src/transaction/all-at-once-transaction-executor.cpp\<close>: the requests of a
  transaction lie next to each other in a pool of fixed size, and a launch takes a whole transaction.
\<close>

section \<open>The executor\<close>

record ao_executor = executor +
  ao_pool :: "req_id option list"
  ao_push :: nat
  ao_pop :: nat

definition new_ao_executor ::
    "int \<Rightarrow> nat \<Rightarrow> bool \<Rightarrow> (nat \<Rightarrow> exec) \<Rightarrow> nat \<Rightarrow> world \<Rightarrow> ao_executor res" where
  "new_ao_executor executor_id concurrent_txn_count has_log raw capacity w =
     rbind (new_tasks executor_id has_log raw concurrent_txn_count) (\<lambda>ts.
     Inr \<lparr>w_heap = w_heap w, w_reqs = w_reqs w, w_now = w_now w, w_time = w_time w, w_ids = w_ids w,
       e_tasks = ts, e_active = 0, e_concurrent = concurrent_txn_count, e_commits = 0, e_aborts = 0, e_batches = 0,
       ao_pool = replicate capacity None, ao_push = 0, ao_pop = 0\<rparr>)"

text \<open>The pool has a fixed size and the index is not checked: an access past the end is an error here.\<close>

definition ao_add_request :: "req_id \<Rightarrow> ao_executor \<Rightarrow> ao_executor res" where
  "ao_add_request r s =
     rbind (vec_at (ao_pool s) (ao_push s)) (\<lambda>_.
     Inr (s\<lparr>ao_pool := (ao_pool s)[ao_push s := Some r], ao_push := ao_push s + 1\<rparr>))"

text \<open>The request at \<^verbatim>\<open>pop_index_\<close>.\<close>

definition ao_peek :: "ao_executor \<Rightarrow> (req_id \<times> op_request) res" where
  "ao_peek s =
     rbind (vec_at (ao_pool s) (ao_pop s)) (\<lambda>p.
     rbind (deref p) (\<lambda>r.
     rbind (deref (w_reqs s r)) (\<lambda>q. Inr (r, q))))"

section \<open>Launching\<close>

text \<open>
  One turn of the inner loop, which gives task \<open>i\<close> the requests behind its \<^verbatim>\<open>Begin\<close>; the flag says whether the
  request ended the transaction.
\<close>

definition ao_collect_one :: "nat \<Rightarrow> ao_executor \<Rightarrow> (bool \<times> ao_executor) res" where
  "ao_collect_one i s0 =
     (let s = s0\<lparr>ao_pop := ao_pop s0 + 1\<rparr> in
     rbind (ao_peek s) (\<lambda>(r, q).
     rbind (vec_at (e_tasks s) i) (\<lambda>t.
     rbind (rassert (tk_session t = rq_session_id q)) (\<lambda>_.
     rbind (push_to_task i r s) (\<lambda>s1. Inr (rq_op q \<in> {Commit, Abort}, s1))))))"

lemma push_to_task_indices:
  fixes s :: ao_executor
  assumes "push_to_task i r s = Inr s'"
  shows "ao_pool s' = ao_pool s \<and> ao_push s' = ao_push s \<and> ao_pop s' = ao_pop s \<and> w_reqs s' = w_reqs s"
  using assms by (auto simp: push_to_task_def)

lemma ao_collect_one_indices:
  assumes "ao_collect_one i s = Inr (b, s')"
  shows "ao_pool s' = ao_pool s \<and> ao_push s' = ao_push s \<and> ao_pop s' = Suc (ao_pop s) \<and> w_reqs s' = w_reqs s"
  using assms by (auto simp: ao_collect_one_def Let_def dest!: push_to_task_indices)

function ao_collect :: "nat \<Rightarrow> ao_executor \<Rightarrow> ao_executor res" where
  "ao_collect i s =
     (if ao_pop s < ao_push s then
        (case ao_collect_one i s of
           Inl e \<Rightarrow> Inl e
         | Inr (ended, s') \<Rightarrow> if ended then Inr s' else ao_collect i s')
      else Inr s)"
  by pat_completeness auto
termination
  by (relation "measure (\<lambda>(i, s). ao_push s - ao_pop s)") (auto dest!: ao_collect_one_indices)

declare ao_collect.simps [simp del]

lemma ao_collect_indices:
  assumes "ao_collect i s = Inr s'"
  shows "ao_pool s' = ao_pool s \<and> ao_push s' = ao_push s \<and> ao_pop s \<le> ao_pop s' \<and> w_reqs s' = w_reqs s"
  using assms
proof (induction i s rule: ao_collect.induct)
  case (1 i s)
  show ?case
  proof (cases "ao_pop s < ao_push s")
    case True
    with 1(2) obtain b u where u: "ao_collect_one i s = Inr (b, u)" "if b then s' = u else ao_collect i u = Inr s'"
      by (subst (asm) ao_collect.simps) (auto split: sum.splits if_splits)
    note ix = ao_collect_one_indices [OF u(1)]
    show ?thesis
    proof (cases b)
      case True
      with u(2) ix show ?thesis by simp
    next
      case False
      with u(2) have "ao_collect i u = Inr s'" by simp
      from 1(1) [OF True u(1) refl False this] ix show ?thesis by simp
    qed
  next
    case False
    with 1(2) show ?thesis by (subst (asm) ao_collect.simps) simp
  qed
qed

text \<open>
  One turn of the outer loop: the next request, which must be a \<^verbatim>\<open>Begin\<close>, starts the first task not in use from
  \<open>last\<close> on, and the requests behind it follow.  The result is None when the loop ends because all tasks are
  busy, otherwise the new \<^verbatim>\<open>last_index\<close>.
\<close>

definition ao_launch_one :: "nat \<Rightarrow> ao_executor \<Rightarrow> (nat option \<times> ao_executor) res" where
  "ao_launch_one last_index s =
     rbind (ao_peek s) (\<lambda>(r, q).
     rbind (rassert (rq_op q = Begin)) (\<lambda>_.
     if all_busy s then Inr (None, s)
     else
       rbind (find_task (\<lambda>t. \<not> tk_in_use t) (e_tasks s) last_index (e_concurrent s - last_index)) (\<lambda>found.
       case found of
         None \<Rightarrow> Inl (Thrown ''no empty txn task'')
       | Some i \<Rightarrow>
           rbind (start_task i (rq_session_id q) s) (\<lambda>s1.
           rbind (push_to_task i r s1) (\<lambda>s2.
           rbind (ao_collect i s2) (\<lambda>s3. Inr (Some (Suc i), s3\<lparr>ao_pop := ao_pop s3 + 1\<rparr>)))))))"

lemma start_task_indices:
  fixes s :: ao_executor
  assumes "start_task i z s = Inr s'"
  shows "ao_pool s' = ao_pool s \<and> ao_push s' = ao_push s \<and> ao_pop s' = ao_pop s"
  using assms by (auto simp: start_task_def store_world_def)

lemma ao_launch_one_indices:
  assumes "ao_launch_one l s = Inr (Some l', s')"
  shows "ao_pool s' = ao_pool s \<and> ao_push s' = ao_push s \<and> ao_pop s < ao_pop s'"
proof -
  from assms obtain i z r s1 s2 s3 where e: "start_task i z s = Inr s1" "push_to_task i r s1 = Inr s2" "ao_collect i s2 = Inr s3"
      "s' = s3\<lparr>ao_pop := ao_pop s3 + 1\<rparr>"
    by (auto simp: ao_launch_one_def split: if_splits option.splits)
  from start_task_indices [OF e(1)] push_to_task_indices [OF e(2)] ao_collect_indices [OF e(3)] show ?thesis
    by (simp add: e(4))
qed

function ao_launch_loop :: "nat \<Rightarrow> ao_executor \<Rightarrow> ao_executor res" where
  "ao_launch_loop last_index s =
     (if ao_pop s < ao_push s then
        (case ao_launch_one last_index s of
           Inl e \<Rightarrow> Inl e
         | Inr (next_index, s') \<Rightarrow> (case next_index of None \<Rightarrow> Inr s' | Some l \<Rightarrow> ao_launch_loop l s'))
      else Inr s)"
  by pat_completeness auto
termination
  by (relation "measure (\<lambda>(l, s). ao_push s - ao_pop s)") (auto dest!: ao_launch_one_indices)

declare ao_launch_loop.simps [simp del]

definition ao_launch_requests :: "ao_executor \<Rightarrow> ao_executor res" where
  "ao_launch_requests s = ao_launch_loop 0 s"

section \<open>Advance and Run\<close>

text \<open>
  \<^verbatim>\<open>Advance\<close>, for at most \<open>n\<close> passes: the loop goes on until a transaction finished.  \<open>env\<close> is what the clients
  and the handler do between two passes; None is a loop still running.
\<close>

definition ao_advance_pass :: "(op_request \<Rightarrow> op_request) \<Rightarrow> bool \<Rightarrow> ao_executor \<Rightarrow> (bool \<times> ao_executor) res" where
  "ao_advance_pass process has_driver s = advance_pass process (Some has_driver) s"

fun ao_advance :: "(op_request \<Rightarrow> op_request) \<Rightarrow> bool \<Rightarrow> (nat \<Rightarrow> ao_executor \<Rightarrow> ao_executor) \<Rightarrow> nat \<Rightarrow> ao_executor \<Rightarrow>
    ao_executor res option" where
  "ao_advance process has_driver env 0 s = None"
| "ao_advance process has_driver env (Suc n) s =
     (case ao_advance_pass process has_driver s of
        Inl e \<Rightarrow> Some (Inl e)
      | Inr (has_finished_txn, s') \<Rightarrow>
          if has_finished_txn then Some (Inr (send_batch s'))
          else ao_advance process has_driver env n (env n (send_batch s')))"

definition ao_statistics :: "ao_executor \<Rightarrow> int \<times> int" where
  "ao_statistics s = (e_commits s, e_aborts s)"

definition ao_is_finished :: "ao_executor \<Rightarrow> bool" where
  "ao_is_finished s \<longleftrightarrow> ao_pop s = ao_push s \<and> e_active s = 0"

text \<open>\<^verbatim>\<open>Run\<close>, for at most \<open>n\<close> rounds with at most \<open>m\<close> passes of \<^verbatim>\<open>Advance\<close> each.\<close>

fun ao_run :: "(op_request \<Rightarrow> op_request) \<Rightarrow> bool \<Rightarrow> (nat \<Rightarrow> ao_executor \<Rightarrow> ao_executor) \<Rightarrow> nat \<Rightarrow> nat \<Rightarrow> ao_executor \<Rightarrow>
    ao_executor res option" where
  "ao_run process has_driver env m 0 s = None"
| "ao_run process has_driver env m (Suc n) s =
     (if ao_pop s \<noteq> ao_push s \<or> e_active s > 0 then
        (case ao_launch_requests s of
           Inl e \<Rightarrow> Some (Inl e)
         | Inr s1 \<Rightarrow>
             (case ao_advance process has_driver env m s1 of
                None \<Rightarrow> None
              | Some (Inl e) \<Rightarrow> Some (Inl e)
              | Some (Inr s2) \<Rightarrow> ao_run process has_driver env m n s2))
      else Some (Inr s))"

definition ao_shut_down :: "ao_executor \<Rightarrow> ao_executor" where
  "ao_shut_down s = s"

end
