(* ===== verification/All_At_Once_Invariants.thy ===== *)
theory All_At_Once_Invariants
  imports All_At_Once Runtime_Samples
begin

text \<open>
  The invariants of the all-at-once executor: its pool, what launching keeps, its reachable states, and what
  collecting a transaction does.
\<close>

section \<open>The pool\<close>

text \<open>The slots below \<^verbatim>\<open>push_index_\<close> hold requests, the ones above are empty.\<close>

definition pool_ok :: "ao_executor \<Rightarrow> bool" where
  "pool_ok s \<longleftrightarrow> ao_push s \<le> length (ao_pool s) \<and> ao_pop s \<le> ao_push s \<and>
     (\<forall>k < length (ao_pool s). ao_pool s ! k \<noteq> None \<longleftrightarrow> k < ao_push s)"

lemma ao_peek_at_push:
  assumes "pool_ok s" "ao_pop s' = ao_push s" "ao_pool s' = ao_pool s"
  shows "ao_peek s' = Inl (if ao_push s < length (ao_pool s) then NullDeref else OutOfRange)"
  using assms by (auto simp: ao_peek_def pool_ok_def vec_at_def)

lemma pool_ok_add: "pool_ok s \<Longrightarrow> ao_add_request r s = Inr s' \<Longrightarrow> pool_ok s'"
  by (auto simp: pool_ok_def ao_add_request_def vec_at_eq_Inr nth_list_update less_Suc_eq) blast

lemma pool_ok_same:
  "pool_ok s \<Longrightarrow> ao_pool s' = ao_pool s \<Longrightarrow> ao_push s' = ao_push s \<Longrightarrow> ao_pop s' = ao_pop s \<Longrightarrow> pool_ok s'"
  by (simp add: pool_ok_def)

section \<open>Launching keeps the invariants\<close>

lemma executor_ok_pop [simp]:
  "executor_ok (s\<lparr>ao_pop := n\<rparr>) = executor_ok s" "taken_up (s\<lparr>ao_pop := n\<rparr>) = taken_up s"
  by (simp_all add: executor_ok_def taken_up_def)

text \<open>What collecting requests leaves of the executor: only the requests of the tasks and the index change.\<close>

definition same_tasks :: "ao_executor \<Rightarrow> ao_executor \<Rightarrow> bool" where
  "same_tasks s s' \<longleftrightarrow> executor_ok s' \<and> e_active s' = e_active s \<and> taken_up s' = taken_up s \<and> e_concurrent s' = e_concurrent s \<and>
     e_commits s' = e_commits s \<and> e_aborts s' = e_aborts s \<and>
     map tk_in_use (e_tasks s') = map tk_in_use (e_tasks s)"

lemma push_to_task_same:
  assumes "executor_ok s" "push_to_task i r s = Inr s'"
  shows "same_tasks s s'"
proof -
  note f = push_to_task_frame [OF assms(2)]
  then have "map tk_in_use (e_tasks s') = map tk_in_use (e_tasks s)" by blast
  moreover have "executor_ok s'" using push_to_task_ok [OF assms] by blast
  moreover have "e_commits s' = e_commits s \<and> e_aborts s' = e_aborts s \<and> e_active s' = e_active s \<and> e_concurrent s' = e_concurrent s"
    using f by blast
  ultimately show ?thesis by (simp add: same_tasks_def taken_up_def)
qed

lemma ao_collect_one_same:
  assumes "executor_ok s" "ao_collect_one i s = Inr (b, s')"
  shows "same_tasks s s'"
proof -
  obtain r where "push_to_task i r (s\<lparr>ao_pop := ao_pop s + 1\<rparr>) = Inr s'"
    using assms(2) by (auto simp: ao_collect_one_def Let_def)
  from push_to_task_same [OF _ this] assms(1) show ?thesis by (simp add: same_tasks_def)
qed

lemma ao_collect_same:
  assumes "executor_ok s" "pool_ok s" "ao_pop s < ao_push s" "ao_collect i s = Inr s'"
  shows "same_tasks s s' \<and> pool_ok s' \<and> ao_pop s' < ao_push s' \<and> ao_push s' = ao_push s"
  using assms
proof (induction i s rule: ao_collect.induct)
  case (1 i s)
  from 1(4,5) obtain b u where u: "ao_collect_one i s = Inr (b, u)" "if b then s' = u else ao_collect i u = Inr s'"
    by (subst (asm) ao_collect.simps) (auto split: sum.splits if_splits)
  note ix = ao_collect_one_indices [OF u(1)]
  have lt: "Suc (ao_pop s) < ao_push s"
  proof (rule ccontr)
    assume "\<not> Suc (ao_pop s) < ao_push s"
    with 1(4) have "Suc (ao_pop s) = ao_push s" by simp
    then have "ao_peek (s\<lparr>ao_pop := ao_pop s + 1\<rparr>) = Inl (if ao_push s < length (ao_pool s) then NullDeref else OutOfRange)"
      using 1(3) by (intro ao_peek_at_push) simp_all
    with u(1) show False by (simp add: ao_collect_one_def Let_def)
  qed
  have s: "same_tasks s u" by (rule ao_collect_one_same [OF 1(2) u(1)])
  have p: "pool_ok u" using 1(3) ix lt by (simp add: pool_ok_def)
  show ?case
  proof (cases b)
    case True
    with u(2) ix s p lt show ?thesis by simp
  next
    case False
    with u(2) have c: "ao_collect i u = Inr s'" by simp
    have "executor_ok u" "ao_pop u < ao_push u" using s ix lt by (simp_all add: same_tasks_def)
    from 1(1) [OF 1(4) u(1) refl False this(1) p this(2) c] s ix show ?thesis by (auto simp: same_tasks_def)
  qed
qed

text \<open>Every task before \<^verbatim>\<open>last_index\<close> is in use.\<close>

definition packed :: "nat \<Rightarrow> 'a executor_scheme \<Rightarrow> bool" where
  "packed l s \<longleftrightarrow> l \<le> e_concurrent s \<and> (\<forall>k < l. tk_in_use (e_tasks s ! k))"

lemma ao_find_free:
  assumes "executor_ok s" "packed l s" "\<not> all_busy s"
  shows "\<exists>i. find_task (\<lambda>t. \<not> tk_in_use t) (e_tasks s) l (e_concurrent s - l) = Inr (Some i) \<and> l \<le> i \<and> i < length (e_tasks s) \<and>
    \<not> tk_in_use (e_tasks s ! i) \<and> (\<forall>k < i. tk_in_use (e_tasks s ! k))"
proof -
  have len: "length (e_tasks s) = e_concurrent s" using assms(1) by (simp add: executor_ok_def)
  have "e_active s < int (e_concurrent s)" using all_busy_iff [OF assms(1)] assms(3) by auto
  then have "in_use_count (e_tasks s) < int (length (e_tasks s))" using assms(1) len by (simp add: executor_ok_def)
  then obtain k where k: "k < length (e_tasks s)" "\<not> tk_in_use (e_tasks s ! k)" using free_task_exists by blast
  with assms(2) have lk: "l \<le> k" by (meson not_le packed_def)
  have le: "l + (e_concurrent s - l) \<le> length (e_tasks s)" using assms(2) len by (simp add: packed_def)
  let ?P = "\<lambda>t. \<not> tk_in_use t"
  from find_task_spec [OF le, of ?P] obtain r where r: "find_task ?P (e_tasks s) l (e_concurrent s - l) = Inr r"
    "case r of None \<Rightarrow> \<forall>k. l \<le> k \<and> k < l + (e_concurrent s - l) \<longrightarrow> \<not> ?P (e_tasks s ! k)
     | Some j \<Rightarrow> l \<le> j \<and> j < l + (e_concurrent s - l) \<and> ?P (e_tasks s ! j) \<and> (\<forall>k. l \<le> k \<and> k < j \<longrightarrow> \<not> ?P (e_tasks s ! k))" by blast
  from r(2) k lk len obtain i where i: "r = Some i" by (cases r) auto
  from r(2) i have i': "l \<le> i" "i < l + (e_concurrent s - l)" "?P (e_tasks s ! i)" "\<forall>k. l \<le> k \<and> k < i \<longrightarrow> tk_in_use (e_tasks s ! k)" by auto
  have "tk_in_use (e_tasks s ! k)" if "k < i" for k
    using that i'(4) assms(2) by (cases "k < l") (auto simp: packed_def)
  with r(1) i i' le len show ?thesis by (intro exI [of _ i]) auto
qed

lemma ao_launch_one_cases:
  assumes "executor_ok s" "packed l s" "ao_launch_one l s = Inr (n, s')"
  obtains (busy) "n = None" "s' = s" "all_busy s"
  | (started) r q i s1 s2 s3 where "ao_peek s = Inr (r, q)" "rq_op q = Begin" "n = Some (Suc i)" "l \<le> i" "i < length (e_tasks s)"
      "\<not> tk_in_use (e_tasks s ! i)" "\<forall>k < i. tk_in_use (e_tasks s ! k)"
      "start_task i (rq_session_id q) s = Inr s1" "push_to_task i r s1 = Inr s2" "ao_collect i s2 = Inr s3"
      "s' = s3\<lparr>ao_pop := ao_pop s3 + 1\<rparr>" "\<not> all_busy s"
proof (cases "all_busy s")
  case True
  with assms(3) show thesis by (intro busy) (auto simp: ao_launch_one_def)
next
  case False
  from ao_find_free [OF assms(1,2) False] obtain i where i:
    "find_task (\<lambda>t. \<not> tk_in_use t) (e_tasks s) l (e_concurrent s - l) = Inr (Some i)" "l \<le> i" "i < length (e_tasks s)"
    "\<not> tk_in_use (e_tasks s ! i)" "\<forall>k < i. tk_in_use (e_tasks s ! k)" by blast
  from assms(3) False i(1) obtain r q s1 s2 s3 where "ao_peek s = Inr (r, q)" "rq_op q = Begin" "start_task i (rq_session_id q) s = Inr s1"
    "push_to_task i r s1 = Inr s2" "ao_collect i s2 = Inr s3" "n = Some (Suc i)" "s' = s3\<lparr>ao_pop := ao_pop s3 + 1\<rparr>"
    by (auto simp: ao_launch_one_def)
  with i(2-) False show thesis by (intro started)
qed

lemma ao_launch_one_ok:
  assumes "executor_ok s" "packed l s" "pool_ok s" "ao_pop s < ao_push s" "ao_launch_one l s = Inr (n, s')"
  shows "executor_ok s' \<and> pool_ok s' \<and> ao_push s' = ao_push s \<and> e_concurrent s' = e_concurrent s \<and> taken_up s \<le> taken_up s' \<and>
    e_commits s' = e_commits s \<and> e_aborts s' = e_aborts s \<and>
    (case n of None \<Rightarrow> s' = s \<and> all_busy s | Some l' \<Rightarrow> packed l' s' \<and> 0 < e_active s')"
  using assms(1,2,5)
proof (cases rule: ao_launch_one_cases)
  case busy
  with assms show ?thesis by simp
next
  case (started r q i s1 s2 s3)
  note st = start_task_ok [OF assms(1) started(8,6)] and sf = start_task_frame [OF started(8)] and si = start_task_indices [OF started(8)]
  note ps = push_to_task_same [OF st(1) started(9)] and pi = push_to_task_indices [OF started(9)]
  have p2: "pool_ok s2" "ao_pop s2 < ao_push s2" using si pi assms(3,4) by (simp_all add: pool_ok_def)
  have ok2: "executor_ok s2" using ps by (simp add: same_tasks_def)
  note cs = ao_collect_same [OF ok2 p2 started(10)]
  have use: "map tk_in_use (e_tasks s3) = map tk_in_use (e_tasks s1)" using ps cs by (simp add: same_tasks_def)
  obtain t where t: "e_tasks s1 = (e_tasks s)[i := t]" "tk_in_use t" using st(3) by auto
  have len: "length (e_tasks s) = e_concurrent s" using assms(1) by (simp add: executor_ok_def)
  have "tk_in_use (e_tasks s3 ! k)" if "k < Suc i" for k
  proof -
    have "k < length (e_tasks s1)" using that started(5) t by simp
    then have "tk_in_use (e_tasks s3 ! k) = tk_in_use (e_tasks s1 ! k)" using use by (metis nth_map length_map)
    with that started(5,7) t show ?thesis by (auto simp: nth_list_update less_Suc_eq)
  qed
  then have "packed (Suc i) s3" using started(5) len sf ps cs by (simp add: packed_def same_tasks_def)
  moreover have "0 < e_active s3" using st(2) all_busy_iff(2) [OF assms(1)] ps cs by (simp add: same_tasks_def)
  moreover have "pool_ok s'" using cs started(11) by (simp add: pool_ok_def)
  moreover have "taken_up s \<le> taken_up s3" using st(2) sf ps cs by (simp add: same_tasks_def taken_up_def)
  ultimately show ?thesis using started(3,11) cs ps sf si pi by (simp add: same_tasks_def packed_def)
qed

text \<open>What a launch that returns achieves.\<close>

definition launched :: "ao_executor \<Rightarrow> ao_executor \<Rightarrow> bool" where
  "launched s s' \<longleftrightarrow> executor_ok s' \<and> pool_ok s' \<and> ao_push s' = ao_push s \<and> e_concurrent s' = e_concurrent s \<and>
     taken_up s \<le> taken_up s' \<and> e_commits s' = e_commits s \<and> e_aborts s' = e_aborts s \<and>
     (ao_pop s' = ao_push s' \<or> all_busy s')"

lemma ao_launch_one_error:
  assumes "executor_ok s" "packed l s" "ao_launch_one l s = Inl e"
  shows "e \<noteq> Thrown m"
proof (cases "all_busy s")
  case True
  with assms(3) show ?thesis
    by (auto simp: ao_launch_one_def rbind_eq_Inl ao_peek_def vec_at_def deref_def rassert_def split: if_splits option.splits)
next
  case False
  from ao_find_free [OF assms(1,2) False] obtain i where i:
    "find_task (\<lambda>t. \<not> tk_in_use t) (e_tasks s) l (e_concurrent s - l) = Inr (Some i)" by blast
  have c: "ao_collect i u = Inl e \<Longrightarrow> e \<noteq> Thrown m" for u
  proof (induction i u rule: ao_collect.induct)
    case (1 i u)
    show ?case
    proof (cases "ao_collect_one i u")
      case (Inl e')
      with 1(2) have "ao_collect_one i u = Inl e" by (subst (asm) ao_collect.simps) (auto split: if_splits)
      then show ?thesis
        by (auto simp: ao_collect_one_def Let_def rbind_eq_Inl ao_peek_def vec_at_def deref_def rassert_def
            dest: push_to_task_error split: if_splits option.splits)
    next
      case (Inr p)
      obtain b v where p: "p = (b, v)" by fastforce
      from 1(2) Inr p have "ao_pop u < ao_push u" "\<not> b" "ao_collect i v = Inl e"
        by (subst (asm) ao_collect.simps, auto split: if_splits)+
      with 1(1) Inr p show ?thesis by blast
    qed
  qed
  from assms(3) False i c show ?thesis
    by (auto simp: ao_launch_one_def rbind_eq_Inl ao_peek_def vec_at_def deref_def rassert_def
        dest: push_to_task_error start_task_error split: if_splits option.splits)
qed

lemma ao_launch_loop_ok:
  assumes "executor_ok s" "packed l s" "pool_ok s"
  shows "ao_launch_loop l s \<noteq> Inl (Thrown m) \<and> (\<forall>s'. ao_launch_loop l s = Inr s' \<longrightarrow> launched s s' \<and>
    (ao_pop s < ao_push s \<and> 0 < e_concurrent s \<or> 0 < e_active s \<longrightarrow> 0 < e_active s'))"
  using assms
proof (induction l s rule: ao_launch_loop.induct)
  case (1 l s)
  show ?case
  proof (cases "ao_pop s < ao_push s")
    case False
    with 1(2-) show ?thesis by (subst (1 2) ao_launch_loop.simps) (auto simp: launched_def pool_ok_def)
  next
    case True
    show ?thesis
    proof (cases "ao_launch_one l s")
      case (Inl e)
      with True have "ao_launch_loop l s = Inl e" by (subst ao_launch_loop.simps) simp
      with ao_launch_one_error [OF 1(2,3) Inl] show ?thesis by simp
    next
      case (Inr p)
      obtain n u where p: "p = (n, u)" by fastforce
      with Inr have o: "ao_launch_one l s = Inr (n, u)" by simp
      note ok = ao_launch_one_ok [OF 1(2-4) True o]
      show ?thesis
      proof (cases n)
        case None
        with True o have "ao_launch_loop l s = Inr u" by (subst ao_launch_loop.simps) simp
        with ok None all_busy_iff(1) [OF 1(2)] 1(2,4) show ?thesis by (auto simp: launched_def)
      next
        case (Some l')
        with True o have e: "ao_launch_loop l s = ao_launch_loop l' u" by (subst ao_launch_loop.simps) simp
        from ok Some have u: "executor_ok u" "packed l' u" "pool_ok u" "0 < e_active u" by simp_all
        note IH = 1(1) [OF True o refl Some u(1-3)]
        with e u(4) ok show ?thesis by (auto simp: launched_def)
      qed
    qed
  qed
qed

section \<open>Reachable states\<close>

text \<open>
  One step: a client adds a request, \<^verbatim>\<open>LaunchRequests\<close>, one task of \<^verbatim>\<open>Advance\<close>, \<^verbatim>\<open>SendBatch\<close>, an answer of
  the handler, or a change outside the executor.
\<close>

inductive ao_step :: "(op_request \<Rightarrow> op_request) \<Rightarrow> bool \<Rightarrow> ao_executor \<Rightarrow> ao_executor \<Rightarrow> bool" for process has_driver where
  add: "ao_add_request r s = Inr s' \<Longrightarrow> ao_step process has_driver s s'"
| launch: "ao_launch_requests s = Inr s' \<Longrightarrow> ao_step process has_driver s s'"
| advance: "advance_task process (Some has_driver) i s = Inr (b, s') \<Longrightarrow> ao_step process has_driver s s'"
| batch: "ao_step process has_driver s (send_batch s)"
| answer: "answer_task i r a s = Some s' \<Longrightarrow> ao_step process has_driver s s'"
| outside: "ao_step process has_driver s (set_outside h m now s)"

inductive ao_reach :: "(op_request \<Rightarrow> op_request) \<Rightarrow> bool \<Rightarrow> ao_executor \<Rightarrow> bool" for process has_driver where
  start: "new_ao_executor executor_id n has_log raw c w = Inr s \<Longrightarrow> n < 2 ^ 31 \<Longrightarrow> ao_reach process has_driver s"
| step: "ao_reach process has_driver s \<Longrightarrow> ao_step process has_driver s s' \<Longrightarrow> ao_reach process has_driver s'"

inductive_cases ao_stepE: "ao_step process has_driver s s'"

lemma ao_more:
  fixes s s' :: ao_executor
  assumes "executor.more s' = executor.more s"
  shows "ao_pool s' = ao_pool s" "ao_push s' = ao_push s" "ao_pop s' = ao_pop s"
  using assms by (cases s; cases s'; simp)+

lemma answer_task_more: "answer_task i r a s = Some s' \<Longrightarrow> executor.more s' = executor.more s"
  by (auto simp: answer_task_def store_world_def split: if_splits option.splits)

lemma pool_ok_more: "pool_ok s \<Longrightarrow> executor.more s' = executor.more s \<Longrightarrow> pool_ok s'"
  using pool_ok_same [of s s'] ao_more [of s' s] by blast

lemma pool_ok_outside [simp]: "pool_ok (set_outside h m now s) = pool_ok s" "pool_ok (send_batch s) = pool_ok s"
  by (simp_all add: pool_ok_def set_outside_def send_batch_def)

lemma ao_add_request_ok: "ao_add_request r s = Inr s' \<Longrightarrow> executor_ok s' = executor_ok s \<and> taken_up s' = taken_up s"
  by (auto simp: ao_add_request_def executor_ok_def taken_up_def)

lemma ao_step_ok:
  assumes "ao_step process has_driver s s'" "executor_ok s" "pool_ok s"
  shows "executor_ok s' \<and> pool_ok s' \<and> taken_up s \<le> taken_up s'"
  using assms(1)
proof cases
  case (add r)
  with ao_add_request_ok pool_ok_add assms(2,3) show ?thesis by auto
next
  case launch
  have "packed 0 s" by (simp add: packed_def)
  from ao_launch_loop_ok [OF assms(2) this assms(3)] launch show ?thesis by (simp add: ao_launch_requests_def launched_def)
next
  case (advance i b)
  with advance_task_cases [OF assms(2)] pool_ok_more [OF assms(3) advance_task_more] show ?thesis by simp
next
  case (answer i r a)
  with answer_task_ok [OF assms(2)] pool_ok_more [OF assms(3) answer_task_more] show ?thesis by simp
qed (use assms(2,3) in auto)

definition ao_start :: "ao_executor \<Rightarrow> bool" where
  "ao_start s \<longleftrightarrow> (\<exists>executor_id n has_log raw c w. new_ao_executor executor_id n has_log raw c w = Inr s \<and> n < 2 ^ 31)"

lemma new_ao_executor_ok:
  assumes "new_ao_executor executor_id n has_log raw c w = Inr s" "n < 2 ^ 31"
  shows "(executor_ok s \<and> pool_ok s) \<and> taken_up s = 0"
proof -
  obtain ts where "new_tasks executor_id has_log raw n = Inr ts" "length ts = n" "in_use_count ts = 0" "\<forall>t \<in> set ts. task_ok t"
    using new_tasks_ok by blast
  with assms show ?thesis by (auto simp: new_ao_executor_def executor_ok_def taken_up_def pool_ok_def)
qed

interpretation ao: executor_system ao_start "ao_step process has_driver" "ao_reach process has_driver"
    "\<lambda>s. executor_ok s \<and> pool_ok s"
  for process has_driver
proof unfold_locales
  show "(executor_ok s \<and> pool_ok s) \<and> taken_up s = 0" if "ao_start s" for s
    using that unfolding ao_start_def by (elim exE conjE) (rule new_ao_executor_ok)
  show "(executor_ok s' \<and> pool_ok s') \<and> taken_up s \<le> taken_up s'"
    if "ao_step process has_driver s s'" "executor_ok s \<and> pool_ok s" for s s'
    using ao_step_ok that by simp
  show "P s" if "ao_reach process has_driver s" "\<And>s. ao_start s \<Longrightarrow> P s"
      "\<And>s s'. P s \<Longrightarrow> ao_step process has_driver s s' \<Longrightarrow> P s'" for P s
    using that(1)
  proof (induction rule: ao_reach.induct)
    case (start executor_id n has_log raw c w s)
    then have "ao_start s" unfolding ao_start_def by (intro exI conjI)
    then show ?case by (rule that(2))
  next
    case (step s s')
    then show ?case using that(3) by blast
  qed
qed simp

lemma ao_reach_ok: "ao_reach process has_driver s \<Longrightarrow> executor_ok s \<and> pool_ok s \<and> 0 \<le> taken_up s"
  using ao.reach_good by blast

lemma ao_reach_start:
  assumes "n < 2 ^ 31"
  shows "\<exists>s. ao_reach process d s \<and> e_concurrent s = n \<and> ao_pool s = replicate c None \<and> ao_push s = 0 \<and> ao_pop s = 0 \<and>
    e_active s = 0 \<and> w_ids s = w_ids world0 \<and> w_time s = w_time world0 \<and> w_now s = 100 \<and> length (e_tasks s) = n \<and>
    (\<forall>i < n. \<not> tk_in_use (e_tasks s ! i))"
proof -
  obtain ts where ts: "new_tasks 0 False (\<lambda>_. run0) n = Inr ts" "length ts = n" "\<forall>i < n. \<not> tk_in_use (ts ! i)"
    using new_tasks_ok [of 0 False "\<lambda>_. run0" n] new_tasks_idle [of 0 False "\<lambda>_. run0" n] by (auto simp: all_set_conv_all_nth)
  then obtain s where s: "new_ao_executor 0 n False (\<lambda>_. run0) c world0 = Inr s" "e_concurrent s = n \<and> ao_pool s = replicate c None \<and>
    ao_push s = 0 \<and> ao_pop s = 0 \<and> e_active s = 0 \<and> w_ids s = w_ids world0 \<and> w_time s = w_time world0 \<and> w_now s = 100 \<and>
    length (e_tasks s) = n \<and> (\<forall>i < n. \<not> tk_in_use (e_tasks s ! i))"
    by (auto simp: new_ao_executor_def world0_def)
  show ?thesis by (intro exI [of _ s] conjI ao_reach.start [OF s(1) assms]) (simp_all add: s(2))
qed

section \<open>The rounds of Run\<close>

text \<open>What clients and handler do while the executor runs: add requests, answer operations, change shared objects.\<close>

inductive ao_env :: "ao_executor \<Rightarrow> ao_executor \<Rightarrow> bool" where
  nothing: "ao_env s s"
| add: "ao_env s u \<Longrightarrow> ao_add_request r u = Inr v \<Longrightarrow> ao_env s v"
| answer: "ao_env s u \<Longrightarrow> answer_task i r a u = Some v \<Longrightarrow> ao_env s v"
| outside: "ao_env s u \<Longrightarrow> ao_env s (set_outside h m now u)"

lemma counters_outside [simp]:
  "e_commits (set_outside h m now s) = e_commits s" "e_aborts (set_outside h m now s) = e_aborts s"
  "e_commits (send_batch s) = e_commits s" "e_aborts (send_batch s) = e_aborts s" "e_active (send_batch s) = e_active s"
  by (simp_all add: set_outside_def send_batch_def)

lemma answer_task_counters: "answer_task i r a s = Some s' \<Longrightarrow> e_commits s' = e_commits s \<and> e_aborts s' = e_aborts s"
  by (auto simp: answer_task_def split: if_splits option.splits)

lemma ao_add_request_counters:
  "ao_add_request r s = Inr s' \<Longrightarrow> e_commits s' = e_commits s \<and> e_aborts s' = e_aborts s \<and> e_active s' = e_active s"
  by (auto simp: ao_add_request_def)

lemma ao_env_ok:
  assumes "ao_env s s'" "executor_ok s" "pool_ok s"
  shows "executor_ok s' \<and> pool_ok s' \<and> e_active s' = e_active s \<and> e_commits s' = e_commits s \<and> e_aborts s' = e_aborts s"
  using assms
proof (induction rule: ao_env.induct)
  case (add s u r v)
  with ao_add_request_ok pool_ok_add ao_add_request_counters show ?case by metis
next
  case (answer s u i r a v)
  from answer have u: "executor_ok u" "pool_ok u" and e: "e_active u = e_active s" "e_commits u = e_commits s" "e_aborts u = e_aborts s"
    by simp_all
  from answer_task_ok [OF u(1) answer(2)] pool_ok_more [OF u(2) answer_task_more [OF answer(2)]] answer_task_counters [OF answer(2)] e
  show ?case by simp
qed simp_all

lemma ao_advance_pass_ok:
  assumes "executor_ok s" "pool_ok s" "ao_advance_pass process d s = Inr (b, s')"
  shows "executor_ok s' \<and> pool_ok s' \<and> taken_up s' = taken_up s \<and> e_commits s \<le> e_commits s' \<and> e_aborts s \<le> e_aborts s' \<and>
    e_active s' \<le> e_active s \<and> (b \<longleftrightarrow> e_active s' < e_active s)"
proof -
  have a: "advance_pass process (Some d) s = Inr (b, s')" using assms(3) by (simp add: ao_advance_pass_def)
  let ?f = "\<lambda>i (b, s). rbind (advance_task process (Some d) i s) (\<lambda>(b', s'). Inr (b \<or> b', s'))"
  let ?P = "\<lambda>(b :: bool, u :: ao_executor). pool_ok u"
  have "rfold ?f [0..<e_concurrent s] (False, s) = Inr (b, s')" using a by (simp add: advance_pass_def)
  moreover have "?P (False, s)" using assms(2) by simp
  moreover have "?P q" if "?P p" "?f i p = Inr q" for i p q
  proof -
    obtain b1 u1 where p: "p = (b1, u1)" by fastforce
    with that(2) obtain b2 u2 where t: "advance_task process (Some d) i u1 = Inr (b2, u2)" and q: "q = (b1 \<or> b2, u2)" by auto
    have "pool_ok u1" using that(1) p by simp
    from pool_ok_more [OF this advance_task_more [OF t]] q show ?thesis by simp
  qed
  ultimately have "?P (b, s')" by (rule rfold_invariant)
  then have "pool_ok s'" by simp
  with advance_pass_ok [OF assms(1) a] show ?thesis by blast
qed

lemma ao_advance_ok:
  assumes "executor_ok s" "pool_ok s" "\<And>k u. ao_env u (env k u)" "ao_advance process d env n s = Some (Inr s')"
  shows "executor_ok s' \<and> pool_ok s' \<and> taken_up s' = taken_up s \<and> e_commits s \<le> e_commits s' \<and> e_aborts s \<le> e_aborts s' \<and>
    e_active s' < e_active s"
  using assms(1,2,4)
proof (induction n arbitrary: s)
  case (Suc n)
  from Suc.prems(3) obtain b u where u: "ao_advance_pass process d s = Inr (b, u)" by (auto split: sum.splits)
  note ok = ao_advance_pass_ok [OF Suc.prems(1,2) u]
  show ?case
  proof (cases b)
    case True
    with Suc.prems(3) u have "s' = send_batch u" by simp
    with ok True show ?thesis by simp
  next
    case False
    with Suc.prems(3) u have r: "ao_advance process d env n (env n (send_batch u)) = Some (Inr s')" by simp
    have "executor_ok (send_batch u)" "pool_ok (send_batch u)" using ok by simp_all
    note e = ao_env_ok [OF assms(3) this]
    from Suc.IH [OF _ _ r] e ok show ?thesis by (simp add: taken_up_def)
  qed
qed simp

definition ao_round :: "(op_request \<Rightarrow> op_request) \<Rightarrow> bool \<Rightarrow> nat \<Rightarrow> (nat \<Rightarrow> ao_executor \<Rightarrow> ao_executor) \<Rightarrow> nat \<Rightarrow>
    ao_executor \<Rightarrow> ao_executor res option" where
  "ao_round process has_driver m env n s =
     (case ao_launch_requests s of
        Inl e \<Rightarrow> Some (Inl e)
      | Inr s1 \<Rightarrow> ao_advance process has_driver env m s1)"

text \<open>The loop keeps what is needed of the executor, and \<open>T\<close> transactions taken up.\<close>

interpretation ao_loop: executor_run ao_start "ao_step process has_driver" "ao_reach process has_driver"
    "\<lambda>s. executor_ok s \<and> pool_ok s" "\<lambda>s. (executor_ok s \<and> pool_ok s) \<and> T \<le> taken_up s" "\<lambda>env. \<forall>k u. ao_env u (env k u)"
    "\<lambda>s. ao_pop s \<noteq> ao_push s" "ao_round process has_driver m" "\<lambda>env. ao_run process has_driver env m"
  for process has_driver T m
proof unfold_locales
  fix env s s' n
  assume e: "\<forall>k u. ao_env u (env k u)" and s: "(executor_ok s \<and> pool_ok s) \<and> T \<le> taken_up s"
    and r: "ao_round process has_driver m env n s = Some (Inr s')"
  from r obtain s1 where l: "ao_launch_requests s = Inr s1" and a: "ao_advance process has_driver env m s1 = Some (Inr s')"
    by (auto simp: ao_round_def split: sum.splits)
  have p: "packed 0 s" and ok: "executor_ok s" "pool_ok s" using s by (simp_all add: packed_def)
  from ao_launch_loop_ok [OF ok(1) p ok(2)] l have "launched s s1" by (simp add: ao_launch_requests_def)
  then have "executor_ok s1" "pool_ok s1" "taken_up s \<le> taken_up s1" unfolding launched_def by blast+
  with ao_advance_ok [OF this(1,2) _ a] e s show "(executor_ok s' \<and> pool_ok s') \<and> T \<le> taken_up s'" by auto
qed (auto simp: ao_round_def split: option.splits sum.splits)

section \<open>Collecting a transaction\<close>

text \<open>\<open>segment s p rs z\<close>: from slot \<open>p\<close> on the pool holds the requests \<open>rs\<close>, which are of session \<open>z\<close>.\<close>

definition segment :: "ao_executor \<Rightarrow> nat \<Rightarrow> req_id list \<Rightarrow> int \<Rightarrow> bool" where
  "segment s p rs z \<longleftrightarrow> p + length rs \<le> ao_push s \<and> take (length rs) (drop p (ao_pool s)) = map Some rs \<and>
     (\<forall>r \<in> set rs. \<exists>q. w_reqs s r = Some q \<and> rq_session_id q = z)"

definition ends_txn :: "(req_id \<rightharpoonup> op_request) \<Rightarrow> req_id \<Rightarrow> bool" where
  "ends_txn m r \<longleftrightarrow> (case m r of None \<Rightarrow> False | Some q \<Rightarrow> rq_op q \<in> {Commit, Abort})"

definition push_all :: "nat \<Rightarrow> req_id list \<Rightarrow> ao_executor \<Rightarrow> ao_executor" where
  "push_all i rs s = s\<lparr>ao_pop := ao_pop s + length rs,
     e_tasks := (e_tasks s)[i := (e_tasks s ! i)\<lparr>tk_request := fold push_request rs (tk_request (e_tasks s ! i))\<rparr>]\<rparr>"

lemma segment_Cons:
  "segment s p (r # rs) z \<Longrightarrow> p < length (ao_pool s) \<and> p < ao_push s \<and> ao_pool s ! p = Some r \<and> segment s (Suc p) rs z \<and>
     (\<exists>q. w_reqs s r = Some q \<and> rq_session_id q = z)"
proof -
  assume a: "segment s p (r # rs) z"
  then have "drop p (ao_pool s) \<noteq> []" by (auto simp: segment_def)
  then have p: "p < length (ao_pool s)" by simp
  then have "drop p (ao_pool s) = ao_pool s ! p # drop (Suc p) (ao_pool s)" by (simp add: Cons_nth_drop_Suc)
  with a p show ?thesis by (auto simp: segment_def)
qed

lemma ao_collect_one_segment:
  assumes "segment s (Suc (ao_pop s)) (r # rs) z" "i < length (e_tasks s)" "tk_session (e_tasks s ! i) = z"
  shows "ao_collect_one i s = Inr (ends_txn (w_reqs s) r, push_all i [r] s)"
proof -
  obtain q where q: "w_reqs s r = Some q" "rq_session_id q = z" "Suc (ao_pop s) < length (ao_pool s)" "ao_pool s ! Suc (ao_pop s) = Some r"
    using segment_Cons [OF assms(1)] by blast
  with assms(2,3) show ?thesis
    by (simp add: ao_collect_one_def Let_def ao_peek_def ends_txn_def push_all_def push_to_task_def del: rbind_eq_Inr)
qed

lemma push_all_Cons:
  assumes "i < length (e_tasks s)"
  shows "push_all i rs (push_all i [r] s) = push_all i (r # rs) s"
  using assms by (simp add: push_all_def)

lemma segment_push_all: "segment (push_all i us s) p rs z = segment s p rs z"
  by (simp add: segment_def push_all_def)

text \<open>A whole transaction is collected up to the request that ends it.\<close>

lemma ao_collect_whole:
  assumes "segment s (Suc (ao_pop s)) (rs @ [c]) z" "i < length (e_tasks s)" "tk_session (e_tasks s ! i) = z"
    and "\<forall>r \<in> set rs. \<not> ends_txn (w_reqs s) r" "ends_txn (w_reqs s) c"
  shows "ao_collect i s = Inr (push_all i (rs @ [c]) s)"
  using assms
proof (induction rs arbitrary: s)
  case Nil
  from Nil(1) segment_Cons [of s "Suc (ao_pop s)" c "[]" z] have "ao_pop s < ao_push s" by simp
  with Nil ao_collect_one_segment [of s c "[]" z i] show ?case by (subst ao_collect.simps) simp
next
  case (Cons r rs)
  let ?u = "push_all i [r] s"
  note sg = segment_Cons [OF Cons(2) [unfolded append_Cons]]
  have "ao_collect_one i s = Inr (False, ?u)"
    using ao_collect_one_segment [OF Cons(2) [unfolded append_Cons] Cons(3,4)] Cons(5) by simp
  then have "ao_collect i s = ao_collect i ?u" using sg by (subst ao_collect.simps) simp
  also have "\<dots> = Inr (push_all i (rs @ [c]) ?u)"
  proof (rule Cons.IH)
    show "segment ?u (Suc (ao_pop ?u)) (rs @ [c]) z" using sg by (simp add: segment_push_all) (simp add: push_all_def)
  qed (use Cons(3-) in \<open>simp_all add: push_all_def\<close>)
  finally show ?case using push_all_Cons [OF Cons(3)] by simp
qed

text \<open>Without one, it goes on behind the last request.\<close>

lemma ao_collect_overrun:
  assumes "segment s (Suc (ao_pop s)) rs z" "i < length (e_tasks s)" "tk_session (e_tasks s ! i) = z"
    and "\<forall>r \<in> set rs. \<not> ends_txn (w_reqs s) r" "Suc (ao_pop s) + length rs = ao_push s" "pool_ok s"
  shows "ao_collect i s = Inl (if ao_push s < length (ao_pool s) then NullDeref else OutOfRange)"
  using assms
proof (induction rs arbitrary: s)
  case Nil
  have "ao_peek (s\<lparr>ao_pop := ao_pop s + 1\<rparr>) = Inl (if ao_push s < length (ao_pool s) then NullDeref else OutOfRange)"
    using Nil(5,6) by (intro ao_peek_at_push) simp_all
  then have "ao_collect_one i s = Inl (if ao_push s < length (ao_pool s) then NullDeref else OutOfRange)"
    by (simp add: ao_collect_one_def Let_def)
  with Nil(5) show ?case by (subst ao_collect.simps) simp
next
  case (Cons r rs)
  let ?u = "push_all i [r] s"
  note sg = segment_Cons [OF Cons(2)]
  have "ao_collect_one i s = Inr (False, ?u)" using ao_collect_one_segment [OF Cons(2-4)] Cons(5) by simp
  then have "ao_collect i s = ao_collect i ?u" using sg by (subst ao_collect.simps) simp
  also have "\<dots> = Inl (if ao_push ?u < length (ao_pool ?u) then NullDeref else OutOfRange)"
  proof (rule Cons.IH)
    show "segment ?u (Suc (ao_pop ?u)) rs z" using sg by (simp add: segment_push_all) (simp add: push_all_def)
    show "pool_ok ?u" using Cons(6,7) by (simp add: pool_ok_def push_all_def)
  qed (use Cons(3-) in \<open>simp_all add: push_all_def\<close>)
  finally show ?case by (simp add: push_all_def)
qed

end
