(* ===== verification/All_At_Once_Properties.thy ===== *)
theory All_At_Once_Properties
  imports All_At_Once_Invariants Runtime_Properties
begin

text \<open>
  The properties of the all-at-once executor: what a launch takes, that it never throws and leaves work to do,
  what happens to an incomplete transaction, when \<^verbatim>\<open>Advance\<close> returns and how \<^verbatim>\<open>Run\<close> ends.
\<close>

text \<open>
  C29: In a reachable state \<^verbatim>\<open>LaunchRequests\<close> never throws, and when it returns either all queued requests are
  launched or every task is in use; when there was something to launch or to advance and there is a task at
  all, a transaction is active afterwards, so the \<^verbatim>\<open>Advance\<close> that follows has something to do.
\<close>

theorem ao_launch_drains:
  assumes "ao_reach process d s"
  shows "(\<forall>m. ao_launch_requests s \<noteq> Inl (Thrown m)) \<and>
    (\<forall>s'. ao_launch_requests s = Inr s' \<longrightarrow>
       (ao_pop s' = ao_push s' \<or> e_active s' = int (e_concurrent s')) \<and>
       (0 < e_concurrent s \<and> (ao_pop s \<noteq> ao_push s \<or> 0 < e_active s) \<longrightarrow> 0 < e_active s'))"
proof -
  have ok: "executor_ok s" "pool_ok s" using ao_reach_ok [OF assms] by blast+
  have "packed 0 s" by (simp add: packed_def)
  note l = ao_launch_loop_ok [OF ok(1) this ok(2)]
  show ?thesis
  proof (intro conjI allI impI)
    fix m show "ao_launch_requests s \<noteq> Inl (Thrown m)" using l by (simp add: ao_launch_requests_def)
  next
    fix s' assume "ao_launch_requests s = Inr s'"
    then have r: "launched s s'" "ao_pop s < ao_push s \<and> 0 < e_concurrent s \<or> 0 < e_active s \<longrightarrow> 0 < e_active s'"
      using l by (simp_all add: ao_launch_requests_def)
    from r(1) have o: "executor_ok s'" "ao_pop s' = ao_push s' \<or> all_busy s'" unfolding launched_def by blast+
    show "ao_pop s' = ao_push s' \<or> e_active s' = int (e_concurrent s')"
      using o(2) all_busy_iff(1) [OF o(1)] by auto
    assume "0 < e_concurrent s \<and> (ao_pop s \<noteq> ao_push s \<or> 0 < e_active s)"
    then show "0 < e_active s'" using r(2) ok(2) by (auto simp: pool_ok_def)
  qed
qed

theorem ao_launch_drains_witness:
  "\<exists>s. ao_reach id False s \<and> (\<forall>m. ao_launch_requests s \<noteq> Inl (Thrown m)) \<and> e_concurrent s = 3"
proof -
  obtain s where s: "ao_reach id False s" "e_concurrent s = 3" using ao_reach_start [of 3 id False 9] by auto
  with ao_launch_drains [OF s(1)] show ?thesis by blast
qed

text \<open>The first turn for requests that lie in the pool, up to the collecting.\<close>

lemma ao_launch_one_start:
  assumes "executor_ok s" "packed l s" "\<not> all_busy s" "segment s (ao_pop s) (b # rs) z"
    and "w_reqs s b = Some q" "rq_op q = Begin"
  shows "(\<exists>i. start_task i z s = Inl SignedOverflow) \<and> ao_launch_one l s = Inl SignedOverflow \<or> (\<exists>i x u.
    l \<le> i \<and> i < length (e_tasks s) \<and> \<not> tk_in_use (e_tasks s ! i) \<and> (\<forall>k < i. tk_in_use (e_tasks s ! k)) \<and> fresh_exec x \<and>
    e_tasks u = (e_tasks s)[i := \<lparr>tk_exec = x, tk_request = \<lparr>tr_queue = [b], tr_current = 0\<rparr>, tk_in_use = True, tk_session = z\<rparr>] \<and>
    ao_pop u = ao_pop s \<and> ao_push u = ao_push s \<and> ao_pool u = ao_pool s \<and> w_reqs u = w_reqs s \<and>
    ao_launch_one l s = rbind (ao_collect i u) (\<lambda>s3. Inr (Some (Suc i), s3\<lparr>ao_pop := ao_pop s3 + 1\<rparr>)))"
proof -
  note sg = segment_Cons [OF assms(4)]
  have pk: "ao_peek s = Inr (b, q)" and z: "rq_session_id q = z" using sg assms(5) by (auto simp: ao_peek_def)
  from ao_find_free [OF assms(1-3)] obtain i where i:
    "find_task (\<lambda>t. \<not> tk_in_use t) (e_tasks s) l (e_concurrent s - l) = Inr (Some i)" "l \<le> i" "i < length (e_tasks s)"
    "\<not> tk_in_use (e_tasks s ! i)" "\<forall>k < i. tk_in_use (e_tasks s ! k)" by blast
  show ?thesis
  proof (cases "start_task i z s")
    case (Inl e)
    have "e = SignedOverflow"
      using Inl i(3) by (auto simp: start_task_def task_reset_def rbind_eq_Inl vec_at_def dest: exec_reset_error)
    with Inl pk z i(1) assms(3,6) show ?thesis by (auto simp: ao_launch_one_def rassert_def)
  next
    case (Inr s1)
    have m1: "w_reqs s1 = w_reqs s"
      using Inr by (auto simp: start_task_def task_reset_def exec_reset_def reset_txn_id_and_time_def exec_get_time_def load_world_def store_world_def)
    from start_task_ok(3) [OF assms(1) Inr i(4)] obtain x where x: "fresh_exec x" "e_tasks s1 = (e_tasks s)[i := (e_tasks s ! i)\<lparr>tk_exec := x,
        tk_request := reset_txn_request (tk_request (e_tasks s ! i)), tk_in_use := True, tk_session := z\<rparr>]" by blast
    have l1: "i < length (e_tasks s1)" using x(2) i(3) by simp
    obtain u where u: "push_to_task i b s1 = Inr u" using push_to_task_total [OF l1] by blast
    note pf = push_to_task_frame [OF u] and pi = push_to_task_indices [OF u] and si = start_task_indices [OF Inr]
    have "e_tasks u = (e_tasks s1)[i := (e_tasks s1 ! i)\<lparr>tk_request := push_request b (tk_request (e_tasks s1 ! i))\<rparr>]"
      using pf by blast
    then have ts: "e_tasks u = (e_tasks s)[i := \<lparr>tk_exec = x, tk_request = \<lparr>tr_queue = [b], tr_current = 0\<rparr>, tk_in_use = True, tk_session = z\<rparr>]"
      using x(2) i(3)
      by (cases "e_tasks s ! i"; cases "tk_request (e_tasks s ! i)") (simp add: push_request_def reset_txn_request_def)
    have "ao_launch_one l s = rbind (ao_collect i u) (\<lambda>s3. Inr (Some (Suc i), s3\<lparr>ao_pop := ao_pop s3 + 1\<rparr>))"
      using pk z i(1) assms(3,6) Inr u by (simp add: ao_launch_one_def rassert_def del: rbind_eq_Inr)
    moreover have "ao_pop u = ao_pop s" "ao_push u = ao_push s" "ao_pool u = ao_pool s" "w_reqs u = w_reqs s"
      using pi si m1 by simp_all
    ultimately show ?thesis
      by (intro disjI2 exI [of _ i] exI [of _ x] exI [of _ u] conjI i(2-) x(1) ts)
  qed
qed

lemma segment_same:
  "segment s p rs z \<Longrightarrow> ao_push u = ao_push s \<Longrightarrow> ao_pool u = ao_pool s \<Longrightarrow> w_reqs u = w_reqs s \<Longrightarrow> segment u p rs z"
  by (simp add: segment_def)

text \<open>
  C28: When the requests of a whole transaction follow each other in the pool, from its \<^verbatim>\<open>Begin\<close> to its \<^verbatim>\<open>Commit\<close>
  or \<^verbatim>\<open>Abort\<close>, one turn of \<^verbatim>\<open>LaunchRequests\<close> gives exactly these requests in this order to the first free task,
  with a freshly reset execution, moves the index behind them, and touches no other task (unless the
  transaction ids or the time are exhausted).
\<close>

theorem ao_launches_whole:
  assumes "ao_reach process d s" "packed l s" "\<not> all_busy s" "segment s (ao_pop s) (b # rs @ [c]) z"
    and "w_reqs s b = Some q" "rq_op q = Begin" "\<forall>r \<in> set rs. \<not> ends_txn (w_reqs s) r" "ends_txn (w_reqs s) c"
  shows "(\<exists>i. start_task i z s = Inl SignedOverflow) \<and> ao_launch_one l s = Inl SignedOverflow \<or> (\<exists>i x s'. ao_launch_one l s = Inr (Some (Suc i), s') \<and>
    i < length (e_tasks s) \<and> \<not> tk_in_use (e_tasks s ! i) \<and> (\<forall>k < i. tk_in_use (e_tasks s ! k)) \<and> fresh_exec x \<and>
    e_tasks s' = (e_tasks s)[i := \<lparr>tk_exec = x, tk_request = \<lparr>tr_queue = b # rs @ [c], tr_current = 0\<rparr>, tk_in_use = True, tk_session = z\<rparr>] \<and>
    ao_pop s' = ao_pop s + length (b # rs @ [c]))"
proof -
  have ok: "executor_ok s" using ao_reach_ok [OF assms(1)] by blast
  note st = ao_launch_one_start [OF ok assms(2-6)]
  show ?thesis
  proof (cases "(\<exists>i. start_task i z s = Inl SignedOverflow) \<and> ao_launch_one l s = Inl SignedOverflow")
    case False
    with st obtain i x u where u: "i < length (e_tasks s)" "\<not> tk_in_use (e_tasks s ! i)" "\<forall>k < i. tk_in_use (e_tasks s ! k)" "fresh_exec x"
        "e_tasks u = (e_tasks s)[i := \<lparr>tk_exec = x, tk_request = \<lparr>tr_queue = [b], tr_current = 0\<rparr>, tk_in_use = True, tk_session = z\<rparr>]"
      and f: "ao_pop u = ao_pop s" "ao_push u = ao_push s" "ao_pool u = ao_pool s" "w_reqs u = w_reqs s"
      and l: "ao_launch_one l s = rbind (ao_collect i u) (\<lambda>s3. Inr (Some (Suc i), s3\<lparr>ao_pop := ao_pop s3 + 1\<rparr>))" by blast
    have "segment u (Suc (ao_pop u)) (rs @ [c]) z"
      using segment_Cons [OF assms(4)] f(1) segment_same [OF _ f(2-4)] by simp
    from ao_collect_whole [OF this] assms(7,8) u(1,5) f(4) have "ao_collect i u = Inr (push_all i (rs @ [c]) u)" by simp
    with l have e: "ao_launch_one l s = Inr (Some (Suc i), (push_all i (rs @ [c]) u)\<lparr>ao_pop := ao_pop (push_all i (rs @ [c]) u) + 1\<rparr>)"
      by simp
    moreover have "e_tasks (push_all i (rs @ [c]) u) = (e_tasks s)[i := \<lparr>tk_exec = x, tk_request = \<lparr>tr_queue = b # rs @ [c], tr_current = 0\<rparr>,
        tk_in_use = True, tk_session = z\<rparr>]"
      using u(1,5) by (simp add: push_all_def fold_push_request push_request_def)
    moreover have "ao_pop (push_all i (rs @ [c]) u) + 1 = ao_pop s + length (b # rs @ [c])" using f(1) by (simp add: push_all_def)
    ultimately show ?thesis using u by auto
  qed simp
qed

text \<open>The example: session 7 sends a whole transaction, and after it a \<^verbatim>\<open>Begin\<close> that nothing follows.\<close>

definition batch_requests :: "req_id \<rightharpoonup> op_request" where
  "batch_requests = [3 \<mapsto> new_control_request 7 Begin False,
     4 \<mapsto> new_op_request 7 ''t'' (Some (IntKey 1)) None Read False False, 5 \<mapsto> new_control_request 7 Commit False]"

lemma ao_example:
  assumes "set rs \<subseteq> {3, 4, 5}" "length rs \<le> 5"
  shows "\<exists>s. ao_reach id False s \<and> packed 0 s \<and> \<not> all_busy s \<and> segment s 0 rs 7 \<and> w_reqs s = batch_requests \<and> ao_pop s = 0 \<and>
     ao_push s = length rs \<and> length (ao_pool s) = 5 \<and> length (e_tasks s) = 1 \<and> (\<forall>i z. start_task i z s \<noteq> Inl SignedOverflow)"
  using assms
proof (induction rs rule: rev_induct)
  case Nil
  obtain s where s: "ao_reach id False s" "e_concurrent s = 1" "ao_pool s = replicate 5 None" "ao_push s = 0" "ao_pop s = 0" "e_active s = 0"
      "w_ids s = w_ids world0" "w_time s = w_time world0" "w_now s = 100" "length (e_tasks s) = 1" "\<forall>i < 1. \<not> tk_in_use (e_tasks s ! i)"
    using ao_reach_start [of 1 id False 5] by auto
  let ?s = "set_outside (w_heap s) batch_requests 100 s"
  have "start_task i z ?s \<noteq> Inl SignedOverflow" for i z
  proof (cases "i < length (e_tasks ?s)")
    case True
    have "w_ids ?s = w_ids world0" "w_time ?s = w_time world0" "w_now ?s = 100" using s by (simp_all add: set_outside_def)
    from start_task_total [OF True this, of z] show ?thesis by auto
  qed (simp add: start_task_def vec_at_def)
  moreover have r: "ao_reach id False ?s" by (rule ao_reach.step [OF s(1) ao_step.outside])
  ultimately show ?case
    using s by (intro exI [of _ ?s] conjI r) (simp_all add: set_outside_def packed_def all_busy_def segment_def)
next
  case (snoc r rs)
  have "set rs \<subseteq> {3, 4, 5}" "length rs \<le> 5" using snoc(2,3) by auto
  with snoc(1) obtain s where s: "ao_reach id False s" "packed 0 s" "\<not> all_busy s" "segment s 0 rs 7" "w_reqs s = batch_requests" "ao_pop s = 0"
      "ao_push s = length rs" "length (ao_pool s) = 5" "length (e_tasks s) = 1" "\<forall>i z. start_task i z s \<noteq> Inl SignedOverflow" by blast
  let ?s = "s\<lparr>ao_pool := (ao_pool s)[length rs := Some r], ao_push := ao_push s + 1\<rparr>"
  have a: "ao_add_request r s = Inr ?s" using s(7,8) snoc(3) by (simp add: ao_add_request_def)
  have "start_task i z ?s \<noteq> Inl SignedOverflow" for i z
    using s(10) [rule_format, of i z] by (auto simp: start_task_def rbind_eq_Inl load_world_def)
  moreover have "take (Suc (length rs)) ((ao_pool s)[length rs := Some r]) = map Some rs @ [Some r]"
    using s(4,7,8) snoc(3) by (simp add: segment_def take_Suc_conv_app_nth)
  moreover have "\<exists>q. batch_requests r = Some q \<and> rq_session_id q = 7"
    using snoc(2) by (auto simp: batch_requests_def new_control_request_def new_op_request_def)
  moreover have r: "ao_reach id False ?s" by (rule ao_reach.step [OF s(1) ao_step.add [OF a]])
  ultimately show ?case
    using s by (intro exI [of _ ?s] conjI r) (auto simp: packed_def all_busy_def segment_def)
qed

theorem ao_launches_whole_witness:
  "\<exists>s s'. ao_reach id False s \<and> ao_launch_one 0 s = Inr (Some 1, s') \<and> ao_pop s' = 3 \<and>
     tr_queue (tk_request (e_tasks s' ! 0)) = [3, 4, 5] \<and> tk_session (e_tasks s' ! 0) = 7"
proof -
  obtain s where s: "ao_reach id False s" "packed 0 s" "\<not> all_busy s" "segment s 0 [3, 4, 5] 7" "w_reqs s = batch_requests" "ao_pop s = 0"
      "length (e_tasks s) = 1" "\<forall>i z. start_task i z s \<noteq> Inl SignedOverflow" using ao_example [of "[3, 4, 5]"] by auto
  have sg: "segment s (ao_pop s) (3 # [4] @ [5]) 7" using s(4,6) by simp
  have q: "w_reqs s 3 = Some (new_control_request 7 Begin False)" "rq_op (new_control_request 7 Begin False) = Begin"
      "\<forall>r \<in> set [4]. \<not> ends_txn (w_reqs s) r" "ends_txn (w_reqs s) 5"
    by (simp_all add: s(5) batch_requests_def ends_txn_def new_control_request_def new_op_request_def)
  from ao_launches_whole [OF s(1-3) sg q] s(6-8) show ?thesis using s(1) by auto
qed



lemma ao_advance_stuck:
  assumes "executor_ok s" "pool_ok s" "\<And>k u. ao_env u (env k u)" "e_active s = 0"
  shows "ao_advance process d env n s = None"
  using assms(1,2,4)
proof (induction n arbitrary: s)
  case (Suc n)
  have p: "ao_advance_pass process d s = Inr (False, s)" using advance_idle [OF Suc.prems(1,3)] by (simp add: ao_advance_pass_def)
  have "executor_ok (send_batch s)" "pool_ok (send_batch s)" using Suc.prems by simp_all
  from ao_env_ok [OF assms(3) this] Suc have "ao_advance process d env n (env n (send_batch s)) = None" by simp
  with p show ?case by simp
qed simp

text \<open>
  C31: \<^verbatim>\<open>Advance\<close> of the all-at-once executor returns only when at least one transaction has ended, and every
  transaction that ended is counted once, as committed or as aborted; with no active transaction it never
  returns, whatever clients and handler do.
\<close>

theorem ao_advance_outcome:
  assumes "ao_reach process d s" "\<And>k u. ao_env u (env k u)"
  shows "(\<forall>n s'. ao_advance process d env n s = Some (Inr s') \<longrightarrow> e_active s' < e_active s \<and>
       e_active s - e_active s' = (e_commits s' - e_commits s) + (e_aborts s' - e_aborts s) \<and>
       e_commits s \<le> e_commits s' \<and> e_aborts s \<le> e_aborts s') \<and>
    (e_active s = 0 \<longrightarrow> (\<forall>n. ao_advance process d env n s = None))"
proof -
  have ok: "executor_ok s" "pool_ok s" using ao_reach_ok [OF assms(1)] by blast+
  have "e_active s' < e_active s \<and>
       e_active s - e_active s' = (e_commits s' - e_commits s) + (e_aborts s' - e_aborts s) \<and>
       e_commits s \<le> e_commits s' \<and> e_aborts s \<le> e_aborts s'" if "ao_advance process d env n s = Some (Inr s')" for n s'
    using ao_advance_ok [OF ok assms(2) that] by (simp add: taken_up_def)
  moreover have "ao_advance process d env n s = None" if "e_active s = 0" for n
    by (rule ao_advance_stuck [OF ok assms(2) that])
  ultimately show ?thesis by blast
qed

theorem ao_advance_outcome_witness:
  "\<exists>s. ao_reach id False s \<and> (\<forall>n. ao_advance id False (\<lambda>_ u. u) n s = None)"
proof -
  obtain s where s: "ao_reach id False s" "e_active s = 0" using ao_reach_start [of 1 id False 5] by auto
  from ao_advance_outcome [OF s(1), of "\<lambda>_ u. u"] s ao_env.nothing show ?thesis by blast
qed

text \<open>
  When \<^verbatim>\<open>Run\<close> of the all-at-once executor returns, every request in the pool was launched, no task is in
  use, and every transaction begun is counted as committed or aborted.
\<close>

lemma ao_run_ends_clean:
  assumes "ao_reach process d s" "\<And>k u. ao_env u (env k u)" "ao_run process d env m n s = Some (Inr s')"
  shows "ao_pop s' = ao_push s' \<and> (\<forall>t \<in> set (e_tasks s'). \<not> tk_in_use t) \<and> taken_up s' = e_commits s' + e_aborts s' \<and>
    e_active s + e_commits s + e_aborts s \<le> e_commits s' + e_aborts s'"
proof -
  have e: "\<forall>k u. ao_env u (env k u)" using assms(2) by blast
  have "(executor_ok s \<and> pool_ok s) \<and> taken_up s \<le> taken_up s" using ao_reach_ok [OF assms(1)] by simp
  from ao_loop.run_clean [OF e assms(3) this] show ?thesis by (simp add: taken_up_def)
qed

end
