(* ===== verification/Kickout.thy ===== *)
theory Kickout
  imports Keys Records
begin

text \<open>
  The kickout scan, \<^verbatim>\<open>include/txcheckpoint/kickout.h\<close>: a round over the keys of a table that asks the handler
  to drop versions, with timestamps computed in unsigned 64-bit arithmetic.
\<close>

section \<open>Timestamps as machine words\<close>

text \<open>
  \<^verbatim>\<open>TXN_EXPIRE_INTERVAL\<close> is a \<^verbatim>\<open>size_t\<close>: the subtractions of \<^verbatim>\<open>NewKickout\<close> are unsigned 64-bit ones,
  which wrap, and their results are read back as signed timestamps.
\<close>

type_synonym ts_word = "64 word"

definition expire_interval :: ts_word where
  "expire_interval = of_nat TXN_EXPIRE_INTERVAL"

section \<open>The kickout scan\<close>

text \<open>
  The key iterator is an interface: \<open>key_iterator\<close> holds its two methods, for iterators of type \<open>'i\<close>.  The calls
  on the handler are recorded in the order they are made; the iterator that answers \<^verbatim>\<open>GetAllCurrentKeys\<close> is an input.
\<close>

record 'i key_iterator =
  it_has_next :: "'i \<Rightarrow> bool"
  it_next :: "'i \<Rightarrow> key \<times> 'i"

datatype kickout_call =
    GetAllCurrentKeys table_name addr
  | KickoutVersion table_name key ts_word ts_word ts_word

record 'i kickout =
  ko_table :: table_name
  ko_key_deserializer :: addr
  ko_iterator :: "'i option"
  ko_checkpoint_ts :: ts_word
  ko_expire_ts :: ts_word
  ko_lru_ts :: ts_word
  ko_calls :: "kickout_call list"

text \<open>The constructor; the timestamps of a new object are indeterminate.\<close>

definition kickout_new :: "table_name \<Rightarrow> addr \<Rightarrow> ts_word \<Rightarrow> ts_word \<Rightarrow> ts_word \<Rightarrow> 'i kickout" where
  "kickout_new table deserializer raw1 raw2 raw3 =
     \<lparr>ko_table = table, ko_key_deserializer = deserializer, ko_iterator = None, ko_checkpoint_ts = raw1,
      ko_expire_ts = raw2, ko_lru_ts = raw3, ko_calls = []\<rparr>"

definition new_kickout :: "'i \<Rightarrow> ts_word \<Rightarrow> 'i kickout \<Rightarrow> 'i kickout" where
  "new_kickout it kickout_ts k =
     k\<lparr>ko_calls := ko_calls k @ [GetAllCurrentKeys (ko_table k) (ko_key_deserializer k)], ko_iterator := Some it,
       ko_checkpoint_ts := kickout_ts, ko_lru_ts := kickout_ts - expire_interval div 2,
       ko_expire_ts := kickout_ts - expire_interval\<rparr>"

definition kickout_has_next :: "'i key_iterator \<Rightarrow> 'i kickout \<Rightarrow> bool res" where
  "kickout_has_next ops k = rbind (deref (ko_iterator k)) (\<lambda>it. Inr (it_has_next ops it))"

definition kickout_move_next :: "'i key_iterator \<Rightarrow> 'i kickout \<Rightarrow> 'i kickout res" where
  "kickout_move_next ops k =
     rbind (deref (ko_iterator k)) (\<lambda>it.
     let (key, it1) = it_next ops it
     in Inr (k\<lparr>ko_iterator := Some it1,
          ko_calls := ko_calls k @ [KickoutVersion (ko_table k) key (ko_checkpoint_ts k) (ko_expire_ts k) (ko_lru_ts k)]\<rparr>))"

section \<open>A round over the table\<close>

text \<open>The round the class comment describes: \<^verbatim>\<open>MoveNext\<close> while \<^verbatim>\<open>HasNext\<close>, for at most \<open>n\<close> keys; None is a scan still running.\<close>

fun kickout_round :: "'i key_iterator \<Rightarrow> nat \<Rightarrow> 'i kickout \<Rightarrow> 'i kickout res option" where
  "kickout_round ops 0 k = None"
| "kickout_round ops (Suc n) k =
     (case kickout_has_next ops k of
        Inl e \<Rightarrow> Some (Inl e)
      | Inr b \<Rightarrow>
          if b then
            (case kickout_move_next ops k of
               Inl e \<Rightarrow> Some (Inl e)
             | Inr k1 \<Rightarrow> kickout_round ops n k1)
          else Some (Inr k))"

text \<open>What an iterator promises: it hands out the keys \<open>contents it\<close> in order.\<close>

definition iterates :: "'i key_iterator \<Rightarrow> ('i \<Rightarrow> key list) \<Rightarrow> bool" where
  "iterates ops contents \<longleftrightarrow>
     (\<forall>it. (it_has_next ops it \<longleftrightarrow> contents it \<noteq> []) \<and>
       (contents it \<noteq> [] \<longrightarrow> contents it = fst (it_next ops it) # contents (snd (it_next ops it))))"

lemma kickout_round_calls:
  assumes "iterates ops contents" "ko_iterator k = Some it" "length (contents it) < n"
  shows "\<exists>k'. kickout_round ops n k = Some (Inr k') \<and> ko_checkpoint_ts k' = ko_checkpoint_ts k \<and>
    ko_calls k' = ko_calls k @ map (\<lambda>key. KickoutVersion (ko_table k) key (ko_checkpoint_ts k) (ko_expire_ts k) (ko_lru_ts k)) (contents it)"
  using assms(2,3)
proof (induction n arbitrary: k it)
  case (Suc n)
  show ?case
  proof (cases "contents it")
    case Nil
    with assms(1) Suc.prems(1) show ?thesis by (simp add: iterates_def kickout_has_next_def)
  next
    case (Cons key keys)
    have "key # keys = fst (it_next ops it) # contents (snd (it_next ops it))"
      using assms(1) Cons by (metis iterates_def list.distinct(1))
    then obtain it1 where n: "it_next ops it = (key, it1)" "contents it1 = keys"
      by (cases "it_next ops it") simp
    have h: "it_has_next ops it" using assms(1) Cons by (simp add: iterates_def)
    let ?k = "k\<lparr>ko_iterator := Some it1,
        ko_calls := ko_calls k @ [KickoutVersion (ko_table k) key (ko_checkpoint_ts k) (ko_expire_ts k) (ko_lru_ts k)]\<rparr>"
    have "kickout_round ops (Suc n) k = kickout_round ops n ?k"
      using Suc.prems(1) h n by (simp add: kickout_has_next_def kickout_move_next_def)
    with Suc.IH [of ?k it1] Suc.prems(2) n Cons show ?thesis by simp
  qed
qed simp

lemma sint_minus:
  fixes x :: ts_word
  assumes "- (2 ^ 63) \<le> sint x - c" "0 \<le> c" "c < 2 ^ 63"
  shows "sint (x - of_int c) = sint x - c"
proof -
  have "sint x < 2 ^ 63" using sint_lt [of x] by simp
  have c: "sint (of_int c :: ts_word) = c"
    using assms(2,3) by (simp add: signed_of_int signed_take_bit_int_eq_self)
  have "sint (x - of_int c) = signed_take_bit 63 (sint x - c)"
    by (simp add: sint_word_ariths c)
  also have "\<dots> = sint x - c"
    using assms \<open>sint x < 2 ^ 63\<close> by (intro signed_take_bit_int_eq_self) auto
  finally show ?thesis .
qed

lemma expire_words: "expire_interval = 10000000" "expire_interval div 2 = 5000000"
  by (simp_all add: expire_interval_def TXN_EXPIRE_INTERVAL_def)

text \<open>
  C32: After \<^verbatim>\<open>NewKickout\<close> a round ends and asks the handler once for the keys of the table and then once per key,
  in the iterator's order, to kick out its versions, always with the same three timestamps: the given one, that
  minus the expiry interval, and that minus half of it; unless the subtraction wraps, they are in this order.
\<close>

theorem kickout_round_spec:
  assumes "iterates ops contents" "length (contents it) < n"
  shows "\<exists>k'. kickout_round ops n (new_kickout it ts k) = Some (Inr k') \<and>
    ko_calls k' = ko_calls k @ GetAllCurrentKeys (ko_table k) (ko_key_deserializer k) #
      map (\<lambda>key. KickoutVersion (ko_table k) key ts (ts - 10000000) (ts - 5000000)) (contents it) \<and>
    (- (2 ^ 63) + 10000000 \<le> sint ts \<longrightarrow> sint (ts - 10000000) < sint (ts - 5000000) \<and> sint (ts - 5000000) < sint ts)"
proof -
  have "ko_iterator (new_kickout it ts k) = Some it" by (simp add: new_kickout_def)
  from kickout_round_calls [OF assms(1) this assms(2)] obtain k' where
    r: "kickout_round ops n (new_kickout it ts k) = Some (Inr k')" and
    c: "ko_calls k' = ko_calls k @ GetAllCurrentKeys (ko_table k) (ko_key_deserializer k) #
      map (\<lambda>key. KickoutVersion (ko_table k) key ts (ts - 10000000) (ts - 5000000)) (contents it)"
    by (auto simp: new_kickout_def expire_words)
  have "sint (ts - 10000000) < sint (ts - 5000000) \<and> sint (ts - 5000000) < sint ts" if "- (2 ^ 63) + 10000000 \<le> sint ts"
    using sint_minus [of ts 10000000] sint_minus [of ts 5000000] that by simp
  with r c show ?thesis by blast
qed

definition list_iterator :: "key list key_iterator" where
  "list_iterator = \<lparr>it_has_next = \<lambda>ks. ks \<noteq> [], it_next = \<lambda>ks. (hd ks, tl ks)\<rparr>"

lemma list_iterates: "iterates list_iterator (\<lambda>ks. ks)"
  by (simp add: iterates_def list_iterator_def)

theorem kickout_round_spec_witness:
  "\<exists>k'. kickout_round list_iterator 3 (new_kickout [IntKey 4, IntKey 2] 20000000 (kickout_new ''t'' 1 0 0 0)) = Some (Inr k') \<and>
    ko_calls k' = [GetAllCurrentKeys ''t'' 1, KickoutVersion ''t'' (IntKey 4) 20000000 10000000 15000000,
      KickoutVersion ''t'' (IntKey 2) 20000000 10000000 15000000]"
  using kickout_round_spec [OF list_iterates, of "[IntKey 4, IntKey 2]" 3 20000000 "kickout_new ''t'' 1 0 0 0"]
  by (auto simp: kickout_new_def)

end
