(* ===== verification/Spec2Isabelle.thy ===== *)
theory Spec2Isabelle
  imports Serial_Order Memory_Safety Transaction_Properties Data_Properties Client_Properties Runtime_Properties Runtime_Progress All_At_Once_Properties Kickout
begin

text \<open>
  The transaction service of fugue: multi-version optimistic concurrency control over a remote version store.
  Headers are named relative to \<^verbatim>\<open>include/\<close> and its directories, implementation files relative to \<^verbatim>\<open>src/transaction/\<close>.

  \<^bold>\<open>The program.\<close>  A client adds requests (\<^verbatim>\<open>operation-request\<close>) to an executor: the runtime executor takes requests of many
  sessions in any order from a bounded queue, the all-at-once executor takes whole transactions from a pool.  An executor
  owns a fixed number of tasks (\<^verbatim>\<open>transaction-task.h\<close>), each with one \<^verbatim>\<open>TransactionExecution\<close>.  \<^verbatim>\<open>Run\<close> alternates
  \<^verbatim>\<open>LaunchRequests\<close>, which starts transactions in idle tasks and routes requests to running ones, and \<^verbatim>\<open>Advance\<close>, which
  calls \<^verbatim>\<open>MoveForward\<close> on every task in use and hands it the next request when it is idle.  An execution keeps a stack of
  operation objects (\<^verbatim>\<open>transaction-operation\<close>); \<^verbatim>\<open>MoveForward\<close> visits it from the top and pops or replaces every operation
  that is finished.  Operations call the version store through \<^verbatim>\<open>request/handler.h\<close>, a data store and a log; each call leaves
  its answer in a result object the operation tests.  What a transaction reads and writes is kept in its read and write set
  (\<^verbatim>\<open>local-state\<close>).  Commit uploads the write set, obtains a commit timestamp, re-reads every version read (pushing the commit
  timestamp of a transaction that overwrites it), logs, sends the decision and makes the versions visible; abort deletes the
  uploads and releases the read counters.

  \<^bold>\<open>The model, theory by theory.\<close>
  \<^item> \<open>Prelude\<close>: the error type, the error monad \<open>'a res\<close> with its loops \<open>rfold\<close> and \<open>rall\<close>, 64-bit signed arithmetic
    (overflow, undefined in C++, is an error), checked access to vectors and pointers.
  \<^item> \<open>Config\<close> (\<^verbatim>\<open>utility/configuration.h\<close>); \<open>Bytes\<close> (buffers; locales \<open>encoder\<close> and \<open>codec\<close>); \<open>Keys\<close> (\<^verbatim>\<open>versiondb/key.h\<close>);
    \<open>Records\<close> (\<^verbatim>\<open>versiondb/record.h\<close>, a heap of record objects); \<open>Versions\<close> (\<^verbatim>\<open>version-entry.h\<close>, \<^verbatim>\<open>read-set-entry.h\<close>,
    \<^verbatim>\<open>write-set-entry.h\<close>, \<^verbatim>\<open>tx-entry.h\<close>, \<^verbatim>\<open>request/handler-result.h\<close>).
  \<^item> \<open>Local_State\<close> (\<^verbatim>\<open>local-state.h\<close>, \<^verbatim>\<open>.cpp\<close>): both entry pools; locales \<open>slot_stack\<close> and \<open>keyed_stack\<close>, interpreted as
    \<open>read_set\<close> and \<open>write_set\<close>.
  \<^item> \<open>Providers\<close>: \<^verbatim>\<open>simple-txn-id-generator\<close>, its factory and \<^verbatim>\<open>local-time-provider\<close>; locales \<open>id_source\<close> and \<open>time_source\<close>.
  \<^item> \<open>Requests\<close>: \<^verbatim>\<open>operation-request\<close>, \<^verbatim>\<open>result\<close>, \<^verbatim>\<open>transaction-request\<close>, and the \<open>world\<close> the executions of an executor share.
  \<^item> \<open>Exec_State\<close>, \<open>Operations\<close>, \<open>Execution\<close>: \<^verbatim>\<open>transaction-execution\<close> and \<^verbatim>\<open>transaction-operation\<close>.  \<open>exec\<close> is the state of an
    execution, \<open>op_ref\<close> names the operation object a stack slot points to, and for each class \<open>..._reset\<close>, \<open>..._call\<close>,
    \<open>..._finished\<close>, \<open>..._cascade_finished\<close> and \<open>..._next\<close> are its methods; \<open>op_call\<close> and \<open>op_next\<close> are the virtual dispatch,
    \<open>mf_loop\<close> and \<open>move_forward\<close> the engine, \<open>exec_read\<close> to \<open>exec_commit\<close> the entry points.
  \<^item> \<open>Environment\<close>: the request switch of \<^verbatim>\<open>Advance\<close>, the answers (\<open>deliver\<close>), the step relation \<open>exec_step\<close> and \<open>exec_reach\<close>.
  \<^item> \<open>Executors\<close>, \<open>Runtime_Executor\<close>, \<open>All_At_Once\<close>: the tasks, what the two executors share, and each of them.
  \<^item> \<open>Kickout\<close>: \<^verbatim>\<open>txcheckpoint/kickout.h\<close>.

  \<^bold>\<open>The proofs.\<close>
  \<^item> \<open>Stack_Frames\<close>, \<open>Set_Invariants\<close>, \<open>Protocol\<close>: what operations leave alone, well-formed sets, and the commit protocol as
    \<open>phase\<close>s with what each has established (\<open>in_phase\<close>).  \<open>Phase_Upload\<close>, \<open>Phase_Validate\<close>, \<open>Phase_Commit\<close>, \<open>Phase_Abort\<close>,
    \<open>Phase_Client\<close>: every visit of an operation keeps its phase or moves it on.  \<open>Commit_Protocol\<close>: the execution refines the
    protocol \<open>phase_next\<close>; \<open>phase\<close> is an instance of \<open>preorder\<close>.
  \<^item> \<open>Transaction_Properties\<close>: one decision, on a certified transaction, carried out completely; the order of the calls; the
    stack is well typed.  \<open>Progress\<close>: passes that find an answer bring the end nearer, and there always is one to wait for.
    \<open>Memory_Safety\<close>: from the commit or abort request on no pass dereferences null or leaves a vector.
  \<^item> \<open>Serial_Order\<close>: with laws of the store taken from the comments of \<^verbatim>\<open>handler.h\<close>, commit timestamps are a serial order of
    the committed transactions, except at one tie the code lets through.
  \<^item> \<open>Client_Properties\<close>: the version a read takes, update, delete, insert, upsert, the timestamp proposed.  \<open>Data_Properties\<close>:
    encodings, set searches, ids and time.
  \<^item> \<open>Executor_Invariants\<close>, \<open>Executor_Contract\<close>: the tasks in use are counted, every transaction is counted once; the locales
    \<open>executor_system\<close> (a transition system that keeps this) and \<open>executor_run\<close> (the loop \<^verbatim>\<open>Run\<close>), interpreted on both
    executors as \<open>rt\<close>, \<open>rt_loop\<close>, \<open>ao\<close>, \<open>ao_loop\<close>.  \<open>Runtime_Invariants\<close>, \<open>Runtime_Properties\<close>, \<open>All_At_Once_Invariants\<close>,
    \<open>All_At_Once_Properties\<close>: routing, launching, counting, the end of a run.  \<open>Runtime_Progress\<close>: a transaction that asked to
    end is released after finitely many answered passes over its task.
  \<^item> \<open>Sample_Runs\<close>, \<open>Runtime_Samples\<close>: complete runs of an execution and of the runtime executor, evaluated by rewriting, which
    the examples use.
\<close>

text \<open>
  \<^bold>\<open>Conventions.\<close>
  \<^item> Assertions are live: the build does not define \<^verbatim>\<open>NDEBUG\<close>.  An exception, a failed assertion and every undefined behaviour
    (null, out of range, signed overflow, wrong cast) is a value \<open>Inl\<close> of the result.
  \<^item> A pointer to a pool slot or to an operation object is its index: vectors of \<^verbatim>\<open>unique_ptr\<close> keep the objects in place.  A
    \<^verbatim>\<open>Record *\<close> is an optional address of the record heap, an extension an opaque owned pointer.  A request never changes its
    table and key while its transaction runs, so a \<^verbatim>\<open>SetKey\<close> that points at them is modelled by their values.
  \<^item> \<^verbatim>\<open>int64_t\<close> is \<open>int\<close> with checked arithmetic; \<^verbatim>\<open>size_t\<close> counts are \<open>nat\<close>, and the \<^verbatim>\<open>int\<close> loops assume fewer than
    \<open>2 ^ 31\<close> entries; the comparison of \<^verbatim>\<open>active_txn_number_\<close> with an unsigned count is written with \<open>mod 2 ^ 32\<close>; timestamps
    of the kickout scan are 64-bit words, as \<^verbatim>\<open>int64_t\<close> minus \<^verbatim>\<open>size_t\<close> wraps.
  \<^item> Handler, data store and log are pure interfaces.  Their calls are the datatype \<open>storage_call\<close>, recorded in \<open>x_trace\<close>, which
    starts anew with a task's transaction; their answers are inputs: once per awaited call, at any time, with any content.
    \<^verbatim>\<open>MoveForward\<close> is atomic with respect to answers.  Other executions may change the shared \<open>world\<close> between any two steps.
  \<^item> \<^verbatim>\<open>RequestProcess\<close> and \<^verbatim>\<open>folly::MPMCQueue\<close> are not part of the repository: the former is a function argument, the latter the
    record \<open>mpmc\<close> with the hypothesis \<open>mpmc_fifo\<close>, which a bounded list satisfies (\<open>bounded_list_fifo\<close>).  The key iterator of
    the kickout scan is a record with the hypothesis \<open>iterates\<close>.  The store laws of \<open>Serial_Order\<close> hold of the history of a
    conflict of two transactions (\<open>both_served_laws\<close>).
  \<^item> The constructors copy a task several times; the model copies once.  \<^verbatim>\<open>Init\<close>, which wires operations to their execution, is
    implicit.  \<^verbatim>\<open>rq_result\<close> says whether a request is linked with the result of its execution.
  \<^item> The all-at-once executor shares the loop body of \<^verbatim>\<open>Advance\<close>; the argument \<open>Some has_driver\<close> selects its request switch.
    The third \<^verbatim>\<open>throw\<close> of the runtime executor's \<^verbatim>\<open>LaunchRequests\<close> is unreachable and left out.

  \<^bold>\<open>Loops and fuel.\<close>  Loops over vectors are structural.  The loops of the all-at-once executor are functions with a termination
  proof.  \<open>rt_launch_requests\<close>, \<open>rt_run\<close>, \<open>ao_advance\<close> and \<open>ao_run\<close> take a bound and give \<open>None\<close> while they still run:
  one turn more than the requests waiting is enough for the first (\<open>rt_launch_terminates\<close>); the others need not end, as they wait for
  the handler, and \<open>ao_advance_outcome\<close> says when \<^verbatim>\<open>Advance\<close> never does.  From the commit or abort request on
  a transaction ends after finitely many answered passes (\<open>end_request_finishes\<close>); \<^verbatim>\<open>Begin\<close> has no such bound, as
  \<^verbatim>\<open>InitTxn\<close> retries without limit.

  \<^bold>\<open>Not modelled.\<close>  \<^verbatim>\<open>txcheckpoint/tx-checkpoint.h\<close> calls handler methods with argument lists the interface does not declare: it does
  not compile and nothing includes it.  \<^verbatim>\<open>versiondb/versiondb.h\<close> is an interface nothing implements or calls.
  \<^verbatim>\<open>InsertRangeOperation\<close> is declared without a body.  \<^verbatim>\<open>utility/meta.h\<close> and \<^verbatim>\<open>crtp.h\<close> are compile-time templates, and most
  constants of \<^verbatim>\<open>configuration.h\<close> are read by no code.  Methods of the handler that nothing calls have no constructor in
  \<open>storage_call\<close>.  Getters without further effect are the field selectors.  The mutex and condition variable of a request guard
  one flag and are not modelled beyond it.
\<close>

end
